(* ===== verification/Prelude.thy ===== *)
theory Prelude
  imports Complex_Main "HOL-Library.Word" "HOL-Library.Multiset"
begin

text \<open>
  Shared ground of the development: C's fixed-width integers, keyed rows (the shape of a rowid
  table), characters and the generic list lemmas that the component theories use.

  A C \<open>int\<close> is an \<open>int\<close> of HOL kept in range by \<open>wrap32\<close> wherever the code converts a wider
  value to \<open>int\<close>; a C \<open>long\<close> (64 bits on the program's platform) is clamped by \<open>clamp64\<close>
  where the C library saturates.
\<close>

named_theorems wrap_simps \<open>conversions between C integer widths\<close>
named_theorems row_simps \<open>lookup, update and insertion in keyed row lists\<close>

section \<open>C integers\<close>

abbreviation INT_MAX :: int where "INT_MAX \<equiv> 2147483647"
abbreviation INT_MIN :: int where "INT_MIN \<equiv> - 2147483648"
abbreviation LONG_MAX :: int where "LONG_MAX \<equiv> 9223372036854775807"
abbreviation LONG_MIN :: int where "LONG_MIN \<equiv> - 9223372036854775808"

definition is_int32 :: "int \<Rightarrow> bool" where
  "is_int32 n \<longleftrightarrow> INT_MIN \<le> n \<and> n \<le> INT_MAX"

definition is_int64 :: "int \<Rightarrow> bool" where
  "is_int64 n \<longleftrightarrow> LONG_MIN \<le> n \<and> n \<le> LONG_MAX"

definition wrap32 :: "int \<Rightarrow> int" where
  "wrap32 n = sint (word_of_int n :: 32 word)"

definition clamp64 :: "int \<Rightarrow> int" where
  "clamp64 n = max LONG_MIN (min LONG_MAX n)"

text \<open>C's division and remainder truncate towards zero.\<close>

definition c_div :: "int \<Rightarrow> int \<Rightarrow> int" where
  "c_div a b = sgn a * sgn b * (\<bar>a\<bar> div \<bar>b\<bar>)"

definition c_mod :: "int \<Rightarrow> int \<Rightarrow> int" where
  "c_mod a b = a - b * c_div a b"

section \<open>Keyed rows\<close>

text \<open>A rowid table is the list of its rows in ascending order of the key.\<close>

type_synonym ('k, 'r) rows = "('k \<times> 'r) list"

abbreviation keys :: "('k, 'r) rows \<Rightarrow> 'k list" where
  "keys rs \<equiv> map fst rs"

definition rows_ok :: "('k::linorder, 'r) rows \<Rightarrow> bool" where
  "rows_ok rs \<longleftrightarrow> sorted_wrt (<) (keys rs)"

definition row_upd :: "'k \<Rightarrow> ('r \<Rightarrow> 'r) \<Rightarrow> ('k, 'r) rows \<Rightarrow> ('k, 'r) rows" where
  "row_upd k f rs = map (\<lambda>(k', r). (k', if k' = k then f r else r)) rs"

fun row_ins :: "'k::linorder \<Rightarrow> 'r \<Rightarrow> ('k, 'r) rows \<Rightarrow> ('k, 'r) rows" where
  "row_ins k r [] = [(k, r)]"
| "row_ins k r ((k', r') # rs) =
     (if k < k' then (k, r) # (k', r') # rs else (k', r') # row_ins k r rs)"

section \<open>Allocation\<close>

text \<open>The outcomes of the successive calls of an allocator; all calls succeed once the list is used up.\<close>

type_synonym allocs = "bool list"

definition alloc :: "allocs \<Rightarrow> bool \<times> allocs" where
  "alloc al = (case al of [] \<Rightarrow> (True, []) | b # bs \<Rightarrow> (b, bs))"

section \<open>Lemmas: C integers\<close>

lemma wrap32_eq [code]: "wrap32 n = (n + 2147483648) mod 4294967296 - 2147483648"
  by (simp add: wrap32_def sint_sbintrunc' signed_take_bit_eq_take_bit_shift take_bit_eq_mod)

lemma wrap32_id [wrap_simps]: "is_int32 n \<Longrightarrow> wrap32 n = n"
  by (simp add: wrap32_eq is_int32_def)

lemma wrap32_small [wrap_simps]: "INT_MIN \<le> n \<Longrightarrow> n \<le> INT_MAX \<Longrightarrow> wrap32 n = n"
  by (simp add: wrap32_eq)

lemma wrap32_range [simp]: "is_int32 (wrap32 n)"
  unfolding is_int32_def wrap32_eq
  using pos_mod_bound[of 4294967296 "n + 2147483648"] pos_mod_sign[of 4294967296 "n + 2147483648"]
  by linarith

lemma wrap32_idem [simp]: "wrap32 (wrap32 n) = wrap32 n"
  by (rule wrap32_id) simp

lemma wrap32_add [wrap_simps]: "wrap32 (n + 4294967296 * k) = wrap32 n"
  unfolding wrap32_eq
  using mod_mult_self2[of "n + 2147483648" 4294967296 k] by (simp add: ac_simps)

lemma clamp64_id [wrap_simps]: "is_int64 n \<Longrightarrow> clamp64 n = n"
  by (simp add: clamp64_def is_int64_def)

lemma clamp64_range [simp]: "is_int64 (clamp64 n)"
  by (simp add: clamp64_def is_int64_def)

lemma is_int32_is_int64: "is_int32 n \<Longrightarrow> is_int64 n"
  by (simp add: is_int32_def is_int64_def)

lemma c_div_nonneg [simp]: "0 \<le> a \<Longrightarrow> 0 < b \<Longrightarrow> c_div a b = a div b"
  by (cases "a = 0") (simp_all add: c_div_def)

lemma c_mod_nonneg [simp]: "0 \<le> a \<Longrightarrow> 0 < b \<Longrightarrow> c_mod a b = a mod b"
  by (simp add: c_mod_def minus_mult_div_eq_mod)

section \<open>Lemmas: keyed rows\<close>

lemma keys_row_upd [row_simps, simp]: "keys (row_upd k f rs) = keys rs"
  by (induction rs) (auto simp: row_upd_def)

lemma length_row_upd [simp]: "length (row_upd k f rs) = length rs"
  by (simp add: row_upd_def)

lemma rows_ok_row_upd [row_simps, simp]: "rows_ok (row_upd k f rs) = rows_ok rs"
  by (simp add: rows_ok_def)

lemma row_upd_Nil [simp]: "row_upd k f [] = []"
  by (simp add: row_upd_def)

lemma row_upd_Cons [simp]:
  "row_upd k f ((k', r) # rs) = (k', if k' = k then f r else r) # row_upd k f rs"
  by (simp add: row_upd_def)

lemma map_of_row_upd [row_simps]:
  "map_of (row_upd k f rs) k' = (if k' = k then map_option f (map_of rs k) else map_of rs k')"
  by (induction rs) auto

lemma row_upd_absent [row_simps]: "map_of rs k = None \<Longrightarrow> row_upd k f rs = rs"
  by (induction rs) (auto split: if_splits)

lemma in_set_row_upd:
  "(k', r') \<in> set (row_upd k f rs) \<longleftrightarrow> (\<exists>r. (k', r) \<in> set rs \<and> r' = (if k' = k then f r else r))"
  by (induction rs) auto

lemma set_row_ins: "set (row_ins k r rs) = insert (k, r) (set rs)"
  by (induction k r rs rule: row_ins.induct) auto

lemma map_filter_row_upd:
  "(\<And>r. g (k, f r) = g (k, r)) \<Longrightarrow> List.map_filter g (row_upd k f rs) = List.map_filter g rs"
  by (induction rs) (auto simp: map_filter_simps split: option.splits)

lemma mset_row_ins: "mset (row_ins k r rs) = add_mset (k, r) (mset rs)"
  by (induction k r rs rule: row_ins.induct) auto

lemma set_keys_row_ins [row_simps, simp]: "set (keys (row_ins k r rs)) = insert k (set (keys rs))"
  by (induction rs rule: row_ins.induct) auto

lemma map_of_row_ins [row_simps]:
  "map_of rs k = None \<Longrightarrow> map_of (row_ins k r rs) k' = (if k' = k then Some r else map_of rs k')"
  by (induction k r rs rule: row_ins.induct) (auto split: if_splits)

lemma rows_ok_row_ins [row_simps]:
  "rows_ok rs \<Longrightarrow> map_of rs k = None \<Longrightarrow> rows_ok (row_ins k r rs)"
proof (induction k r rs rule: row_ins.induct)
  case (2 k r k' r' rs)
  show ?case
  proof (cases "k < k'")
    case True
    with 2 show ?thesis by (fastforce simp: rows_ok_def)
  next
    case False
    with 2 have "k' < k" by (auto split: if_splits)
    moreover from 2 have "rows_ok rs" and "\<forall>x \<in> set (keys rs). k' < x"
      by (auto simp: rows_ok_def)
    moreover from False 2 have "rows_ok (row_ins k r rs)"
      by (auto simp: rows_ok_def split: if_splits)
    moreover have "set (keys (row_ins k r rs)) = insert k (set (keys rs))" by (rule set_keys_row_ins)
    ultimately show ?thesis using False by (auto simp: rows_ok_def)
  qed
qed (simp add: rows_ok_def)

lemma rows_ok_distinct: "rows_ok rs \<Longrightarrow> distinct (keys rs)"
  unfolding rows_ok_def by (simp add: strict_sorted_iff)

lemma rows_ok_map_of: "rows_ok rs \<Longrightarrow> (k, r) \<in> set rs \<Longrightarrow> map_of rs k = Some r"
  by (simp add: rows_ok_distinct)

section \<open>Lemmas: lists\<close>

lemma takeWhile_append_stop:
  "\<forall>x \<in> set xs. P x \<Longrightarrow> ys = [] \<or> \<not> P (hd ys) \<Longrightarrow> takeWhile P (xs @ ys) = xs"
  by (cases ys) (auto simp: takeWhile_append2)

lemma dropWhile_append_stop:
  "\<forall>x \<in> set xs. P x \<Longrightarrow> ys = [] \<or> \<not> P (hd ys) \<Longrightarrow> dropWhile P (xs @ ys) = ys"
  by (cases ys) (auto simp: dropWhile_append2)

lemma length_dropWhile_less: "xs \<noteq> [] \<Longrightarrow> P (hd xs) \<Longrightarrow> length (dropWhile P xs) < length xs"
  by (cases xs) (auto simp: length_dropWhile_le le_imp_less_Suc)

lemma sum_list_map_filter_snoc:
  "sum_list (map f (filter P (xs @ [x]))) = sum_list (map f (filter P xs)) + (if P x then f x else (0::int))"
  by simp

end
