(* ===== verification/Cstring.thy ===== *)
theory Cstring
  imports Prelude
begin

text \<open>
  The parts of the C library that the program calls on strings, on values of type \<open>string\<close>
  (the characters before the terminating NUL): \<^verbatim>\<open>strtol\<close>, \<^verbatim>\<open>atoi\<close>, \<^verbatim>\<open>sscanf\<close>, \<^verbatim>\<open>printf\<close>'s
  \<^verbatim>\<open>%d\<close>, \<^verbatim>\<open>strtok\<close> with its hidden static pointer, \<^verbatim>\<open>strstr\<close>, \<^verbatim>\<open>strncasecmp\<close>, and the
  \<^verbatim>\<open>strncpy\<close>/\<^verbatim>\<open>snprintf\<close> idiom that fills a fixed buffer and terminates it.

  Integer conversions follow the C library of the program's platform (glibc on a 64-bit
  machine): a value out of range saturates at the bounds of \<^verbatim>\<open>long\<close>, and the conversion
  of that \<^verbatim>\<open>long\<close> to \<^verbatim>\<open>int\<close> keeps the low 32 bits.
\<close>

section \<open>Characters\<close>

definition isspace :: "char \<Rightarrow> bool" where
  "isspace c \<longleftrightarrow> c = CHR '' '' \<or> c = CHR 0x09 \<or> c = CHR 0x0A \<or> c = CHR 0x0B \<or> c = CHR 0x0C \<or> c = CHR 0x0D"

definition isdigit :: "char \<Rightarrow> bool" where
  "isdigit c \<longleftrightarrow> 48 \<le> (of_char c :: nat) \<and> (of_char c :: nat) \<le> 57"

definition digit_val :: "char \<Rightarrow> nat" where
  "digit_val c = of_char c - 48"

definition digit_chr :: "nat \<Rightarrow> char" where
  "digit_chr d = ''0123456789'' ! d"

definition tolower :: "char \<Rightarrow> char" where
  "tolower c = (let n = (of_char c :: nat) in if 65 \<le> n \<and> n \<le> 90 then char_of (n + 32) else c)"

section \<open>Integers out of strings\<close>

fun scan_digits :: "nat \<Rightarrow> string \<Rightarrow> nat \<times> string" where
  "scan_digits v [] = (v, [])"
| "scan_digits v (c # cs) = (if isdigit c then scan_digits (10 * v + digit_val c) cs else (v, c # cs))"

definition skip_ws :: "string \<Rightarrow> string" where
  "skip_ws s = dropWhile isspace s"

text \<open>The common core of \<^verbatim>\<open>strtol(s, &end, 10)\<close> and of \<^verbatim>\<open>%d\<close>: white space, an optional
  sign, at least one digit. \<open>None\<close> when there is no digit.\<close>

definition scan_long :: "string \<Rightarrow> (int \<times> string) option" where
  "scan_long s =
     (let s1 = skip_ws s;
          neg = (s1 \<noteq> [] \<and> hd s1 = CHR ''-'');
          s2 = (if s1 \<noteq> [] \<and> (hd s1 = CHR ''-'' \<or> hd s1 = CHR ''+'') then tl s1 else s1)
      in if s2 \<noteq> [] \<and> isdigit (hd s2)
         then let (v, r) = scan_digits 0 s2
              in Some (clamp64 (if neg then - int v else int v), r)
         else None)"

definition strtol :: "string \<Rightarrow> int \<times> string" where
  "strtol s = (case scan_long s of None \<Rightarrow> (0, s) | Some p \<Rightarrow> p)"

definition atoi :: "string \<Rightarrow> int" where
  "atoi s = wrap32 (fst (strtol s))"

section \<open>Integers into strings: \<open>%d\<close>\<close>

fun show_nat :: "nat \<Rightarrow> string" where
  "show_nat n = (if n < 10 then [digit_chr n] else show_nat (n div 10) @ [digit_chr (n mod 10)])"

declare show_nat.simps [simp del]

definition show_int :: "int \<Rightarrow> string" where
  "show_int n = (if n < 0 then CHR ''-'' # show_nat (nat (- n)) else show_nat (nat n))"

section \<open>\<open>sscanf\<close>\<close>

text \<open>The directives that the program's formats use: white space, a literal character, \<open>%d\<close>,
  \<open>%<w>s\<close> and \<open>%<w>[^c]\<close>.\<close>

datatype directive = FWs | FLit char | FInt | FStr nat | FNot nat char

datatype scanval = VInt int | VStr string

fun parse_fmt :: "nat option \<Rightarrow> string \<Rightarrow> directive list" where
  "parse_fmt _ [] = []"
| "parse_fmt None (c # cs) =
     (if isspace c then FWs # parse_fmt None cs
      else if c = CHR ''%'' then parse_fmt (Some 0) cs
      else FLit c # parse_fmt None cs)"
| "parse_fmt (Some w) (c # cs) =
     (if isdigit c then parse_fmt (Some (10 * w + digit_val c)) cs
      else if c = CHR ''d'' then FInt # parse_fmt None cs
      else if c = CHR ''s'' then FStr w # parse_fmt None cs
      else if c = CHR ''['' then
        (case cs of
           k # x # e # cs' \<Rightarrow> (if k = CHR ''^'' \<and> e = CHR '']'' then FNot w x # parse_fmt None cs' else [])
         | _ \<Rightarrow> [])
      else [])"

text \<open>The values stored before the first failure, in order; \<^verbatim>\<open>sscanf\<close> returns their number
  (or EOF, which the program never tells apart from a count that is too small).\<close>

fun scan :: "directive list \<Rightarrow> string \<Rightarrow> scanval list" where
  "scan [] s = []"
| "scan (FWs # ds) s = scan ds (skip_ws s)"
| "scan (FLit c # ds) s = (case s of [] \<Rightarrow> [] | x # xs \<Rightarrow> if x = c then scan ds xs else [])"
| "scan (FInt # ds) s =
     (case scan_long s of None \<Rightarrow> [] | Some (v, r) \<Rightarrow> VInt (wrap32 v) # scan ds r)"
| "scan (FStr w # ds) s =
     (let t = take w (takeWhile (\<lambda>c. \<not> isspace c) (skip_ws s))
      in if t = [] then [] else VStr t # scan ds (drop (length t) (skip_ws s)))"
| "scan (FNot w x # ds) s =
     (let t = take w (takeWhile (\<lambda>c. c \<noteq> x) s)
      in if t = [] then [] else VStr t # scan ds (drop (length t) s))"

definition sscanf :: "string \<Rightarrow> string \<Rightarrow> scanval list" where
  "sscanf fmt s = scan (parse_fmt None fmt) s"

text \<open>\<^verbatim>\<open>sscanf(s, fmt, &x) != 1\<close> with one \<open>%d\<close> is \<open>sscanf1_int fmt s = None\<close>.\<close>

definition sscanf1_int :: "string \<Rightarrow> string \<Rightarrow> int option" where
  "sscanf1_int fmt s = (case sscanf fmt s of [VInt v] \<Rightarrow> Some v | _ \<Rightarrow> None)"

section \<open>\<open>strtok\<close>\<close>

text \<open>The hidden static pointer of \<^verbatim>\<open>strtok\<close> is the rest of the string being split; \<open>None\<close> is
  the initial null pointer. \<^verbatim>\<open>strtok(s, d)\<close> is \<open>strtok d (Some s)\<close>, \<^verbatim>\<open>strtok(NULL, d)\<close> is
  \<open>strtok d None\<close>.\<close>

definition strtok :: "char \<Rightarrow> string option \<Rightarrow> string option \<Rightarrow> string option \<times> string option" where
  "strtok d arg saved =
     (case (case arg of Some s \<Rightarrow> Some s | None \<Rightarrow> saved) of
        None \<Rightarrow> (None, None)
      | Some s \<Rightarrow>
          (let s1 = dropWhile (\<lambda>c. c = d) s;
               tok = takeWhile (\<lambda>c. c \<noteq> d) s1;
               rest = dropWhile (\<lambda>c. c \<noteq> d) s1
           in if s1 = [] then (None, Some []) else (Some tok, Some (tl rest))))"

lemma segments_decreases:
  assumes "dropWhile (\<lambda>c. c = d) s \<noteq> []"
  shows "length (tl (dropWhile (\<lambda>c. c \<noteq> d) (dropWhile (\<lambda>c. c = d) s))) < length s"
proof -
  let ?s1 = "dropWhile (\<lambda>c. c = d) s"
  have "length (tl (dropWhile (\<lambda>c. c \<noteq> d) ?s1)) < length ?s1"
    using assms length_dropWhile_le[of "\<lambda>c. c \<noteq> d" ?s1] by (cases ?s1) auto
  also have "length ?s1 \<le> length s" by (rule length_dropWhile_le)
  finally show ?thesis .
qed

text \<open>What one thread's complete loop over \<^verbatim>\<open>strtok\<close> sees: the non-empty segments.\<close>

function segments :: "char \<Rightarrow> string \<Rightarrow> string list" where
  "segments d s =
     (let s1 = dropWhile (\<lambda>c. c = d) s
      in if s1 = [] then []
         else takeWhile (\<lambda>c. c \<noteq> d) s1 # segments d (tl (dropWhile (\<lambda>c. c \<noteq> d) s1)))"
  by pat_completeness auto
termination
proof (relation "measure (\<lambda>(d, s). length s)")
  fix d :: char and s s1
  assume "s1 = dropWhile (\<lambda>c. c = d) s" and "s1 \<noteq> []"
  then show "((d, tl (dropWhile (\<lambda>c. c \<noteq> d) s1)), d, s) \<in> measure (\<lambda>(d, s). length s)"
    using segments_decreases[of d s] by (simp only: in_measure prod.case simp_thms)
qed simp

declare segments.simps [simp del]

section \<open>Searching and buffers\<close>

text \<open>\<^verbatim>\<open>strstr(p, "\r\n")\<close>: the text before the first CR LF and the text after it.\<close>

fun find_crlf :: "string \<Rightarrow> (string \<times> string) option" where
  "find_crlf (a # b # cs) =
     (if a = CHR 0x0D \<and> b = CHR 0x0A then Some ([], cs)
      else map_option (\<lambda>(l, r). (a # l, r)) (find_crlf (b # cs)))"
| "find_crlf _ = None"

definition strncasecmp_eq :: "string \<Rightarrow> string \<Rightarrow> bool" where
  "strncasecmp_eq p lit \<longleftrightarrow> map tolower (take (length lit) p) = map tolower lit"

text \<open>\<^verbatim>\<open>strncpy(dst, src, n - 1); dst[n - 1] = 0\<close> and \<^verbatim>\<open>snprintf(dst, n, ...)\<close> for a
  buffer of \<open>n\<close> bytes leave this string in it.\<close>

definition fill_buf :: "nat \<Rightarrow> string \<Rightarrow> string" where
  "fill_buf n s = take (n - 1) s"

section \<open>Lemmas: digits and integers\<close>

lemma digit_cases: "d < 10 \<Longrightarrow> d \<in> {0, 1, 2, 3, 4, 5, 6, 7, 8, 9::nat}"
  by auto

lemma isdigit_digit_chr [simp]: "d < 10 \<Longrightarrow> isdigit (digit_chr d)"
  by (drule digit_cases) (auto simp: isdigit_def digit_chr_def)

lemma digit_val_digit_chr [simp]: "d < 10 \<Longrightarrow> digit_val (digit_chr d) = d"
  by (drule digit_cases) (auto simp: digit_val_def digit_chr_def)

lemma digit_not_space: "isdigit c \<Longrightarrow> \<not> isspace c"
  by (auto simp: isdigit_def isspace_def)

lemma digit_not_sign: "isdigit c \<Longrightarrow> c \<noteq> CHR ''-'' \<and> c \<noteq> CHR ''+''"
  by (auto simp: isdigit_def)

lemma show_nat_digits: "\<forall>c \<in> set (show_nat n). isdigit c"
proof (induction n rule: show_nat.induct)
  case (1 n)
  then show ?case by (cases "n < 10") (auto simp: show_nat.simps[of n])
qed

lemma show_nat_ne [simp]: "show_nat n \<noteq> []"
  by (simp add: show_nat.simps)

lemma hd_show_nat_digit: "isdigit (hd (show_nat n @ r))"
  using show_nat_digits[of n] by (cases "show_nat n") auto

lemma scan_digits_append:
  "\<forall>c \<in> set ds. isdigit c \<Longrightarrow> scan_digits v (ds @ r) = scan_digits (fst (scan_digits v ds)) r"
  by (induction ds arbitrary: v) auto

lemma scan_digits_all: "\<forall>c \<in> set ds. isdigit c \<Longrightarrow> snd (scan_digits v ds) = []"
  by (induction ds arbitrary: v) auto

lemma scan_digits_stop: "r = [] \<or> \<not> isdigit (hd r) \<Longrightarrow> scan_digits v r = (v, r)"
  by (cases r) auto

lemma fst_scan_digits_show_nat: "fst (scan_digits 0 (show_nat n)) = n"
proof (induction n rule: show_nat.induct)
  case (1 n)
  show ?case
  proof (cases "n < 10")
    case True
    then show ?thesis by (simp add: show_nat.simps[of n])
  next
    case False
    with 1 have "fst (scan_digits 0 (show_nat (n div 10))) = n div 10" by simp
    with False show ?thesis
      using scan_digits_append[OF show_nat_digits, of 0 "n div 10" "[digit_chr (n mod 10)]"]
      by (simp add: show_nat.simps[of n])
  qed
qed

lemma scan_digits_show_nat:
  "r = [] \<or> \<not> isdigit (hd r) \<Longrightarrow> scan_digits 0 (show_nat n @ r) = (n, r)"
  by (simp add: scan_digits_append[OF show_nat_digits] fst_scan_digits_show_nat scan_digits_stop)

lemma skip_ws_stop [simp]: "s \<noteq> [] \<Longrightarrow> \<not> isspace (hd s) \<Longrightarrow> skip_ws s = s"
  by (cases s) (auto simp: skip_ws_def)

lemma skip_ws_Nil [simp]: "skip_ws [] = []"
  by (simp add: skip_ws_def)

lemma scan_long_show_int:
  assumes "is_int64 n" and "r = [] \<or> \<not> isdigit (hd r)"
  shows "scan_long (show_int n @ r) = Some (n, r)"
proof (cases "n < 0")
  case True
  then show ?thesis
    using assms hd_show_nat_digit[of "nat (- n)" r]
    by (simp add: show_int_def scan_long_def isspace_def scan_digits_show_nat clamp64_id)
next
  case False
  have "\<not> isspace (hd (show_nat (nat n) @ r))" "hd (show_nat (nat n) @ r) \<noteq> CHR ''-''"
       "hd (show_nat (nat n) @ r) \<noteq> CHR ''+''"
    using hd_show_nat_digit[of "nat n" r] digit_not_space digit_not_sign by blast+
  then show ?thesis
    using False assms hd_show_nat_digit[of "nat n" r]
    by (simp add: show_int_def scan_long_def scan_digits_show_nat clamp64_id del: hd_append2)
qed

lemma scan_long_range: "scan_long s = Some (v, r) \<Longrightarrow> is_int64 v"
  by (auto simp: scan_long_def Let_def split: if_splits prod.splits)

lemma strtol_show_int: "is_int64 n \<Longrightarrow> strtol (show_int n) = (n, [])"
  using scan_long_show_int[of n "[]"] by (simp add: strtol_def)

lemma strtol_range: "is_int64 (fst (strtol s))"
  by (auto simp: strtol_def is_int64_def dest: scan_long_range split: option.splits)

lemma atoi_show_int: "is_int32 n \<Longrightarrow> atoi (show_int n) = n"
  by (simp add: atoi_def strtol_show_int is_int32_is_int64 wrap32_id)

lemma atoi_range: "is_int32 (atoi s)"
  by (simp add: atoi_def)

lemma show_nat_length: "n < 10 ^ k \<Longrightarrow> 0 < k \<Longrightarrow> length (show_nat n) \<le> k"
proof (induction n arbitrary: k rule: show_nat.induct)
  case (1 n)
  show ?case
  proof (cases "n < 10")
    case True
    with 1 show ?thesis by (simp add: show_nat.simps[of n])
  next
    case False
    obtain j where k: "k = Suc j" using "1.prems" by (cases k) auto
    with False "1.prems" have "0 < j" by (cases j) auto
    moreover from k "1.prems" have "n div 10 < 10 ^ j" by (simp add: less_mult_imp_div_less mult.commute)
    ultimately have "length (show_nat (n div 10)) \<le> j" using "1.IH" False by blast
    with False k show ?thesis by (simp add: show_nat.simps[of n])
  qed
qed

lemma show_int_length: "is_int32 n \<Longrightarrow> length (show_int n) \<le> 11"
  using show_nat_length[of "nat (- n)" 10] show_nat_length[of "nat n" 11]
  by (auto simp: show_int_def is_int32_def)

lemma show_int_length_nonneg: "0 \<le> n \<Longrightarrow> n \<le> INT_MAX \<Longrightarrow> length (show_int n) \<le> 10"
  using show_nat_length[of "nat n" 10] by (auto simp: show_int_def)

section \<open>Lemmas: \<open>strtok\<close> and segments\<close>

lemma segments_step:
  "dropWhile (\<lambda>c. c = d) s \<noteq> [] \<Longrightarrow>
   segments d s = takeWhile (\<lambda>c. c \<noteq> d) (dropWhile (\<lambda>c. c = d) s) #
     segments d (tl (dropWhile (\<lambda>c. c \<noteq> d) (dropWhile (\<lambda>c. c = d) s)))"
  by (subst segments.simps) (simp add: Let_def)

lemma segments_end: "dropWhile (\<lambda>c. c = d) s = [] \<Longrightarrow> segments d s = []"
  by (subst segments.simps) simp

lemma segments_Nil [simp]: "segments d [] = []"
  by (rule segments_end) simp

lemma segments_skip: "segments d (d # s) = segments d s"
  by (subst (1 2) segments.simps) simp

text \<open>One call of \<^verbatim>\<open>strtok\<close> yields the first segment and saves the string of the others.\<close>

lemma strtok_first:
  "strtok d (Some s) saved =
     (case segments d s of [] \<Rightarrow> (None, Some [])
      | t # _ \<Rightarrow> (Some t, Some (tl (dropWhile (\<lambda>c. c \<noteq> d) (dropWhile (\<lambda>c. c = d) s)))))"
  by (cases "dropWhile (\<lambda>c. c = d) s = []")
     (simp_all add: strtok_def Let_def segments_end segments_step)

lemma strtok_next: "strtok d None (Some s) = strtok d (Some s) sv"
  by (simp add: strtok_def)

lemma strtok_Some:
  assumes "strtok d (Some s) sv = (Some t, sv')"
  obtains s' where "sv' = Some s'" "segments d s = t # segments d s'" "length s' < length s"
proof -
  from assms have ne: "dropWhile (\<lambda>c. c = d) s \<noteq> []"
    using segments_end[of d s] by (fastforce simp: strtok_first)
  with assms have "sv' = Some (tl (dropWhile (\<lambda>c. c \<noteq> d) (dropWhile (\<lambda>c. c = d) s)))"
      and "t = takeWhile (\<lambda>c. c \<noteq> d) (dropWhile (\<lambda>c. c = d) s)"
    by (auto simp: strtok_def Let_def split: if_splits)
  with ne that show thesis by (metis segments_step segments_decreases)
qed

lemma strtok_None: "strtok d (Some s) sv = (None, sv') \<Longrightarrow> segments d s = []"
  by (auto simp: strtok_first split: list.splits)

lemma segments_no_delim: "t \<in> set (segments d s) \<Longrightarrow> t \<noteq> [] \<and> d \<notin> set t"
proof (induction d s rule: segments.induct)
  case (1 d s)
  let ?s1 = "dropWhile (\<lambda>c. c = d) s"
  show ?case
  proof (cases "?s1 = []")
    case True
    with 1 show ?thesis by (simp add: segments_end)
  next
    case False
    have "takeWhile (\<lambda>c. c \<noteq> d) ?s1 \<noteq> []"
      using False hd_dropWhile[of "\<lambda>c. c = d" s] by (cases ?s1) auto
    moreover have "d \<notin> set (takeWhile (\<lambda>c. c \<noteq> d) ?s1)"
      using set_takeWhileD by fastforce
    ultimately show ?thesis using 1 False by (auto simp: segments_step[OF False])
  qed
qed

text \<open>A path written with one delimiter before each segment splits into these segments.\<close>

definition join_path :: "char \<Rightarrow> string list \<Rightarrow> string" where
  "join_path d ts = concat (map (\<lambda>t. d # t) ts)"

lemma join_path_simps [simp]:
  "join_path d [] = []" "join_path d (t # ts) = d # t @ join_path d ts"
  by (simp_all add: join_path_def)

lemma segments_token:
  assumes "t \<noteq> []" and "d \<notin> set t" and "r = [] \<or> hd r = d"
  shows "segments d (d # t @ r) = t # segments d r"
proof -
  from assms obtain a t' where t: "t = a # t'" "a \<noteq> d" by (cases t) auto
  then have dw: "dropWhile (\<lambda>c. c = d) (d # t @ r) = t @ r" by simp
  have "takeWhile (\<lambda>c. c \<noteq> d) (t @ r) = t" "dropWhile (\<lambda>c. c \<noteq> d) (t @ r) = r"
    using assms by (auto intro!: takeWhile_append_stop dropWhile_append_stop)
  moreover have "segments d (tl r) = segments d r"
    using assms(3) by (cases r) (auto simp: segments_skip)
  ultimately show ?thesis using segments_step[of d "d # t @ r"] dw t by simp
qed

lemma segments_join_path:
  "\<forall>t \<in> set ts. t \<noteq> [] \<and> d \<notin> set t \<Longrightarrow> segments d (join_path d ts) = ts"
proof (induction ts)
  case (Cons t ts)
  have "join_path d ts = [] \<or> hd (join_path d ts) = d" by (cases ts) auto
  with Cons show ?case by (simp add: segments_token)
qed simp

section \<open>Lemmas: searching\<close>

lemma find_crlf_Some: "find_crlf s = Some (l, r) \<Longrightarrow> s = l @ CHR 0x0D # CHR 0x0A # r"
  by (induction s arbitrary: l rule: find_crlf.induct) (auto split: if_splits)

lemma find_crlf_length: "find_crlf s = Some (l, r) \<Longrightarrow> length r < length s"
  by (drule find_crlf_Some) simp

lemma find_crlf_line:
  "CHR 0x0D \<notin> set l \<Longrightarrow> find_crlf (l @ CHR 0x0D # CHR 0x0A # r) = Some (l, r)"
proof (induction l)
  case (Cons a l)
  then show ?case by (cases l) auto
qed simp

lemma length_fill_buf: "0 < n \<Longrightarrow> length (fill_buf n s) < n"
  by (auto simp: fill_buf_def)

lemma fill_buf_id: "length s < n \<Longrightarrow> fill_buf n s = s"
  by (simp add: fill_buf_def)

lemma show_int_chars: "c \<in> set (show_int n) \<Longrightarrow> isdigit c \<or> c = CHR ''-''"
  using show_nat_digits by (auto simp: show_int_def split: if_splits)

lemma show_int_ne [simp]: "show_int n \<noteq> []"
  by (simp add: show_int_def)

text \<open>Texts with a separator between them.\<close>

fun join_with :: "string \<Rightarrow> string list \<Rightarrow> string" where
  "join_with sep [] = []"
| "join_with sep [x] = x"
| "join_with sep (x # y # zs) = x @ sep @ join_with sep (y # zs)"

end
