(* ===== verification/Radix_Tree.thy ===== *)
theory Radix_Tree
  imports Cstring
begin

text \<open>
  \<^verbatim>\<open>server/src/api/router/radix_tree/radix_tree.c\<close>: the tree of path segments that the router keeps its
  handlers in. A child pointer is the index of the child in its parent; an update through a pointer
  to a child replaces the child at its index. The list of booleans is the outcome of the successive
  calls of \<^verbatim>\<open>malloc\<close> and \<^verbatim>\<open>realloc\<close> (all succeed once it is used up); \<^verbatim>\<open>strdup\<close> is not checked by
  the code and succeeds here.

  The interface of the tree is the locale \<open>route_table\<close>: what a lookup returns after an insertion,
  and how a search that may use wildcards relates to it.
\<close>

section \<open>Data\<close>

datatype 'p node = Node (name: string) (payload: "'p option") (children: "'p node list")

record 'p radix_tree =
  root :: "'p node"
  delimeter :: char
  wildcard :: char

section \<open>Operations\<close>

definition create_node :: "string \<Rightarrow> 'p option \<Rightarrow> allocs \<Rightarrow> 'p node option \<times> allocs" where
  "create_node nm p al =
     (let (ok, al1) = alloc al in
      if \<not> ok then (None, al1) else (Some (Node nm p []), al1))"

fun find_from :: "nat \<Rightarrow> 'p node list \<Rightarrow> string \<Rightarrow> nat option" where
  "find_from i [] nm = None"
| "find_from i (c # cs) nm = (if name c \<noteq> nm then find_from (Suc i) cs nm else Some i)"

definition find_child :: "'p node \<Rightarrow> string \<Rightarrow> nat option" where
  "find_child parent nm = find_from 0 (children parent) nm"

definition add_child :: "'p node \<Rightarrow> 'p node \<Rightarrow> allocs \<Rightarrow> int \<times> 'p node \<times> allocs" where
  "add_child parent child al =
     (let (ok, al1) = alloc al in
      if \<not> ok then (-1, parent, al1)
      else (0, Node (name parent) (payload parent) (children parent @ [child]), al1))"

definition set_child :: "'p node \<Rightarrow> nat \<Rightarrow> 'p node \<Rightarrow> 'p node" where
  "set_child parent i c = Node (name parent) (payload parent) ((children parent)[i := c])"

definition init_tree :: "char \<Rightarrow> char \<Rightarrow> allocs \<Rightarrow> 'p radix_tree option \<times> allocs" where
  "init_tree delim wild al =
     (let (ok, al1) = alloc al in
      if \<not> ok then (None, al1)
      else case create_node [] None al1 of
             (None, al2) \<Rightarrow> (None, al2)
           | (Some r, al2) \<Rightarrow> (Some \<lparr>root = r, delimeter = delim, wildcard = wild\<rparr>, al2))"

text \<open>The loop of \<^verbatim>\<open>add_node\<close>, on the segments that \<^verbatim>\<open>strtok\<close> yields one after the other.\<close>

primrec add_loop :: "string list \<Rightarrow> 'p option \<Rightarrow> 'p node \<Rightarrow> allocs \<Rightarrow> int \<times> 'p node \<times> allocs" where
  "add_loop [] p parent al = (0, Node (name parent) p (children parent), al)"
| "add_loop (prefix # ps) p parent al =
     (case find_child parent prefix of
        Some i \<Rightarrow>
          (let (rc, c, al1) = add_loop ps p (children parent ! i) al in (rc, set_child parent i c, al1))
      | None \<Rightarrow>
          (case create_node prefix None al of
             (None, al1) \<Rightarrow> (-1, parent, al1)
           | (Some child, al1) \<Rightarrow>
               (let (rc, parent1, al2) = add_child parent child al1 in
                if rc < 0 then (-1, parent, al2)
                else let (rc, c, al3) = add_loop ps p child al2
                     in (rc, set_child parent1 (length (children parent)) c, al3))))"

definition add_node :: "'p radix_tree \<Rightarrow> string \<Rightarrow> 'p option \<Rightarrow> allocs \<Rightarrow> int \<times> 'p radix_tree \<times> allocs" where
  "add_node tree nm p al =
     (let (rc, r, al1) = add_loop (segments (delimeter tree) nm) p (root tree) al
      in (rc, tree\<lparr>root := r\<rparr>, al1))"

text \<open>The child a search goes on to: the one with the segment's name, or else the first one whose
  name starts with the wildcard character.\<close>

definition child_for :: "char \<Rightarrow> 'p node \<Rightarrow> string \<Rightarrow> 'p node option" where
  "child_for wild parent prefix =
     (case find_child parent prefix of
        Some i \<Rightarrow> Some (children parent ! i)
      | None \<Rightarrow>
          (if wild \<noteq> CHR 0x00
           then find (\<lambda>c. name c \<noteq> [] \<and> hd (name c) = wild) (children parent)
           else None))"

lemma find_from_nth:
  "find_from i cs nm = Some j \<Longrightarrow> i \<le> j \<and> j < i + length cs \<and> name (cs ! (j - i)) = nm"
proof (induction i cs nm rule: find_from.induct)
  case (2 i c cs nm)
  show ?case
  proof (cases "name c = nm")
    case False
    with 2 have "Suc i \<le> j \<and> j < Suc i + length cs \<and> name (cs ! (j - Suc i)) = nm" by simp
    then show ?thesis by (auto simp: nth_Cons' Suc_diff_le)
  qed (use 2 in simp)
qed simp

lemma find_child_nth: "find_child n nm = Some i \<Longrightarrow> i < length (children n) \<and> name (children n ! i) = nm"
  using find_from_nth[of 0 "children n" nm i] by (simp add: find_child_def)

lemma child_for_in: "child_for w n s = Some c \<Longrightarrow> c \<in> set (children n)"
  by (auto simp: child_for_def find_Some_iff dest!: find_child_nth split: option.splits if_splits)

lemma child_for_size: "child_for w n s = Some c \<Longrightarrow> size c < size n"
  by (drule child_for_in) (cases n, auto dest: size_list_estimation'[where f = size and y = "size c"])

text \<open>The loop of \<^verbatim>\<open>search_node\<close>: \<open>saved\<close> is the hidden state of \<^verbatim>\<open>strtok\<close>, returned as well.\<close>

function search_loop :: "'p radix_tree \<Rightarrow> 'p node \<Rightarrow> string option \<Rightarrow> string option \<Rightarrow> 'p option \<times> string option" where
  "search_loop tree parent None saved = (payload parent, saved)"
| "search_loop tree parent (Some prefix) saved =
     (case child_for (wildcard tree) parent prefix of
        None \<Rightarrow> (None, saved)
      | Some child \<Rightarrow>
          (let (prefix', saved') = strtok (delimeter tree) None saved
           in search_loop tree child prefix' saved'))"
  by pat_completeness auto
termination
  by (relation "measure (\<lambda>(tree, parent, p, s). size parent)") (auto dest: child_for_size)

definition search_node :: "'p radix_tree \<Rightarrow> string \<Rightarrow> string option \<Rightarrow> 'p option \<times> string option" where
  "search_node tree nm saved =
     (let (prefix, saved1) = strtok (delimeter tree) (Some nm) saved
      in search_loop tree (root tree) prefix saved1)"

text \<open>The blocks that \<^verbatim>\<open>destroy_node\<close> frees, in order; a node is named by its path of indices.\<close>

datatype block = ChildArray "nat list" | NameOf "nat list" | NodeAt "nat list"

fun destroy_node :: "nat list \<Rightarrow> 'p node \<Rightarrow> block list"
  and destroy_children :: "nat list \<Rightarrow> nat \<Rightarrow> 'p node list \<Rightarrow> block list" where
  "destroy_node pos (Node nm p cs) = destroy_children pos 0 cs @ [ChildArray pos, NameOf pos, NodeAt pos]"
| "destroy_children pos i [] = []"
| "destroy_children pos i (c # cs) = destroy_node (pos @ [i]) c @ destroy_children pos (Suc i) cs"

definition destroy_tree :: "'p radix_tree \<Rightarrow> block list" where
  "destroy_tree tree = destroy_node [] (root tree)"

section \<open>Searches of several threads\<close>

text \<open>\<^verbatim>\<open>strtok\<close> has one static pointer for the whole process. A search in progress is what a thread
  keeps on its own stack; each step is one call of \<^verbatim>\<open>strtok\<close> and the descent it leads to.\<close>

datatype 'p search = Start string | At "'p node" | Found "'p option"

definition descend :: "'p radix_tree \<Rightarrow> 'p node \<Rightarrow> string option \<Rightarrow> 'p search" where
  "descend tree parent prefix =
     (case prefix of
        None \<Rightarrow> Found (payload parent)
      | Some s \<Rightarrow> (case child_for (wildcard tree) parent s of None \<Rightarrow> Found None | Some c \<Rightarrow> At c))"

fun search_step :: "'p radix_tree \<Rightarrow> 'p search \<Rightarrow> string option \<Rightarrow> 'p search \<times> string option" where
  "search_step tree (Start nm) saved =
     (let (prefix, saved') = strtok (delimeter tree) (Some nm) saved in (descend tree (root tree) prefix, saved'))"
| "search_step tree (At n) saved =
     (let (prefix, saved') = strtok (delimeter tree) None saved in (descend tree n prefix, saved'))"
| "search_step tree (Found p) saved = (Found p, saved)"

fun search_sched :: "'p radix_tree \<Rightarrow> nat list \<Rightarrow> 'p search list \<Rightarrow> string option \<Rightarrow> 'p search list" where
  "search_sched tree [] ss saved = ss"
| "search_sched tree (i # is) ss saved =
     (if i < length ss
      then let (s, saved') = search_step tree (ss ! i) saved in search_sched tree is (ss[i := s]) saved'
      else search_sched tree is ss saved)"

section \<open>Reference lookups\<close>

text \<open>The payload at exactly these segments, and the payload the search rules lead to.\<close>

primrec lookup_path :: "string list \<Rightarrow> 'p node \<Rightarrow> 'p option" where
  "lookup_path [] n = payload n"
| "lookup_path (s # ss) n =
     (case find_child n s of None \<Rightarrow> None | Some i \<Rightarrow> lookup_path ss (children n ! i))"

primrec search_path :: "char \<Rightarrow> string list \<Rightarrow> 'p node \<Rightarrow> 'p option" where
  "search_path w [] n = payload n"
| "search_path w (s # ss) n =
     (case child_for w n s of None \<Rightarrow> None | Some c \<Rightarrow> search_path w ss c)"

primrec node_at :: "nat list \<Rightarrow> 'p node \<Rightarrow> 'p node option" where
  "node_at [] n = Some n"
| "node_at (i # is) n = (if i < length (children n) then node_at is (children n ! i) else None)"

primrec path_of :: "block \<Rightarrow> nat list" where
  "path_of (ChildArray p) = p"
| "path_of (NameOf p) = p"
| "path_of (NodeAt p) = p"

text \<open>A registered pattern fits a path: segment by segment equal, or a wildcard segment.\<close>

definition seg_fits :: "char \<Rightarrow> string \<Rightarrow> string \<Rightarrow> bool" where
  "seg_fits w pat s \<longleftrightarrow> pat = s \<or> (w \<noteq> CHR 0x00 \<and> pat \<noteq> [] \<and> hd pat = w)"

definition path_fits :: "char \<Rightarrow> string list \<Rightarrow> string list \<Rightarrow> bool" where
  "path_fits w pats ss \<longleftrightarrow> list_all2 (seg_fits w) pats ss"

section \<open>The interface\<close>

locale route_table =
  fixes lookup :: "string list \<Rightarrow> 't \<Rightarrow> 'p option"
    and search :: "string list \<Rightarrow> 't \<Rightarrow> 'p option"
    and add :: "string list \<Rightarrow> 'p option \<Rightarrow> 't \<Rightarrow> allocs \<Rightarrow> int \<times> 't \<times> allocs"
    and empty :: 't
    and fits :: "string list \<Rightarrow> string list \<Rightarrow> bool"
  assumes lookup_empty: "lookup ss empty = None"
    and lookup_add: "add ps p t al = (0, t', al') \<Longrightarrow> lookup ss t' = (if ss = ps then p else lookup ss t)"
    and add_failed: "add ps p t al = (rc, t', al') \<Longrightarrow> rc \<noteq> 0 \<Longrightarrow> lookup ss t' = lookup ss t"
    and search_exact: "lookup ss t = Some h \<Longrightarrow> search ss t = Some h"
    and search_sound: "search ss t = Some h \<Longrightarrow> \<exists>ps. fits ps ss \<and> lookup ps t = Some h"
begin

text \<open>Registering a list of routes one after the other, whatever the allocator does.\<close>

primrec register :: "(string list \<times> 'p) list \<Rightarrow> 't \<Rightarrow> allocs \<Rightarrow> 't \<times> allocs" where
  "register [] t al = (t, al)"
| "register (r # rs) t al = (let (rc, t1, al1) = add (fst r) (Some (snd r)) t al in register rs t1 al1)"

lemma register_lookup:
  "register rs t al = (t', al') \<Longrightarrow> lookup ss t' = Some h \<Longrightarrow> lookup ss t = Some h \<or> (ss, h) \<in> set rs"
proof (induction rs arbitrary: t al)
  case (Cons r rs)
  obtain rc t1 al1 where a: "add (fst r) (Some (snd r)) t al = (rc, t1, al1)"
    by (cases "add (fst r) (Some (snd r)) t al")
  with Cons have "lookup ss t1 = Some h \<or> (ss, h) \<in> set rs" by simp
  then show ?case
    using lookup_add[of "fst r" "Some (snd r)" t al t1 al1 ss] add_failed[OF a, of ss] a
    by (cases "rc = 0") (auto split: if_splits intro: prod_eqI)
qed simp

text \<open>Only a registered route is ever found, and only on a path that its pattern fits.\<close>

lemma register_sound:
  assumes "register rs empty al = (t, al')" and "search ss t = Some h"
  shows "\<exists>ps. (ps, h) \<in> set rs \<and> fits ps ss"
  using search_sound[OF assms(2)] register_lookup[OF assms(1)] lookup_empty by fastforce

end

section \<open>Lemmas: insertion\<close>

lemma find_from_update:
  "i < length cs \<Longrightarrow> name c = name (cs ! i) \<Longrightarrow> find_from j (cs[i := c]) nm = find_from j cs nm"
proof (induction j cs nm arbitrary: i rule: find_from.induct)
  case (2 j c' cs nm)
  then show ?case by (cases i) auto
qed simp

lemma find_from_snoc:
  "find_from j (cs @ [c]) nm =
     (case find_from j cs nm of Some i \<Rightarrow> Some i | None \<Rightarrow> if name c = nm then Some (j + length cs) else None)"
  by (induction j cs nm rule: find_from.induct) (auto split: option.splits)

lemma add_loop_name: "add_loop ps p t al = (rc, t', al') \<Longrightarrow> name t' = name t"
  by (cases ps) (auto simp: set_child_def add_child_def Let_def split: option.splits prod.splits if_splits)

lemma lookup_set_child:
  assumes "find_child n s = Some i" and "name c = s"
  shows "lookup_path ss (set_child n i c) =
    (case ss of [] \<Rightarrow> payload n | s' # ss' \<Rightarrow> if s' = s then lookup_path ss' c else lookup_path ss n)"
proof (cases ss)
  case (Cons s' ss')
  have i: "i < length (children n)" "name (children n ! i) = s" using find_child_nth[OF assms(1)] by auto
  then have f: "find_child (set_child n i c) s' = find_child n s'"
    using assms(2) by (simp add: find_child_def set_child_def find_from_update)
  show ?thesis
  proof (cases "s' = s")
    case True
    with Cons f assms i show ?thesis by (simp add: set_child_def)
  next
    case False
    then have "find_child n s' \<noteq> Some i" using i(2) find_child_nth by metis
    with False Cons f show ?thesis by (auto simp: set_child_def split: option.splits)
  qed
qed (simp add: set_child_def)

text \<open>A node without children and payload, added as a new child, is not seen by any lookup.\<close>

lemma lookup_new_child:
  assumes "find_child n s = None" and "n' = Node (name n) (payload n) (children n @ [Node s None []])"
  shows "lookup_path ss n' = lookup_path ss n"
    and "find_child n' s = Some (length (children n))" and "children n' ! length (children n) = Node s None []"
proof -
  have f: "find_child n' s' = (case find_child n s' of Some i \<Rightarrow> Some i | None \<Rightarrow> if s = s' then Some (length (children n)) else None)" for s'
    by (simp add: find_child_def assms(2) find_from_snoc split: option.splits)
  show "lookup_path ss n' = lookup_path ss n"
  proof (cases ss)
    case (Cons s' ss')
    have empty: "lookup_path xs (Node m None []) = None" for xs m
      by (cases xs) (auto simp: find_child_def)
    have cs: "children n' = children n @ [Node s None []]" by (simp add: assms(2))
    show ?thesis
    proof (cases "find_child n s'")
      case None
      with Cons show ?thesis by (simp add: f cs empty)
    next
      case (Some i)
      with find_child_nth[OF Some] Cons show ?thesis by (simp add: f cs nth_append)
    qed
  qed (simp add: assms(2))
  show "find_child n' s = Some (length (children n))" using f assms(1) by simp
  show "children n' ! length (children n) = Node s None []" by (simp add: assms(2))
qed

lemma add_loop_lookup:
  "add_loop ps p t al = (rc, t', al') \<Longrightarrow>
   lookup_path ss t' = (if rc = 0 \<and> ss = ps then p else lookup_path ss t)"
proof (induction ps arbitrary: t al rc t' al' ss)
  case Nil
  then show ?case by (cases ss) (auto simp: find_child_def split: option.splits)
next
  case (Cons s ps)
  have step: "lookup_path ss (set_child n i c') = (if r = 0 \<and> ss = s # ps then p else lookup_path ss n)"
    if "find_child n s = Some i" "add_loop ps p (children n ! i) a = (r, c', a')" for n i c' r a a'
  proof -
    have "name c' = s" using add_loop_name[OF that(2)] find_child_nth[OF that(1)] by simp
    then show ?thesis
      using lookup_set_child[OF that(1), of c' ss] Cons.IH[OF that(2)] that(1) by (auto split: list.splits)
  qed
  show ?case
  proof (cases "find_child t s")
    case (Some i)
    obtain r c' a' where a: "add_loop ps p (children t ! i) al = (r, c', a')"
      by (cases "add_loop ps p (children t ! i) al")
    with Cons.prems Some have "t' = set_child t i c'" "rc = r" by auto
    with step[OF Some a] show ?thesis by (simp only:)
  next
    case None
    let ?n = "Node (name t) (payload t) (children t @ [Node s None []])"
    note new = lookup_new_child[OF None refl]
    show ?thesis
      using Cons.prems None new(1) step[OF new(2), unfolded new(3)]
      by (auto simp: create_node_def add_child_def Let_def simp del: lookup_path.simps split: prod.splits if_splits)
  qed
qed

section \<open>Lemmas: search\<close>

lemma find_child_for: "find_child n s = Some i \<Longrightarrow> child_for w n s = Some (children n ! i)"
  by (simp add: child_for_def)

lemma search_path_exact: "lookup_path ss n = Some h \<Longrightarrow> search_path w ss n = Some h"
  by (induction ss arbitrary: n) (auto simp: find_child_for split: option.splits)

lemma find_child_first: "c \<in> set (children n) \<Longrightarrow> \<exists>i. find_child n (name c) = Some i"
proof -
  have "c \<in> set cs \<Longrightarrow> \<exists>i. find_from j cs (name c) = Some i" for j cs
    by (induction j cs "name c" rule: find_from.induct) auto
  then show "c \<in> set (children n) \<Longrightarrow> ?thesis" by (simp add: find_child_def)
qed

lemma find_child_wild:
  assumes "find (\<lambda>c. name c \<noteq> [] \<and> hd (name c) = w) (children n) = Some c"
  obtains i where "find_child n (name c) = Some i" and "children n ! i = c"
proof -
  have "find (\<lambda>c. name c \<noteq> [] \<and> hd (name c) = w) cs = Some c \<Longrightarrow>
      \<exists>i. find_from j cs (name c) = Some (j + i) \<and> cs ! i = c" for j cs
  proof (induction j cs "name c" rule: find_from.induct)
    case (2 j c' cs)
    show ?case
    proof (cases "name c' = name c")
      case True
      have "name c \<noteq> [] \<and> hd (name c) = w" using find_Some_iff[THEN iffD1, OF 2(2)] by auto
      with True 2 show ?thesis by (auto intro: exI[of _ 0])
    next
      case False
      with 2 obtain i where "find_from (Suc j) cs (name c) = Some (Suc j + i)" "cs ! i = c"
        by (auto split: if_splits)
      with False show ?thesis by (auto intro!: exI[of _ "Suc i"])
    qed
  qed simp
  from this[OF assms, of 0] that show thesis by (auto simp: find_child_def)
qed

lemma search_path_sound:
  "search_path w ss n = Some h \<Longrightarrow> \<exists>ps. path_fits w ps ss \<and> lookup_path ps n = Some h"
proof (induction ss arbitrary: n)
  case (Cons s ss)
  then obtain c where c: "child_for w n s = Some c" and "search_path w ss c = Some h"
    by (auto split: option.splits)
  then obtain ps where ps: "path_fits w ps ss" "lookup_path ps c = Some h" using Cons.IH by blast
  have fits: "seg_fits w (name c) s"
    using c by (auto simp: child_for_def seg_fits_def find_Some_iff dest: find_child_nth split: option.splits if_splits)
  show ?case
  proof (cases "find_child n s")
    case (Some i)
    with c ps show ?thesis by (intro exI[of _ "s # ps"]) (auto simp: path_fits_def seg_fits_def child_for_def)
  next
    case None
    with c have "find (\<lambda>c. name c \<noteq> [] \<and> hd (name c) = w) (children n) = Some c"
      by (auto simp: child_for_def split: if_splits)
    then obtain i where "find_child n (name c) = Some i" "children n ! i = c" by (rule find_child_wild)
    with fits ps show ?thesis by (intro exI[of _ "name c # ps"]) (auto simp: path_fits_def)
  qed
qed (simp add: path_fits_def)

interpretation radix: route_table lookup_path "search_path w" add_loop "Node [] None []" "path_fits w" for w
proof unfold_locales
  fix ss show "lookup_path ss (Node [] None []) = None" by (cases ss) (auto simp: find_child_def)
qed (auto simp: add_loop_lookup search_path_exact search_path_sound)

text \<open>Run alone, the loop over \<^verbatim>\<open>strtok\<close> searches the segments of the path.\<close>

lemma search_loop_path:
  "fst (search_loop tree n (Some s) (Some r)) = search_path (wildcard tree) (s # segments (delimeter tree) r) n"
proof (induction "length r" arbitrary: n s r rule: less_induct)
  case less
  show ?case
  proof (cases "child_for (wildcard tree) n s")
    case (Some c)
    obtain pre sv where t: "strtok (delimeter tree) (Some r) None = (pre, sv)" by (cases "strtok (delimeter tree) (Some r) None")
    show ?thesis
    proof (cases pre)
      case None
      with t Some strtok_None[of "delimeter tree" r None sv] show ?thesis
        by (simp add: strtok_next[of _ r None])
    next
      case (Some u)
      with t obtain r' where r': "sv = Some r'" "segments (delimeter tree) r = u # segments (delimeter tree) r'" "length r' < length r"
        by (auto elim: strtok_Some)
      from less[OF r'(3), of c u] show ?thesis
        using Some t r' \<open>child_for (wildcard tree) n s = Some c\<close> by (simp add: strtok_next[of _ r None])
    qed
  qed simp
qed

lemma search_node_path:
  "fst (search_node tree nm saved) = search_path (wildcard tree) (segments (delimeter tree) nm) (root tree)"
proof -
  obtain pre sv where t: "strtok (delimeter tree) (Some nm) saved = (pre, sv)" by (cases "strtok (delimeter tree) (Some nm) saved")
  show ?thesis
  proof (cases pre)
    case None
    with t strtok_None[of "delimeter tree" nm saved sv] show ?thesis by (simp add: search_node_def)
  next
    case (Some u)
    with t obtain r where "sv = Some r" "segments (delimeter tree) nm = u # segments (delimeter tree) r"
      by (auto elim: strtok_Some)
    with Some t show ?thesis by (simp add: search_node_def search_loop_path del: search_loop.simps search_path.simps)
  qed
qed

text \<open>Steps of one thread alone: as many as there are segments, and one more.\<close>

lemma search_alone_loop:
  "\<exists>k. search_sched tree (replicate k 0) [descend tree n pre] sv = [Found (fst (search_loop tree n pre sv))]"
proof (induction tree n pre sv rule: search_loop.induct)
  case (1 tree n sv)
  show ?case by (rule exI[of _ 0]) (simp add: descend_def)
next
  case (2 tree n s sv)
  show ?case
  proof (cases "child_for (wildcard tree) n s")
    case None
    then show ?thesis by (intro exI[of _ 0]) (simp add: descend_def)
  next
    case (Some c)
    obtain pre' sv' where t: "strtok (delimeter tree) None sv = (pre', sv')" by (cases "strtok (delimeter tree) None sv")
    from 2[OF Some t[symmetric] refl] obtain k where
      "search_sched tree (replicate k 0) [descend tree c pre'] sv' = [Found (fst (search_loop tree c pre' sv'))]" by blast
    with Some t show ?thesis by (intro exI[of _ "Suc k"]) (simp add: descend_def)
  qed
qed

lemma search_alone:
  "\<exists>k. search_sched tree (replicate k 0) [Start nm] sv = [Found (fst (search_node tree nm sv))]"
proof -
  obtain pre sv' where t: "strtok (delimeter tree) (Some nm) sv = (pre, sv')" by (cases "strtok (delimeter tree) (Some nm) sv")
  obtain k where "search_sched tree (replicate k 0) [descend tree (root tree) pre] sv' =
      [Found (fst (search_loop tree (root tree) pre sv'))]" using search_alone_loop by blast
  with t show ?thesis by (intro exI[of _ "Suc k"]) (simp add: search_node_def)
qed

section \<open>Lemmas: freeing\<close>

lemma path_of_cases: "path_of b = q \<longleftrightarrow> b = ChildArray q \<or> b = NameOf q \<or> b = NodeAt q"
  by (cases b) auto

lemma set_destroy:
  fixes n :: "'p node" and cs :: "'p node list"
  shows "b \<in> set (destroy_node pos n) \<longleftrightarrow> (\<exists>p. path_of b = pos @ p \<and> node_at p n \<noteq> None)"
    and "b \<in> set (destroy_children pos i cs) \<longleftrightarrow>
     (\<exists>k p. path_of b = pos @ (i + k) # p \<and> k < length cs \<and> node_at p (cs ! k) \<noteq> None)"
proof (induction pos n and pos i cs rule: destroy_node_destroy_children.induct)
  case (1 pos nm p cs)
  have "(\<exists>q. path_of b = pos @ q \<and> node_at q (Node nm p cs) \<noteq> None) \<longleftrightarrow>
      path_of b = pos \<or> (\<exists>k q. path_of b = pos @ k # q \<and> k < length cs \<and> node_at q (cs ! k) \<noteq> None)" (is "?l \<longleftrightarrow> ?r")
  proof
    assume ?l
    then obtain q where "path_of b = pos @ q" "node_at q (Node nm p cs) \<noteq> None" by blast
    then show ?r by (cases q) (auto split: if_splits)
  next
    assume ?r
    then show ?l
    proof (elim disjE exE conjE)
      assume "path_of b = pos"
      then show ?l by (intro exI[of _ "[]"]) simp
    next
      fix k q assume "path_of b = pos @ k # q" "k < length cs" "node_at q (cs ! k) \<noteq> None"
      then show ?l by (intro exI[of _ "k # q"]) simp
    qed
  qed
  with 1 show ?case using path_of_cases[of b pos] by auto
next
  case (3 pos i c cs)
  have "(\<exists>k p. path_of b = pos @ (i + k) # p \<and> k < length (c # cs) \<and> node_at p ((c # cs) ! k) \<noteq> None) \<longleftrightarrow>
      (\<exists>p. path_of b = pos @ i # p \<and> node_at p c \<noteq> None) \<or>
      (\<exists>k p. path_of b = pos @ (Suc i + k) # p \<and> k < length cs \<and> node_at p (cs ! k) \<noteq> None)" (is "(\<exists>k p. ?Q k p) \<longleftrightarrow> ?r")
  proof
    assume "\<exists>k p. ?Q k p"
    then obtain k p where "?Q k p" by blast
    then show ?r by (cases k) auto
  next
    assume ?r
    then show "\<exists>k p. ?Q k p"
    proof
      assume "\<exists>p. path_of b = pos @ i # p \<and> node_at p c \<noteq> None"
      then obtain p where "?Q 0 p" by auto
      then show ?thesis by blast
    next
      assume "\<exists>k p. path_of b = pos @ (Suc i + k) # p \<and> k < length cs \<and> node_at p (cs ! k) \<noteq> None"
      then obtain k p where "?Q (Suc k) p" by auto
      then show ?thesis by blast
    qed
  qed
  with 3 show ?case by simp
qed simp

lemma distinct_destroy:
  fixes n :: "'p node" and cs :: "'p node list"
  shows "distinct (destroy_node pos n)" and "distinct (destroy_children pos i cs)"
  by (induction pos n and pos i cs rule: destroy_node_destroy_children.induct)
     (auto simp: set_destroy)

text \<open>Adding a path to the tree changes the payload at exactly its segments, and nothing anywhere if
  an allocation fails; what was added is found by the search.\<close>

lemma add_then_search:
  assumes "add_node tree path p al = (rc, tree', al')"
  shows "lookup_path ss (root tree') =
      (if rc = 0 \<and> ss = segments (delimeter tree) path then p else lookup_path ss (root tree)) \<and>
    (rc = 0 \<and> p = Some h \<longrightarrow> fst (search_node tree' path saved) = Some h)"
proof -
  obtain r where a: "add_loop (segments (delimeter tree) path) p (root tree) al = (rc, r, al')" "tree' = tree\<lparr>root := r\<rparr>"
    using assms by (auto simp: add_node_def split: prod.splits)
  note l = add_loop_lookup[OF a(1)]
  have "fst (search_node tree' path saved) = Some h" if "rc = 0 \<and> p = Some h"
    using search_path_exact[of "segments (delimeter tree) path" r h] l that a(2) by (simp add: search_node_path)
  with l a(2) show ?thesis by simp
qed

text \<open>Destroying the route tree frees the child array, the name and the node itself of every node,
  each exactly once.\<close>

lemma destroy_frees_once:
  "distinct (destroy_tree t) \<and> (b \<in> set (destroy_tree t) \<longleftrightarrow> node_at (path_of b) (root t) \<noteq> None)"
  by (simp add: destroy_tree_def distinct_destroy set_destroy)

end
