(* ===== verification/Auth.thy ===== *)
theory Auth
  imports Cstring
begin

text \<open>
  \<^verbatim>\<open>server/src/api/auth.c\<close>: who a bearer token stands for. The admin token is compared as a whole;
  any other token is a user id if it is a positive decimal number.
\<close>

datatype auth_role_t = AUTH_NONE | AUTH_USER | AUTH_ADMIN

record auth_t =
  role :: auth_role_t
  user_id :: int

definition auth_parse :: "string \<Rightarrow> string \<Rightarrow> auth_t" where
  "auth_parse bearer_token admin_token =
     (let auth = \<lparr>role = AUTH_NONE, user_id = 0\<rparr> in
      if bearer_token = [] then auth
      else if bearer_token = admin_token then auth\<lparr>role := AUTH_ADMIN\<rparr>
      else (let (id, end) = strtol bearer_token in
            if end = [] \<and> 0 < id then auth\<lparr>role := AUTH_USER, user_id := wrap32 id\<rparr> else auth))"

section \<open>Properties\<close>

lemma auth_parse_range: "is_int32 (user_id (auth_parse b a))"
proof (cases "role (auth_parse b a) = AUTH_USER")
  case True
  then show ?thesis by (auto simp: auth_parse_def Let_def split: if_splits prod.splits)
next
  case False
  then have "user_id (auth_parse b a) = 0"
    by (auto simp: auth_parse_def Let_def split: if_splits prod.splits)
  then show ?thesis by (simp add: is_int32_def)
qed

lemma auth_parse_admin: "role (auth_parse b a) = AUTH_ADMIN \<longleftrightarrow> b \<noteq> [] \<and> b = a"
  by (auto simp: auth_parse_def Let_def split: prod.splits)

lemma auth_parse_user:
  "0 < n \<Longrightarrow> n \<le> INT_MAX \<Longrightarrow> show_int n \<noteq> a \<Longrightarrow>
   auth_parse (show_int n) a = \<lparr>role = AUTH_USER, user_id = n\<rparr>"
  using strtol_show_int[of n] wrap32_small[of n]
  by (simp add: auth_parse_def is_int64_def)

end
