(* ===== verification/Http_Request.thy ===== *)
theory Http_Request
  imports Auth
begin

text \<open>
  The request parser of \<^verbatim>\<open>server/src/api/api.c\<close> and the request type of \<^verbatim>\<open>router.h\<close>. The receive
  buffer is the string before its terminating NUL. \<open>method = None\<close> is \<^verbatim>\<open>(method_t)-1\<close>.
\<close>

section \<open>Types and constants\<close>

definition MAX_PATH_LEN :: nat where "MAX_PATH_LEN = 64"
definition MAX_BODY_LEN :: nat where "MAX_BODY_LEN = 512"
definition BUF_SIZE :: nat where "BUF_SIZE = 2048"
definition BEARER_SIZE :: nat where "BEARER_SIZE = 128"

datatype method_t = GET | POST | PATCH | DELETE

record request_t =
  req_method :: "method_t option"
  req_path :: string
  req_body :: string
  req_auth :: auth_t

abbreviation crlf :: string where
  "crlf \<equiv> [CHR 0x0D, CHR 0x0A]"

definition auth_header :: string where
  "auth_header = ''Authorization: Bearer ''"

section \<open>The parser\<close>

definition parse_method :: "string \<Rightarrow> method_t option" where
  "parse_method s =
     (if s = ''GET'' then Some GET
      else if s = ''POST'' then Some POST
      else if s = ''PATCH'' then Some PATCH
      else if s = ''DELETE'' then Some DELETE
      else None)"

text \<open>\<^verbatim>\<open>memcpy(bearer, p + 22, tlen); bearer[tlen] = 0\<close>, with \<open>tlen\<close> cut to the buffer. \<open>line\<close> is the
  text from \<open>p\<close> up to the line end.\<close>

definition copy_bearer :: "string \<Rightarrow> string" where
  "copy_bearer line = take (BEARER_SIZE - 1) (drop (length auth_header) line)"

text \<open>The loop over the header lines: the bearer token so far and the text at \<open>p\<close>; it returns
  the token and the text that is taken for the body.\<close>

function header_loop :: "string \<Rightarrow> string \<Rightarrow> string \<times> string" where
  "header_loop bearer p =
     (if p = [] then (bearer, p)
      else if take 2 p = crlf then (bearer, drop 2 p)
      else case find_crlf p of
             None \<Rightarrow> (bearer, p)
           | Some (line, rest) \<Rightarrow>
               header_loop (if strncasecmp_eq p auth_header then copy_bearer line else bearer) rest)"
  by pat_completeness auto
termination
  by (relation "measure (\<lambda>(b, p). length p)") (auto dest: find_crlf_length)

declare header_loop.simps [simp del]

definition parse_request :: "string \<Rightarrow> string \<Rightarrow> request_t" where
  "parse_request raw admin_token =
     (let req = \<lparr>req_method = None, req_path = [], req_body = [],
                 req_auth = \<lparr>role = AUTH_NONE, user_id = 0\<rparr>\<rparr> in
      case sscanf ''%15s %63s'' raw of
        [VStr method_str, VStr path] \<Rightarrow>
          (let req = req\<lparr>req_path := path, req_method := parse_method method_str\<rparr> in
           case find_crlf raw of
             None \<Rightarrow> req
           | Some (_, p) \<Rightarrow>
               (let (bearer, p) = header_loop [] p in
                req\<lparr>req_body := fill_buf MAX_BODY_LEN p,
                    req_auth := auth_parse bearer admin_token\<rparr>))
      | _ \<Rightarrow> req)"

section \<open>Writing a request\<close>

text \<open>The text of a request with a bearer token, header lines and a body, as a client sends it.\<close>

definition method_str :: "method_t \<Rightarrow> string" where
  "method_str m = (case m of GET \<Rightarrow> ''GET'' | POST \<Rightarrow> ''POST'' | PATCH \<Rightarrow> ''PATCH'' | DELETE \<Rightarrow> ''DELETE'')"

definition print_request :: "method_t \<Rightarrow> string \<Rightarrow> string list \<Rightarrow> string \<Rightarrow> string list \<Rightarrow> string \<Rightarrow> string" where
  "print_request m path hs1 token hs2 body =
     method_str m @ '' '' @ path @ '' HTTP/1.1'' @ crlf @
     concat (map (\<lambda>h. h @ crlf) hs1) @
     auth_header @ token @ crlf @
     concat (map (\<lambda>h. h @ crlf) hs2) @ crlf @ body"

text \<open>A header line that the parser passes over.\<close>

definition plain_header :: "string \<Rightarrow> bool" where
  "plain_header h \<longleftrightarrow> h \<noteq> [] \<and> CHR 0x0D \<notin> set h \<and> \<not> strncasecmp_eq h auth_header"

section \<open>Lemmas\<close>

lemma request_fmt: "parse_fmt None ''%15s %63s'' = [FStr 15, FWs, FStr 63]"
  by (simp add: isspace_def isdigit_def digit_val_def)

lemma header_loop_end: "header_loop bearer (crlf @ body) = (bearer, body)"
  by (subst header_loop.simps) simp

lemma strncasecmp_eq_append:
  "CHR 0x0D \<notin> set h \<Longrightarrow> \<not> strncasecmp_eq h auth_header \<Longrightarrow> \<not> strncasecmp_eq (h @ CHR 0x0D # r) auth_header"
proof (cases "length auth_header \<le> length h")
  case False
  then have len: "length h < length auth_header" by simp
  assume "CHR 0x0D \<notin> set h"
  show ?thesis
  proof
    assume "strncasecmp_eq (h @ CHR 0x0D # r) auth_header"
    then have "map tolower (take (length auth_header) (h @ CHR 0x0D # r)) ! length h = map tolower auth_header ! length h"
      by (simp add: strncasecmp_eq_def)
    moreover have "map tolower (take (length auth_header) (h @ CHR 0x0D # r)) ! length h = tolower (CHR 0x0D)"
      using len by (simp add: nth_append)
    ultimately have "tolower (CHR 0x0D) \<in> set (map tolower auth_header)"
      using len by (metis length_map nth_mem)
    moreover have "tolower (CHR 0x0D) \<notin> set (map tolower auth_header)" by code_simp
    ultimately show False by simp
  qed
qed (simp add: strncasecmp_eq_def)

lemma header_loop_plain:
  assumes "plain_header h"
  shows "header_loop bearer (h @ crlf @ r) = header_loop bearer r"
proof -
  from assms obtain a h' where h: "h = a # h'" "a \<noteq> CHR 0x0D" by (cases h) (auto simp: plain_header_def)
  have "find_crlf (h @ crlf @ r) = Some (h, r)"
    using assms find_crlf_line[of h r] by (simp add: plain_header_def)
  moreover have "\<not> strncasecmp_eq (h @ crlf @ r) auth_header"
    using assms strncasecmp_eq_append[of h "CHR 0x0A # r"] by (simp add: plain_header_def)
  ultimately show ?thesis using h by (subst header_loop.simps) (simp add: take_Cons')
qed

lemma header_loop_plains:
  "\<forall>h \<in> set hs. plain_header h \<Longrightarrow> header_loop bearer (concat (map (\<lambda>h. h @ crlf) hs) @ r) = header_loop bearer r"
proof (induction hs)
  case (Cons h hs)
  then show ?case using header_loop_plain[of h bearer "concat (map (\<lambda>h. h @ crlf) hs) @ r"] by simp
qed simp

lemma header_loop_auth:
  assumes "CHR 0x0D \<notin> set token"
  shows "header_loop bearer (auth_header @ token @ crlf @ r) = header_loop (take (BEARER_SIZE - 1) token) r"
proof -
  have "find_crlf ((auth_header @ token) @ CHR 0x0D # CHR 0x0A # r) = Some (auth_header @ token, r)"
    using assms by (intro find_crlf_line) (simp add: auth_header_def)
  moreover have "strncasecmp_eq (auth_header @ token @ crlf @ r) auth_header"
    by (simp add: strncasecmp_eq_def)
  ultimately show ?thesis
    by (subst header_loop.simps) (simp add: copy_bearer_def, simp add: auth_header_def)
qed

lemma scan_request_line:
  assumes "path \<noteq> []" and "length path < MAX_PATH_LEN" and "\<forall>c \<in> set path. \<not> isspace c"
  shows "sscanf ''%15s %63s'' (method_str m @ '' '' @ path @ '' '' @ r) = [VStr (method_str m), VStr path]"
proof -
  have ms: "\<forall>c \<in> set (method_str m). \<not> isspace c" "method_str m \<noteq> []" "length (method_str m) \<le> 15"
    by (cases m; simp add: method_str_def isspace_def)+
  have skip: "skip_ws (w @ x) = w @ x" if "w \<noteq> []" "\<forall>c \<in> set w. \<not> isspace c" for w x
    using that by (cases w) (auto simp: skip_ws_def)
  have tw: "takeWhile (\<lambda>c. \<not> isspace c) (w @ CHR '' '' # x) = w" if "\<forall>c \<in> set w. \<not> isspace c" for w x
    using that by (intro takeWhile_append_stop) (auto simp: isspace_def)
  have sp: "skip_ws (CHR '' '' # x) = skip_ws x" for x by (simp add: skip_ws_def isspace_def)
  have "scan [FStr 15, FWs, FStr 63] (method_str m @ CHR '' '' # path @ CHR '' '' # r) = [VStr (method_str m), VStr path]"
    unfolding scan.simps skip[OF ms(2,1)] tw[OF ms(1)]
    using ms assms(1,2) by (simp add: sp skip[OF assms(1,3)] tw[OF assms(3)] MAX_PATH_LEN_def del: takeWhile_append)
  then show ?thesis unfolding sscanf_def request_fmt by (simp del: scan.simps)
qed

text \<open>A request line, and whatever text after it that the header loop splits into a token and a body.\<close>

lemma parse_request_line:
  assumes "path \<noteq> []" and "length path < MAX_PATH_LEN" and "\<forall>c \<in> set path. \<not> isspace c"
    and "header_loop [] rest = (token, body)" and "length body < MAX_BODY_LEN"
  shows "parse_request (method_str m @ '' '' @ path @ '' HTTP/1.1'' @ crlf @ rest) admin_token =
    \<lparr>req_method = Some m, req_path = path, req_body = body, req_auth = auth_parse token admin_token\<rparr>"
    (is "parse_request ?raw _ = _")
proof -
  let ?line = "method_str m @ '' '' @ path @ '' HTTP/1.1''"
  have raw: "?raw = ?line @ CHR 0x0D # CHR 0x0A # rest" by simp
  have scanned: "sscanf ''%15s %63s'' ?raw = [VStr (method_str m), VStr path]"
    using scan_request_line[OF assms(1-3), of m "''HTTP/1.1'' @ CHR 0x0D # CHR 0x0A # rest"] by simp
  have "CHR 0x0D \<notin> set path" using assms(3) by (auto simp: isspace_def)
  then have "find_crlf ?raw = Some (?line, rest)"
    unfolding raw by (intro find_crlf_line) (cases m; simp add: method_str_def)
  moreover have "parse_method (method_str m) = Some m"
    by (cases m) (simp_all add: method_str_def parse_method_def)
  ultimately show ?thesis
    using scanned assms(4,5) by (simp add: parse_request_def fill_buf_id)
qed

lemma parse_print_request:
  assumes "path \<noteq> []" and "length path < MAX_PATH_LEN" and "\<forall>c \<in> set path. \<not> isspace c"
    and "\<forall>h \<in> set (hs1 @ hs2). plain_header h"
    and "CHR 0x0D \<notin> set token" and "length token < BEARER_SIZE" and "length body < MAX_BODY_LEN"
  shows "parse_request (print_request m path hs1 token hs2 body) admin_token =
    \<lparr>req_method = Some m, req_path = path, req_body = body, req_auth = auth_parse token admin_token\<rparr>"
proof -
  let ?hs = "\<lambda>hs. concat (map (\<lambda>h. h @ crlf) hs)"
  have "header_loop [] (?hs hs1 @ auth_header @ token @ crlf @ ?hs hs2 @ crlf @ body) = (token, body)"
    using assms header_loop_end[of token body]
    by (simp add: header_loop_plains header_loop_auth del: append.simps)
  from parse_request_line[OF assms(1-3) this assms(7)] show ?thesis by (simp add: print_request_def)
qed

lemma header_loop_bound:
  "length bearer < BEARER_SIZE \<Longrightarrow> length (fst (header_loop bearer p)) < BEARER_SIZE"
proof (induction bearer p rule: header_loop.induct)
  case (1 bearer p)
  have "length (copy_bearer line) < BEARER_SIZE" for line by (simp add: copy_bearer_def BEARER_SIZE_def)
  with 1 show ?case by (subst header_loop.simps) (auto split: option.splits)
qed

lemma scan_path_bound: "sscanf ''%15s %63s'' raw = [VStr m, VStr path] \<Longrightarrow> length path < MAX_PATH_LEN"
  unfolding sscanf_def request_fmt by (auto simp: Let_def MAX_PATH_LEN_def split: if_splits)

lemma parse_request_cases:
  obtains "parse_request raw a = \<lparr>req_method = None, req_path = [], req_body = [], req_auth = \<lparr>role = AUTH_NONE, user_id = 0\<rparr>\<rparr>"
  | m path where "length path < MAX_PATH_LEN"
      "parse_request raw a = \<lparr>req_method = m, req_path = path, req_body = [], req_auth = \<lparr>role = AUTH_NONE, user_id = 0\<rparr>\<rparr>"
  | m path body bearer where "length path < MAX_PATH_LEN" "length body < MAX_BODY_LEN" "length bearer < BEARER_SIZE"
      "parse_request raw a = \<lparr>req_method = m, req_path = path, req_body = body, req_auth = auth_parse bearer a\<rparr>"
proof (cases "\<exists>m path. sscanf ''%15s %63s'' raw = [VStr m, VStr path]")
  case False
  then have "parse_request raw a = \<lparr>req_method = None, req_path = [], req_body = [], req_auth = \<lparr>role = AUTH_NONE, user_id = 0\<rparr>\<rparr>"
    by (auto simp: parse_request_def Let_def split: list.splits scanval.splits)
  then show thesis by (rule that)
next
  case True
  then obtain m path where s: "sscanf ''%15s %63s'' raw = [VStr m, VStr path]" by blast
  note b = scan_path_bound[OF s]
  show thesis
  proof (cases "find_crlf raw")
    case None
    with s b that(2) show thesis by (simp add: parse_request_def)
  next
    case (Some lp)
    obtain bearer p where h: "header_loop [] (snd lp) = (bearer, p)" by (cases "header_loop [] (snd lp)")
    have "length bearer < BEARER_SIZE" using header_loop_bound[of "[]" "snd lp"] h by (simp add: BEARER_SIZE_def)
    moreover have "length (fill_buf MAX_BODY_LEN p) < MAX_BODY_LEN" by (simp add: length_fill_buf MAX_BODY_LEN_def)
    ultimately show thesis
      using s b h Some that(3) by (cases lp) (simp add: parse_request_def)
  qed
qed

lemma parse_request_bounds:
  "length (req_path (parse_request raw a)) < MAX_PATH_LEN"
  "length (req_body (parse_request raw a)) < MAX_BODY_LEN"
  "is_int32 (user_id (req_auth (parse_request raw a)))"
  by (rule parse_request_cases[of raw a];
      simp add: MAX_PATH_LEN_def MAX_BODY_LEN_def auth_parse_range is_int32_def[of 0])+

lemma parse_request_admin:
  "role (req_auth (parse_request raw a)) = AUTH_ADMIN \<Longrightarrow> a \<noteq> [] \<and> length a < BEARER_SIZE"
  by (rule parse_request_cases[of raw a]) (auto simp: auth_parse_admin)

end
