(* ===== verification/Sqlite.thy ===== *)
theory Sqlite
  imports Prelude
begin

text \<open>
  The boundary between the program and SQLite.

  SQLite is not part of the repository, so it is a parameter: a record \<open>'db sqlite\<close> of the API
  functions the code calls, over any type \<open>'db\<close> of connection states. A C function that talks
  to the database is a \<open>'r dbprog\<close>: its calls in order, each continued by what the code does with
  the answer (\<^verbatim>\<open>sqlite3_exec\<close>, \<^verbatim>\<open>sqlite3_prepare_v2\<close>, \<^verbatim>\<open>sqlite3_bind_*\<close>, \<^verbatim>\<open>sqlite3_step\<close>,
  \<^verbatim>\<open>sqlite3_finalize\<close>, and \<^verbatim>\<open>malloc\<close>/\<^verbatim>\<open>realloc\<close>, which may fail as well). \<open>run\<close> executes such a
  program from start to end on one connection; \<open>run_sched\<close> interleaves the calls of several
  threads that share the connection, as the server's workers do.

  What the code relies on is the locale \<open>sqlite_contract\<close>: every call acts on an abstract view
  of the connection (committed data, the open transaction, the prepared statements) as SQLite
  documents it, with every failure it may report. The meaning of the SQL texts is a further
  parameter \<open>sem\<close>, fixed in theory Schema for the texts and the schema of the program.
\<close>

named_theorems wp_simps \<open>weakest preconditions of database programs\<close>

section \<open>Calls and programs\<close>

datatype sqlval = SqlNull | SqlInt int | SqlText string

datatype rc = SQLITE_OK | SQLITE_ROW | SQLITE_DONE | SQLITE_FAIL nat

datatype 'r dbprog =
    Ret 'r
  | Exec string "rc \<Rightarrow> 'r dbprog"
  | Prepare string "rc \<Rightarrow> nat \<Rightarrow> 'r dbprog"
  | Bind nat nat sqlval "'r dbprog"
  | Step nat "rc \<Rightarrow> sqlval list \<Rightarrow> 'r dbprog"
  | Finalize nat "'r dbprog"
  | Malloc "bool \<Rightarrow> 'r dbprog"

text \<open>A C function calling another one: the callee's calls, then the caller's continuation.\<close>

primrec call :: "'a dbprog \<Rightarrow> ('a \<Rightarrow> 'b dbprog) \<Rightarrow> 'b dbprog" where
  "call (Ret x) g = g x"
| "call (Exec s k) g = Exec s (\<lambda>c. call (k c) g)"
| "call (Prepare s k) g = Prepare s (\<lambda>c h. call (k c h) g)"
| "call (Bind h i x p) g = Bind h i x (call p g)"
| "call (Step h k) g = Step h (\<lambda>c row. call (k c row) g)"
| "call (Finalize h p) g = Finalize h (call p g)"
| "call (Malloc k) g = Malloc (\<lambda>b. call (k b) g)"

text \<open>The transaction texts the program passes to \<^verbatim>\<open>sqlite3_exec\<close>.\<close>

definition begin_sql :: string where "begin_sql = ''BEGIN IMMEDIATE TRANSACTION;''"
definition commit_sql :: string where "commit_sql = ''COMMIT;''"
definition rollback_sql :: string where "rollback_sql = ''ROLLBACK''"

section \<open>SQLite as a parameter\<close>

record 'db sqlite =
  sq_exec :: "string \<Rightarrow> 'db \<Rightarrow> rc \<times> 'db"
  sq_prepare :: "string \<Rightarrow> 'db \<Rightarrow> rc \<times> nat \<times> 'db"
  sq_bind :: "nat \<Rightarrow> nat \<Rightarrow> sqlval \<Rightarrow> 'db \<Rightarrow> 'db"
  sq_step :: "nat \<Rightarrow> 'db \<Rightarrow> rc \<times> sqlval list \<times> 'db"
  sq_finalize :: "nat \<Rightarrow> 'db \<Rightarrow> 'db"
  sq_malloc :: "'db \<Rightarrow> bool \<times> 'db"

primrec run :: "'db sqlite \<Rightarrow> 'r dbprog \<Rightarrow> 'db \<Rightarrow> 'r \<times> 'db" where
  "run sq (Ret x) = (\<lambda>db. (x, db))"
| "run sq (Exec s k) = (\<lambda>db. let (c, db1) = sq_exec sq s db in run sq (k c) db1)"
| "run sq (Prepare s k) = (\<lambda>db. let (c, h, db1) = sq_prepare sq s db in run sq (k c h) db1)"
| "run sq (Bind h i x p) = (\<lambda>db. run sq p (sq_bind sq h i x db))"
| "run sq (Step h k) = (\<lambda>db. let (c, row, db1) = sq_step sq h db in run sq (k c row) db1)"
| "run sq (Finalize h p) = (\<lambda>db. run sq p (sq_finalize sq h db))"
| "run sq (Malloc k) = (\<lambda>db. let (b, db1) = sq_malloc sq db in run sq (k b) db1)"

text \<open>One call of a thread, and a schedule of calls of threads that share the connection.\<close>

fun call1 :: "'db sqlite \<Rightarrow> 'r dbprog \<Rightarrow> 'db \<Rightarrow> 'r dbprog \<times> 'db" where
  "call1 sq (Ret x) db = (Ret x, db)"
| "call1 sq (Exec s k) db = (let (c, db1) = sq_exec sq s db in (k c, db1))"
| "call1 sq (Prepare s k) db = (let (c, h, db1) = sq_prepare sq s db in (k c h, db1))"
| "call1 sq (Bind h i x p) db = (p, sq_bind sq h i x db)"
| "call1 sq (Step h k) db = (let (c, row, db1) = sq_step sq h db in (k c row, db1))"
| "call1 sq (Finalize h p) db = (p, sq_finalize sq h db)"
| "call1 sq (Malloc k) db = (let (b, db1) = sq_malloc sq db in (k b, db1))"

fun run_sched :: "'db sqlite \<Rightarrow> nat list \<Rightarrow> 'r dbprog list \<Rightarrow> 'db \<Rightarrow> 'r dbprog list \<times> 'db" where
  "run_sched sq [] ps db = (ps, db)"
| "run_sched sq (i # is) ps db =
     (if i < length ps
      then let (p, db1) = call1 sq (ps ! i) db in run_sched sq is (ps[i := p]) db1
      else run_sched sq is ps db)"

text \<open>What a thread has returned, once it has.\<close>

fun result :: "'r dbprog \<Rightarrow> 'r option" where
  "result (Ret x) = Some x"
| "result _ = None"

section \<open>The documented behaviour\<close>

datatype stmt = Fresh string "nat \<Rightarrow> sqlval" | Running "sqlval list list" | Failed

record 't view =
  committed :: 't
  txn :: "'t option"
  stmts :: "nat \<rightharpoonup> stmt"

text \<open>What one execution of a statement may do: return rows and leave a table state, be refused
  by a constraint, or be outside of what the contract describes.\<close>

datatype 't outcome = Effect "sqlval list list" 't | Violation | Unspecified

type_synonym 't semantics = "string \<Rightarrow> (nat \<Rightarrow> sqlval) \<Rightarrow> 't \<Rightarrow> 't outcome list"

definition current :: "'t view \<Rightarrow> 't" where
  "current v = (case txn v of Some t \<Rightarrow> t | None \<Rightarrow> committed v)"

definition set_current :: "'t \<Rightarrow> 't view \<Rightarrow> 't view" where
  "set_current t v = (case txn v of Some _ \<Rightarrow> v\<lparr>txn := Some t\<rparr> | None \<Rightarrow> v\<lparr>committed := t\<rparr>)"

definition is_err :: "rc \<Rightarrow> bool" where
  "is_err c \<longleftrightarrow> (case c of SQLITE_FAIL _ \<Rightarrow> True | _ \<Rightarrow> False)"

text \<open>
  The flag \<open>f\<close> says whether the environment may make calls fail (a full disk, an I/O error, a
  lock held by another process, no memory). Without it a call fails only for a reason the
  documentation gives: \<^verbatim>\<open>BEGIN\<close> inside a transaction, \<^verbatim>\<open>COMMIT\<close> outside of one, a constraint.
  A failing call never changes the committed data; it may end the open transaction.
\<close>

definition a_exec :: "bool \<Rightarrow> string \<Rightarrow> 't view \<Rightarrow> rc \<Rightarrow> 't view \<Rightarrow> bool" where
  "a_exec f s v c v' =
     (if s = begin_sql then
        (c = SQLITE_OK \<and> txn v = None \<and> v' = v\<lparr>txn := Some (committed v)\<rparr>) \<or>
        (is_err c \<and> (f \<or> txn v \<noteq> None) \<and> v' = v)
      else if s = commit_sql then
        (c = SQLITE_OK \<and> (\<exists>t. txn v = Some t \<and> v' = v\<lparr>committed := t, txn := None\<rparr>)) \<or>
        (is_err c \<and> (f \<or> txn v = None) \<and> (v' = v \<or> v' = v\<lparr>txn := None\<rparr>))
      else if s = rollback_sql then v' = v\<lparr>txn := None\<rparr>
      else True)"

definition a_prepare :: "bool \<Rightarrow> string \<Rightarrow> 't view \<Rightarrow> rc \<Rightarrow> nat \<Rightarrow> 't view \<Rightarrow> bool" where
  "a_prepare f s v c h v' \<longleftrightarrow>
     (c = SQLITE_OK \<and> stmts v h = None \<and> v' = v\<lparr>stmts := (stmts v)(h \<mapsto> Fresh s (\<lambda>_. SqlNull))\<rparr>) \<or>
     (is_err c \<and> f \<and> v' = v)"

definition a_bind :: "nat \<Rightarrow> nat \<Rightarrow> sqlval \<Rightarrow> 't view \<Rightarrow> 't view \<Rightarrow> bool" where
  "a_bind h i x v v' \<longleftrightarrow>
     (case stmts v h of
        Some (Fresh s args) \<Rightarrow> v' = v\<lparr>stmts := (stmts v)(h \<mapsto> Fresh s (args(i := x)))\<rparr>
      | _ \<Rightarrow> v' = v)"

definition a_step_err :: "nat \<Rightarrow> 't view \<Rightarrow> rc \<Rightarrow> 't view \<Rightarrow> bool" where
  "a_step_err h v c v' \<longleftrightarrow> is_err c \<and>
     (v' = v\<lparr>stmts := (stmts v)(h \<mapsto> Failed)\<rparr> \<or> v' = v\<lparr>stmts := (stmts v)(h \<mapsto> Failed), txn := None\<rparr>)"

definition a_rows :: "nat \<Rightarrow> sqlval list list \<Rightarrow> 't view \<Rightarrow> rc \<Rightarrow> sqlval list \<Rightarrow> 't view \<Rightarrow> bool" where
  "a_rows h rows v c row v' \<longleftrightarrow>
     v' = v\<lparr>stmts := (stmts v)(h \<mapsto> Running (tl rows))\<rparr> \<and>
     (case rows of [] \<Rightarrow> c = SQLITE_DONE | r # _ \<Rightarrow> c = SQLITE_ROW \<and> row = r)"

definition a_step ::
    "'t semantics \<Rightarrow> bool \<Rightarrow> nat \<Rightarrow> 't view \<Rightarrow> rc \<Rightarrow> sqlval list \<Rightarrow> 't view \<Rightarrow> bool" where
  "a_step sem f h v c row v' =
     (case stmts v h of
        Some (Fresh s args) \<Rightarrow>
          (\<exists>oc \<in> set (sem s args (current v)).
             case oc of
               Unspecified \<Rightarrow> True
             | Violation \<Rightarrow> a_step_err h v c v'
             | Effect rows t \<Rightarrow>
                 a_rows h rows (set_current t v) c row v' \<or> (f \<and> a_step_err h v c v'))
      | Some (Running rows) \<Rightarrow> a_rows h rows v c row v' \<or> (f \<and> a_step_err h v c v')
      | _ \<Rightarrow> True)"

definition a_finalize :: "nat \<Rightarrow> 't view \<Rightarrow> 't view \<Rightarrow> bool" where
  "a_finalize h v v' \<longleftrightarrow> v' = v\<lparr>stmts := (stmts v)(h := None)\<rparr>"

text \<open>All runs of a program that the documentation allows.\<close>

primrec arun :: "'t semantics \<Rightarrow> bool \<Rightarrow> 'r dbprog \<Rightarrow> 't view \<Rightarrow> 'r \<Rightarrow> 't view \<Rightarrow> bool" where
  "arun sem f (Ret x) = (\<lambda>v r v'. r = x \<and> v' = v)"
| "arun sem f (Exec s k) = (\<lambda>v r v'. \<exists>c v1. a_exec f s v c v1 \<and> arun sem f (k c) v1 r v')"
| "arun sem f (Prepare s k) =
     (\<lambda>v r v'. \<exists>c h v1. a_prepare f s v c h v1 \<and> arun sem f (k c h) v1 r v')"
| "arun sem f (Bind h i x p) = (\<lambda>v r v'. \<exists>v1. a_bind h i x v v1 \<and> arun sem f p v1 r v')"
| "arun sem f (Step h k) =
     (\<lambda>v r v'. \<exists>c row v1. a_step sem f h v c row v1 \<and> arun sem f (k c row) v1 r v')"
| "arun sem f (Finalize h p) = (\<lambda>v r v'. \<exists>v1. a_finalize h v v1 \<and> arun sem f p v1 r v')"
| "arun sem f (Malloc k) = (\<lambda>v r v'. \<exists>b. (b \<or> f) \<and> arun sem f (k b) v r v')"

text \<open>What holds after every run that the documentation allows.\<close>

definition wp :: "'t semantics \<Rightarrow> bool \<Rightarrow> 'r dbprog \<Rightarrow> 't view \<Rightarrow> ('r \<Rightarrow> 't view \<Rightarrow> bool) \<Rightarrow> bool" where
  "wp sem f p v Q \<longleftrightarrow> (\<forall>r v'. arun sem f p v r v' \<longrightarrow> Q r v')"

section \<open>The contract\<close>

locale sqlite_contract =
  fixes sem :: "'t semantics"
    and sq :: "'db sqlite"
    and view :: "'db \<Rightarrow> 't view"
    and faulty :: "'db \<Rightarrow> bool"
  assumes exec_law: "sq_exec sq s db = (c, db') \<Longrightarrow> a_exec (faulty db) s (view db) c (view db')"
    and prepare_law: "sq_prepare sq s db = (c, h, db') \<Longrightarrow> a_prepare (faulty db) s (view db) c h (view db')"
    and bind_law: "a_bind h i x (view db) (view (sq_bind sq h i x db))"
    and step_law: "sq_step sq h db = (c, row, db') \<Longrightarrow> a_step sem (faulty db) h (view db) c row (view db')"
    and finalize_law: "a_finalize h (view db) (view (sq_finalize sq h db))"
    and malloc_law: "sq_malloc sq db = (b, db') \<Longrightarrow> view db' = view db \<and> (b \<or> faulty db)"
    and exec_faulty: "sq_exec sq s db = (c, db') \<Longrightarrow> \<not> faulty db \<Longrightarrow> \<not> faulty db'"
    and prepare_faulty: "sq_prepare sq s db = (c, h, db') \<Longrightarrow> \<not> faulty db \<Longrightarrow> \<not> faulty db'"
    and bind_faulty: "\<not> faulty db \<Longrightarrow> \<not> faulty (sq_bind sq h i x db)"
    and step_faulty: "sq_step sq h db = (c, row, db') \<Longrightarrow> \<not> faulty db \<Longrightarrow> \<not> faulty db'"
    and finalize_faulty: "\<not> faulty db \<Longrightarrow> \<not> faulty (sq_finalize sq h db)"
    and malloc_faulty: "sq_malloc sq db = (b, db') \<Longrightarrow> \<not> faulty db \<Longrightarrow> \<not> faulty db'"

section \<open>Lemmas: programs\<close>

lemma dbprog_induct [case_names Ret Exec Prepare Bind Step Finalize Malloc]:
  assumes "\<And>x. P (Ret x)"
    and "\<And>s k. (\<And>c. P (k c)) \<Longrightarrow> P (Exec s k)"
    and "\<And>s k. (\<And>c h. P (k c h)) \<Longrightarrow> P (Prepare s k)"
    and "\<And>h i x p. P p \<Longrightarrow> P (Bind h i x p)"
    and "\<And>h k. (\<And>c row. P (k c row)) \<Longrightarrow> P (Step h k)"
    and "\<And>h p. P p \<Longrightarrow> P (Finalize h p)"
    and "\<And>k. (\<And>b. P (k b)) \<Longrightarrow> P (Malloc k)"
  shows "P p"
  by (induction p) (blast intro: assms rangeI)+

lemma run_call: "run sq (call p g) db = (let (x, db1) = run sq p db in run sq (g x) db1)"
  by (induction p arbitrary: db rule: dbprog_induct) (auto simp: split_beta Let_def)

lemma arun_call:
  "arun sem f (call p g) v r v' \<longleftrightarrow> (\<exists>x v1. arun sem f p v x v1 \<and> arun sem f (g x) v1 r v')"
  by (induction p arbitrary: v rule: dbprog_induct) (simp_all, blast+)

lemma call_assoc: "call (call p g) h = call p (\<lambda>x. call (g x) h)"
  by (induction p rule: dbprog_induct) simp_all

lemma call_Ret_id [simp]: "call p Ret = p"
  by (induction p rule: dbprog_induct) auto

lemma is_err_simps [simp]:
  "\<not> is_err SQLITE_OK" "\<not> is_err SQLITE_ROW" "\<not> is_err SQLITE_DONE" "is_err (SQLITE_FAIL n)"
  by (simp_all add: is_err_def)

lemma is_err_not: "is_err c \<Longrightarrow> c \<noteq> SQLITE_OK \<and> c \<noteq> SQLITE_ROW \<and> c \<noteq> SQLITE_DONE"
  by auto

section \<open>Lemmas: the contract\<close>

lemma a_exec_mono: "a_exec f s v c v' \<Longrightarrow> (f \<Longrightarrow> g) \<Longrightarrow> a_exec g s v c v'"
  by (auto simp: a_exec_def split: if_splits)

lemma a_prepare_mono: "a_prepare f s v c h v' \<Longrightarrow> (f \<Longrightarrow> g) \<Longrightarrow> a_prepare g s v c h v'"
  by (auto simp: a_prepare_def)

lemma a_step_mono: "a_step sem f h v c row v' \<Longrightarrow> (f \<Longrightarrow> g) \<Longrightarrow> a_step sem g h v c row v'"
  unfolding a_step_def
  by (auto split: option.splits stmt.splits outcome.splits elim!: bexI[rotated])

context sqlite_contract
begin

text \<open>A run of the program on SQLite is one of the runs that the documentation allows.\<close>

lemma run_arun:
  assumes "run sq p db = (r, db')" and "faulty db \<Longrightarrow> f"
  shows "arun sem f p (view db) r (view db')"
  using assms
proof (induction p arbitrary: db rule: dbprog_induct)
  case (Exec s k)
  obtain c db1 where c: "sq_exec sq s db = (c, db1)" by (cases "sq_exec sq s db")
  with Exec.prems have "arun sem f (k c) (view db1) r (view db')"
    by (intro Exec.IH) (auto dest: exec_faulty)
  with exec_law[OF c] Exec.prems(2) show ?case by (auto intro: a_exec_mono)
next
  case (Prepare s k)
  obtain c h db1 where c: "sq_prepare sq s db = (c, h, db1)" by (cases "sq_prepare sq s db")
  with Prepare.prems have "arun sem f (k c h) (view db1) r (view db')"
    by (intro Prepare.IH) (auto dest: prepare_faulty)
  with prepare_law[OF c] Prepare.prems(2) show ?case by (auto intro: a_prepare_mono)
next
  case (Bind h i x p)
  then have "arun sem f p (view (sq_bind sq h i x db)) r (view db')"
    by (intro Bind.IH) (auto dest: bind_faulty)
  then show ?case using bind_law by (auto intro!: exI)
next
  case (Step h k)
  obtain c row db1 where c: "sq_step sq h db = (c, row, db1)" by (cases "sq_step sq h db")
  with Step.prems have "arun sem f (k c row) (view db1) r (view db')"
    by (intro Step.IH) (auto dest: step_faulty)
  with step_law[OF c] Step.prems(2) show ?case by (auto intro: a_step_mono)
next
  case (Finalize h p)
  then have "arun sem f p (view (sq_finalize sq h db)) r (view db')"
    by (intro Finalize.IH) (auto dest: finalize_faulty)
  then show ?case using finalize_law by (auto intro!: exI)
next
  case (Malloc k)
  obtain b db1 where b: "sq_malloc sq db = (b, db1)" by (cases "sq_malloc sq db")
  with Malloc.prems have "arun sem f (k b) (view db1) r (view db')"
    by (intro Malloc.IH) (auto dest: malloc_faulty)
  with malloc_law[OF b] Malloc.prems(2) show ?case by auto
qed auto

lemma run_not_faulty:
  assumes "run sq p db = (r, db')" and "\<not> faulty db"
  shows "\<not> faulty db'"
  using assms
  by (induction p arbitrary: db rule: dbprog_induct)
     (auto split: prod.splits dest: exec_faulty bind_faulty finalize_faulty malloc_faulty,
      (metis prepare_faulty step_faulty)+)

lemma run_wp:
  assumes "wp sem f p (view db) Q" and "run sq p db = (r, db')" and "faulty db \<Longrightarrow> f"
  shows "Q r (view db')"
proof -
  have "arun sem f p (view db) r (view db')" using assms(2,3) by (rule run_arun)
  with assms(1) show ?thesis by (simp add: wp_def)
qed

end

section \<open>Lemmas: weakest preconditions\<close>

lemma sqls_distinct [simp]:
  "begin_sql \<noteq> commit_sql" "begin_sql \<noteq> rollback_sql" "commit_sql \<noteq> rollback_sql"
  "commit_sql \<noteq> begin_sql" "rollback_sql \<noteq> begin_sql" "rollback_sql \<noteq> commit_sql"
  by (simp_all add: begin_sql_def commit_sql_def rollback_sql_def)

lemma wp_Ret [wp_simps]: "wp sem f (Ret x) v Q \<longleftrightarrow> Q x v"
  by (simp add: wp_def)

lemma wp_call: "wp sem f (call p g) v Q \<longleftrightarrow> wp sem f p v (\<lambda>x v1. wp sem f (g x) v1 Q)"
  unfolding wp_def arun_call by blast

lemma wp_Exec_iff:
  "wp sem f (Exec s k) v Q \<longleftrightarrow> (\<forall>c v1. a_exec f s v c v1 \<longrightarrow> wp sem f (k c) v1 Q)"
  unfolding wp_def arun.simps by blast

lemma wp_Prepare_iff:
  "wp sem f (Prepare s k) v Q \<longleftrightarrow> (\<forall>c h v1. a_prepare f s v c h v1 \<longrightarrow> wp sem f (k c h) v1 Q)"
  unfolding wp_def arun.simps by blast

lemma wp_begin [wp_simps]:
  "wp sem f (Exec begin_sql k) v Q \<longleftrightarrow>
     (txn v = None \<longrightarrow> wp sem f (k SQLITE_OK) (v\<lparr>txn := Some (committed v)\<rparr>) Q) \<and>
     (\<forall>c. is_err c \<and> (f \<or> txn v \<noteq> None) \<longrightarrow> wp sem f (k c) v Q)"
  unfolding wp_Exec_iff a_exec_def if_P[OF refl] by blast

lemma wp_commit [wp_simps]:
  "wp sem f (Exec commit_sql k) v Q \<longleftrightarrow>
     (\<forall>t. txn v = Some t \<longrightarrow> wp sem f (k SQLITE_OK) (v\<lparr>committed := t, txn := None\<rparr>) Q) \<and>
     (\<forall>c. is_err c \<and> (f \<or> txn v = None) \<longrightarrow> wp sem f (k c) v Q \<and> wp sem f (k c) (v\<lparr>txn := None\<rparr>) Q)"
  unfolding wp_Exec_iff a_exec_def by (simp only: sqls_distinct if_False if_True simp_thms) blast

lemma wp_rollback [wp_simps]:
  "wp sem f (Exec rollback_sql k) v Q \<longleftrightarrow> (\<forall>c. wp sem f (k c) (v\<lparr>txn := None\<rparr>) Q)"
  unfolding wp_Exec_iff a_exec_def by (simp only: sqls_distinct if_False if_True simp_thms)

lemma wp_Prepare [wp_simps]:
  "wp sem f (Prepare s k) v Q \<longleftrightarrow>
     (\<forall>h. stmts v h = None \<longrightarrow>
        wp sem f (k SQLITE_OK h) (v\<lparr>stmts := (stmts v)(h \<mapsto> Fresh s (\<lambda>_. SqlNull))\<rparr>) Q) \<and>
     (\<forall>c h. is_err c \<and> f \<longrightarrow> wp sem f (k c h) v Q)"
  unfolding wp_Prepare_iff a_prepare_def by blast

lemma wp_Bind [wp_simps]:
  "stmts v h = Some (Fresh s a) \<Longrightarrow>
   wp sem f (Bind h i x p) v Q \<longleftrightarrow> wp sem f p (v\<lparr>stmts := (stmts v)(h \<mapsto> Fresh s (a(i := x)))\<rparr>) Q"
  by (auto simp: wp_def a_bind_def)

definition wp_err :: "'t semantics \<Rightarrow> bool \<Rightarrow> nat \<Rightarrow> (rc \<Rightarrow> sqlval list \<Rightarrow> 'r dbprog) \<Rightarrow> 't view \<Rightarrow>
    ('r \<Rightarrow> 't view \<Rightarrow> bool) \<Rightarrow> bool" where
  "wp_err sem f h k v Q \<longleftrightarrow> (\<forall>c row. is_err c \<longrightarrow>
     wp sem f (k c row) (v\<lparr>stmts := (stmts v)(h \<mapsto> Failed)\<rparr>) Q \<and>
     wp sem f (k c row) (v\<lparr>stmts := (stmts v)(h \<mapsto> Failed), txn := None\<rparr>) Q)"

definition wp_rows :: "'t semantics \<Rightarrow> bool \<Rightarrow> nat \<Rightarrow> (rc \<Rightarrow> sqlval list \<Rightarrow> 'r dbprog) \<Rightarrow>
    sqlval list list \<Rightarrow> 't view \<Rightarrow> ('r \<Rightarrow> 't view \<Rightarrow> bool) \<Rightarrow> bool" where
  "wp_rows sem f h k rows v Q \<longleftrightarrow>
     (case rows of
        [] \<Rightarrow> \<forall>row. wp sem f (k SQLITE_DONE row) (v\<lparr>stmts := (stmts v)(h \<mapsto> Running [])\<rparr>) Q
      | r # rs \<Rightarrow> wp sem f (k SQLITE_ROW r) (v\<lparr>stmts := (stmts v)(h \<mapsto> Running rs)\<rparr>) Q)"

lemma wp_rows_simps [wp_simps]:
  "wp_rows sem f h k [] v Q \<longleftrightarrow> (\<forall>row. wp sem f (k SQLITE_DONE row) (v\<lparr>stmts := (stmts v)(h \<mapsto> Running [])\<rparr>) Q)"
  "wp_rows sem f h k (r # rs) v Q \<longleftrightarrow> wp sem f (k SQLITE_ROW r) (v\<lparr>stmts := (stmts v)(h \<mapsto> Running rs)\<rparr>) Q"
  by (simp_all add: wp_rows_def)

lemma wp_err_iff: "wp_err sem f h k v Q \<longleftrightarrow> (\<forall>c row v1. a_step_err h v c v1 \<longrightarrow> wp sem f (k c row) v1 Q)"
  by (auto simp: wp_err_def a_step_err_def)

lemma wp_rows_iff:
  "wp_rows sem f h k rows v Q \<longleftrightarrow> (\<forall>c row v1. a_rows h rows v c row v1 \<longrightarrow> wp sem f (k c row) v1 Q)"
  by (auto simp: wp_rows_def a_rows_def split: list.splits)

lemma wp_Step_iff:
  "wp sem f (Step h k) v Q \<longleftrightarrow> (\<forall>c row v1. a_step sem f h v c row v1 \<longrightarrow> wp sem f (k c row) v1 Q)"
  unfolding wp_def arun.simps by blast

definition wp_outcome :: "'t semantics \<Rightarrow> bool \<Rightarrow> nat \<Rightarrow> (rc \<Rightarrow> sqlval list \<Rightarrow> 'r dbprog) \<Rightarrow>
    't view \<Rightarrow> ('r \<Rightarrow> 't view \<Rightarrow> bool) \<Rightarrow> 't outcome \<Rightarrow> bool" where
  "wp_outcome sem f h k v Q oc =
     (case oc of
        Unspecified \<Rightarrow> \<forall>c row v1. wp sem f (k c row) v1 Q
      | Violation \<Rightarrow> wp_err sem f h k v Q
      | Effect rows t \<Rightarrow> wp_rows sem f h k rows (set_current t v) Q \<and> (f \<longrightarrow> wp_err sem f h k v Q))"

lemma wp_outcome_simps [wp_simps]:
  "wp_outcome sem f h k v Q Violation \<longleftrightarrow> wp_err sem f h k v Q"
  "wp_outcome sem f h k v Q (Effect rows t) \<longleftrightarrow>
     wp_rows sem f h k rows (set_current t v) Q \<and> (f \<longrightarrow> wp_err sem f h k v Q)"
  by (simp_all add: wp_outcome_def)

lemma wp_outcome_iff:
  "wp_outcome sem f h k v Q oc \<longleftrightarrow>
     (\<forall>c row v1.
        (case oc of
           Unspecified \<Rightarrow> True
         | Violation \<Rightarrow> a_step_err h v c v1
         | Effect rows t \<Rightarrow> a_rows h rows (set_current t v) c row v1 \<or> (f \<and> a_step_err h v c v1)) \<longrightarrow>
        wp sem f (k c row) v1 Q)"
  unfolding wp_outcome_def wp_err_iff wp_rows_iff by (cases oc) (simp_all, blast)

lemma wp_Step_Fresh [wp_simps]:
  assumes "stmts v h = Some (Fresh s a)"
  shows "wp sem f (Step h k) v Q \<longleftrightarrow> (\<forall>oc \<in> set (sem s a (current v)). wp_outcome sem f h k v Q oc)"
  unfolding wp_Step_iff wp_outcome_iff a_step_def assms option.case stmt.case by blast

lemma wp_Step_Running [wp_simps]:
  "stmts v h = Some (Running rows) \<Longrightarrow>
   wp sem f (Step h k) v Q \<longleftrightarrow> wp_rows sem f h k rows v Q \<and> (f \<longrightarrow> wp_err sem f h k v Q)"
  unfolding wp_Step_iff wp_err_iff wp_rows_iff a_step_def by auto

lemma wp_Finalize [wp_simps]:
  "wp sem f (Finalize h p) v Q \<longleftrightarrow> wp sem f p (v\<lparr>stmts := (stmts v)(h := None)\<rparr>) Q"
  by (simp add: wp_def a_finalize_def)

lemma wp_Malloc [wp_simps]:
  "wp sem f (Malloc k) v Q \<longleftrightarrow> wp sem f (k True) v Q \<and> (f \<longrightarrow> wp sem f (k False) v Q)"
  unfolding wp_def arun.simps by (metis (full_types))

lemma wp_If [wp_simps]:
  "wp sem f (if b then p else q) v Q \<longleftrightarrow> (b \<longrightarrow> wp sem f p v Q) \<and> (\<not> b \<longrightarrow> wp sem f q v Q)"
  by simp

lemma wp_mono: "wp sem f p v Q \<Longrightarrow> (\<And>r v'. Q r v' \<Longrightarrow> R r v') \<Longrightarrow> wp sem f p v R"
  by (auto simp: wp_def)

lemma current_simps [simp]:
  "txn v = None \<Longrightarrow> current v = committed v"
  "txn v = Some t \<Longrightarrow> current v = t"
  by (simp_all add: current_def)

lemma set_current_simps [simp]:
  "txn v = None \<Longrightarrow> set_current t v = v\<lparr>committed := t\<rparr>"
  "txn v = Some t0 \<Longrightarrow> set_current t v = v\<lparr>txn := Some t\<rparr>"
  by (simp_all add: set_current_def)

lemma txn_None_id [simp]: "txn v = None \<Longrightarrow> v\<lparr>txn := None\<rparr> = v"
  by (cases v) simp

lemma set_current_stmts [simp]: "stmts (set_current t v) = stmts v"
  by (simp add: set_current_def split: option.splits)

end
