(* ===== verification/Schema.thy ===== *)
theory Schema
  imports Sqlite Cstring
begin

text \<open>
  The database of the program: the tables, constraints and seed rows of \<^verbatim>\<open>init.sql\<close>, the SQL
  texts that the services and \<^verbatim>\<open>db.c\<close> prepare, and what SQLite documents these texts to do on
  that schema (\<open>sql_sem\<close>). The timestamp columns are left out: the program never reads them.

  A table with an integer primary key is a list of rows in ascending order of the key, which is
  the order in which SQLite keeps it and in which \<^verbatim>\<open>ORDER BY slot_id\<close> returns it.
  \<open>user_seq\<close> is the \<^verbatim>\<open>AUTOINCREMENT\<close> counter of the table \<^verbatim>\<open>users\<close>.
\<close>

section \<open>Tables\<close>

record user_row =
  u_fingerprint :: "string option"
  u_balance :: int

record item_row =
  i_name :: string
  i_price :: int

record stock_row =
  s_item_id :: int
  s_quantity :: int

record tx_row =
  t_type :: string
  t_user_id :: int
  t_item_id :: "int option"
  t_quantity :: "int option"
  total_amount :: int

record stock_log_row =
  l_item_id :: int
  change_type :: string
  quantity_changed :: int

record tables =
  users :: "(int, user_row) rows"
  items :: "(int, item_row) rows"
  stock :: "(int, stock_row) rows"
  transactions :: "tx_row list"
  stock_logs :: "stock_log_row list"
  user_seq :: int

section \<open>Constraints\<close>

definition tx_check :: "tx_row \<Rightarrow> bool" where
  "tx_check r \<longleftrightarrow>
     (t_type r = ''purchase'' \<and> t_item_id r \<noteq> None \<and> (case t_quantity r of Some q \<Rightarrow> 0 < q | None \<Rightarrow> False) \<and> total_amount r < 0) \<or>
     (t_type r = ''deposit'' \<and> t_item_id r = None \<and> t_quantity r = None \<and> 0 < total_amount r) \<or>
     (t_type r = ''withdrawal'' \<and> t_item_id r = None \<and> t_quantity r = None \<and> total_amount r < 0) \<or>
     (t_type r = ''refund'' \<and> t_item_id r \<noteq> None \<and> (case t_quantity r of Some q \<Rightarrow> 0 < q | None \<Rightarrow> False) \<and> 0 < total_amount r)"

definition log_check :: "stock_log_row \<Rightarrow> bool" where
  "log_check r \<longleftrightarrow>
     (change_type r = ''addition'' \<and> 0 < quantity_changed r) \<or>
     (change_type r = ''removal'' \<and> quantity_changed r < 0)"

definition tx_fk :: "tables \<Rightarrow> tx_row \<Rightarrow> bool" where
  "tx_fk t r \<longleftrightarrow> map_of (users t) (t_user_id r) \<noteq> None \<and>
     (case t_item_id r of None \<Rightarrow> True | Some i \<Rightarrow> map_of (items t) i \<noteq> None)"

definition log_fk :: "tables \<Rightarrow> stock_log_row \<Rightarrow> bool" where
  "log_fk t r \<longleftrightarrow> map_of (items t) (l_item_id r) \<noteq> None"

section \<open>The program's SQL\<close>

definition sel_balance_sql :: string where
  "sel_balance_sql = ''SELECT balance FROM users WHERE user_id = ?;''"

definition deposit_sql :: string where
  "deposit_sql = ''INSERT INTO users (user_id, balance) VALUES (?, ?) '' @
     ''ON CONFLICT(user_id) DO UPDATE SET balance = balance + excluded.balance;''"

definition zero_balance_sql :: string where
  "zero_balance_sql = ''UPDATE users SET balance = 0 WHERE user_id = ?;''"

definition item_sql :: string where
  "item_sql = ''SELECT s.item_id, i.price, s.quantity '' @
     ''FROM stock s JOIN items i ON s.item_id = i.item_id '' @
     ''WHERE s.slot_id = ?;''"

definition upd_bal_sql :: string where
  "upd_bal_sql = ''UPDATE users SET balance = balance - ? WHERE user_id = ?;''"

definition upd_stock_sql :: string where
  "upd_stock_sql = ''UPDATE stock SET quantity = quantity - 1 WHERE slot_id = ?;''"

definition trx_sql :: string where
  "trx_sql = ''INSERT INTO transactions (type, user_id, item_id, quantity, total_amount) '' @
     ''VALUES ('purchase', ?, ?, 1, ?);''"

definition list_sql :: string where
  "list_sql = ''SELECT s.slot_id, s.item_id, i.name, i.price, s.quantity '' @
     ''FROM stock s JOIN items i ON s.item_id = i.item_id '' @
     ''ORDER BY s.slot_id;''"

definition product_sql :: string where
  "product_sql = ''SELECT s.slot_id, s.item_id, i.name, i.price, s.quantity '' @
     ''FROM stock s JOIN items i ON s.item_id = i.item_id '' @
     ''WHERE s.slot_id = ?;''"

definition restock_sql :: string where
  "restock_sql = ''UPDATE stock SET quantity = quantity + ? WHERE slot_id = ?;''"

definition price_sql :: string where
  "price_sql = ''UPDATE items SET price = ? WHERE item_id = ?;''"

definition upsert_sql :: string where
  "upsert_sql = ''INSERT INTO users (fingerprint) VALUES (?) '' @
     ''ON CONFLICT(fingerprint) DO UPDATE SET fingerprint = excluded.fingerprint '' @
     ''RETURNING user_id;''"

definition cash_sql :: string where
  "cash_sql = ''INSERT INTO transactions (type, user_id, total_amount) VALUES (?, ?, ?);''"

definition sel_item_sql :: string where
  "sel_item_sql = ''SELECT item_id FROM stock WHERE slot_id = ?;''"

definition log_sql :: string where
  "log_sql = ''INSERT INTO stock_logs (item_id, change_type, quantity_changed) VALUES (?, ?, ?);''"

section \<open>What the statements do\<close>

datatype sql_stmt =
    SelBalance | Deposit | ZeroBalance | SelItem | DebitBalance | DecStock | InsPurchase
  | ListProducts | SelProduct | AddStock | SetPrice | UpsertUser | InsCash | SelItemId | InsStockLog

definition sql_stmt_of :: "string \<Rightarrow> sql_stmt option" where
  "sql_stmt_of s = map_of
     [(sel_balance_sql, SelBalance), (deposit_sql, Deposit), (zero_balance_sql, ZeroBalance),
      (item_sql, SelItem), (upd_bal_sql, DebitBalance), (upd_stock_sql, DecStock),
      (trx_sql, InsPurchase), (list_sql, ListProducts), (product_sql, SelProduct),
      (restock_sql, AddStock), (price_sql, SetPrice), (upsert_sql, UpsertUser),
      (cash_sql, InsCash), (sel_item_sql, SelItemId), (log_sql, InsStockLog)] s"

definition int_arg :: "(nat \<Rightarrow> sqlval) \<Rightarrow> nat \<Rightarrow> (int \<Rightarrow> 't outcome list) \<Rightarrow> 't outcome list" where
  "int_arg args i F = (case args i of SqlInt n \<Rightarrow> F n | _ \<Rightarrow> [Unspecified])"

definition text_arg :: "(nat \<Rightarrow> sqlval) \<Rightarrow> nat \<Rightarrow> (string \<Rightarrow> 't outcome list) \<Rightarrow> 't outcome list" where
  "text_arg args i F = (case args i of SqlText s \<Rightarrow> F s | _ \<Rightarrow> [Unspecified])"

text \<open>A sum outside of 64 bits would turn into a floating-point value; the contract says nothing
  then.\<close>

definition set_balance :: "int \<Rightarrow> int \<Rightarrow> tables \<Rightarrow> tables outcome" where
  "set_balance uid b t =
     (if \<not> is_int64 b then Unspecified
      else if b < 0 then Violation
      else Effect [] (t\<lparr>users := row_upd uid (u_balance_update (\<lambda>_. b)) (users t)\<rparr>))"

definition set_quantity :: "int \<Rightarrow> int \<Rightarrow> tables \<Rightarrow> tables outcome" where
  "set_quantity slot q t =
     (if \<not> is_int64 q then Unspecified
      else if q < 0 then Violation
      else Effect [] (t\<lparr>stock := row_upd slot (s_quantity_update (\<lambda>_. q)) (stock t)\<rparr>))"

definition insert_user :: "int \<Rightarrow> user_row \<Rightarrow> tables \<Rightarrow> tables" where
  "insert_user uid u t = t\<lparr>users := row_ins uid u (users t), user_seq := max (user_seq t) uid\<rparr>"

definition add_tx :: "tx_row \<Rightarrow> tables \<Rightarrow> tables outcome" where
  "add_tx r t =
     (if tx_check r \<and> tx_fk t r then Effect [] (t\<lparr>transactions := transactions t @ [r]\<rparr>) else Violation)"

definition add_log :: "stock_log_row \<Rightarrow> tables \<Rightarrow> tables outcome" where
  "add_log r t =
     (if log_check r \<and> log_fk t r then Effect [] (t\<lparr>stock_logs := stock_logs t @ [r]\<rparr>) else Violation)"

text \<open>The rows of \<^verbatim>\<open>stock s JOIN items i ON s.item_id = i.item_id\<close>, in slot order.\<close>

definition join_rows :: "tables \<Rightarrow> (int \<times> stock_row \<times> item_row) list" where
  "join_rows t =
     List.map_filter (\<lambda>(slot, s). map_option (\<lambda>i. (slot, s, i)) (map_of (items t) (s_item_id s))) (stock t)"

definition join_row :: "tables \<Rightarrow> int \<Rightarrow> (stock_row \<times> item_row) option" where
  "join_row t slot =
     (case map_of (stock t) slot of
        None \<Rightarrow> None
      | Some s \<Rightarrow> map_option (\<lambda>i. (s, i)) (map_of (items t) (s_item_id s)))"

definition product_cols :: "int \<times> stock_row \<times> item_row \<Rightarrow> sqlval list" where
  "product_cols = (\<lambda>(slot, s, i).
     [SqlInt slot, SqlInt (s_item_id s), SqlText (i_name i), SqlInt (i_price i), SqlInt (s_quantity s)])"

definition user_of_fingerprint :: "string \<Rightarrow> tables \<Rightarrow> int option" where
  "user_of_fingerprint fp t =
     map_option fst (List.find (\<lambda>(_, u). u_fingerprint u = Some fp) (users t))"

fun stmt_sem :: "sql_stmt \<Rightarrow> (nat \<Rightarrow> sqlval) \<Rightarrow> tables \<Rightarrow> tables outcome list" where
  "stmt_sem SelBalance args t = int_arg args 1 (\<lambda>uid.
     [Effect (case map_of (users t) uid of None \<Rightarrow> [] | Some u \<Rightarrow> [[SqlInt (u_balance u)]]) t])"
| "stmt_sem Deposit args t = int_arg args 1 (\<lambda>uid. int_arg args 2 (\<lambda>amt.
     [case map_of (users t) uid of
        None \<Rightarrow> (if amt < 0 then Violation
                 else Effect [] (insert_user uid \<lparr>u_fingerprint = None, u_balance = amt\<rparr> t))
      | Some u \<Rightarrow> set_balance uid (u_balance u + amt) t]))"
| "stmt_sem ZeroBalance args t = int_arg args 1 (\<lambda>uid.
     [case map_of (users t) uid of None \<Rightarrow> Effect [] t | Some u \<Rightarrow> set_balance uid 0 t])"
| "stmt_sem SelItem args t = int_arg args 1 (\<lambda>slot.
     [Effect (case join_row t slot of None \<Rightarrow> []
              | Some (s, i) \<Rightarrow> [[SqlInt (s_item_id s), SqlInt (i_price i), SqlInt (s_quantity s)]]) t])"
| "stmt_sem DebitBalance args t = int_arg args 1 (\<lambda>amt. int_arg args 2 (\<lambda>uid.
     [case map_of (users t) uid of None \<Rightarrow> Effect [] t | Some u \<Rightarrow> set_balance uid (u_balance u - amt) t]))"
| "stmt_sem DecStock args t = int_arg args 1 (\<lambda>slot.
     [case map_of (stock t) slot of None \<Rightarrow> Effect [] t | Some s \<Rightarrow> set_quantity slot (s_quantity s - 1) t])"
| "stmt_sem InsPurchase args t = int_arg args 1 (\<lambda>uid. int_arg args 2 (\<lambda>item. int_arg args 3 (\<lambda>amt.
     [add_tx \<lparr>t_type = ''purchase'', t_user_id = uid, t_item_id = Some item, t_quantity = Some 1,
              total_amount = amt\<rparr> t])))"
| "stmt_sem ListProducts args t = [Effect (map product_cols (join_rows t)) t]"
| "stmt_sem SelProduct args t = int_arg args 1 (\<lambda>slot.
     [Effect (case join_row t slot of None \<Rightarrow> [] | Some (s, i) \<Rightarrow> [product_cols (slot, s, i)]) t])"
| "stmt_sem AddStock args t = int_arg args 1 (\<lambda>qty. int_arg args 2 (\<lambda>slot.
     [case map_of (stock t) slot of None \<Rightarrow> Effect [] t | Some s \<Rightarrow> set_quantity slot (s_quantity s + qty) t]))"
| "stmt_sem SetPrice args t = int_arg args 1 (\<lambda>p. int_arg args 2 (\<lambda>item.
     [Effect [] (t\<lparr>items := row_upd item (i_price_update (\<lambda>_. p)) (items t)\<rparr>)]))"
| "stmt_sem UpsertUser args t = text_arg args 1 (\<lambda>fp.
     case user_of_fingerprint fp t of
       Some uid \<Rightarrow> [Effect [[SqlInt uid]] t, Effect [[SqlInt uid]] (t\<lparr>user_seq := user_seq t + 1\<rparr>)]
     | None \<Rightarrow>
         (let uid = user_seq t + 1
          in [if LONG_MAX < uid then Violation
              else Effect [[SqlInt uid]] (insert_user uid \<lparr>u_fingerprint = Some fp, u_balance = 0\<rparr> t)]))"
| "stmt_sem InsCash args t = text_arg args 1 (\<lambda>ty. int_arg args 2 (\<lambda>uid. int_arg args 3 (\<lambda>amt.
     [add_tx \<lparr>t_type = ty, t_user_id = uid, t_item_id = None, t_quantity = None, total_amount = amt\<rparr> t])))"
| "stmt_sem SelItemId args t = int_arg args 1 (\<lambda>slot.
     [Effect (case map_of (stock t) slot of None \<Rightarrow> [] | Some s \<Rightarrow> [[SqlInt (s_item_id s)]]) t])"
| "stmt_sem InsStockLog args t = int_arg args 1 (\<lambda>item. text_arg args 2 (\<lambda>ty. int_arg args 3 (\<lambda>q.
     [add_log \<lparr>l_item_id = item, change_type = ty, quantity_changed = q\<rparr> t])))"

definition sql_sem :: "tables semantics" where
  "sql_sem s args t = (case sql_stmt_of s of None \<Rightarrow> [Unspecified] | Some st \<Rightarrow> stmt_sem st args t)"

text \<open>\<^verbatim>\<open>sqlite3_column_int\<close> returns the low 32 bits of an integer (0 for NULL, the integer prefix
  of a text); \<^verbatim>\<open>sqlite3_column_text\<close> returns a text as it is.\<close>

definition column_int :: "sqlval list \<Rightarrow> nat \<Rightarrow> int" where
  "column_int row i =
     (case row ! i of SqlInt n \<Rightarrow> wrap32 n | SqlNull \<Rightarrow> 0 | SqlText s \<Rightarrow> wrap32 (fst (strtol s)))"

definition column_text :: "sqlval list \<Rightarrow> nat \<Rightarrow> string" where
  "column_text row i = (case row ! i of SqlText s \<Rightarrow> s | SqlInt n \<Rightarrow> show_int n | SqlNull \<Rightarrow> [])"

section \<open>The seed of \<^verbatim>\<open>init.sql\<close>\<close>

definition seed_items :: "(int, item_row) rows" where
  "seed_items = zip [1..30] (map (\<lambda>(n, p). \<lparr>i_name = n, i_price = p\<rparr>)
    [(''Cola Classic'', 500), (''Diet Cola'', 500), (''Zero Sugar Cola'', 500),
     (''Sparkling Water'', 400), (''Lemon Soda'', 500), (''Cherry Cola'', 550),
     (''Spring Water'', 350), (''Orange Juice'', 650), (''Apple Juice'', 600),
     (''Iced Tea'', 500), (''Sports Drink'', 650), (''Energy Drink'', 800),
     (''Potato Chips'', 500), (''Spicy Nacho Doritos'', 550), (''Pretzels'', 400),
     (''Cheese Crackers'', 400), (''Popcorn'', 450), (''BBQ Chips'', 500),
     (''Chocolate Peanut Bar'', 450), (''Gummy Bears'', 400), (''M&Ms'', 550),
     (''Snickers'', 500), (''Kit Kat'', 450), (''Oreo Cookies'', 550),
     (''Mixed Nuts'', 650), (''Protein Bar'', 1000), (''Granola Bar'', 650),
     (''Dried Fruit Mix'', 600), (''Trail Mix'', 650), (''Peanut Butter Crackers'', 500)])"

definition seed_stock :: "(int, stock_row) rows" where
  "seed_stock = map (\<lambda>(slot, i, q). (slot, \<lparr>s_item_id = i, s_quantity = q\<rparr>))
    [(11, 1, 18), (12, 2, 18), (13, 3, 18), (14, 4, 20), (15, 5, 15), (16, 6, 12),
     (21, 7, 24), (22, 8, 12), (23, 9, 12), (24, 10, 15), (25, 11, 10), (26, 12, 10),
     (31, 13, 15), (32, 14, 15), (33, 15, 18), (34, 16, 18), (35, 17, 15), (36, 18, 15),
     (41, 19, 20), (42, 20, 20), (43, 21, 18), (44, 22, 15), (45, 23, 18), (46, 24, 18),
     (51, 25, 12), (52, 26, 10), (53, 27, 12), (54, 28, 12), (55, 29, 10), (56, 30, 15)]"

definition seed_logs :: "stock_log_row list" where
  "seed_logs = map (\<lambda>(i, q). \<lparr>l_item_id = i, change_type = ''addition'', quantity_changed = q\<rparr>)
    [(1, 18), (2, 18), (3, 18), (4, 20), (5, 15), (6, 12), (7, 24), (8, 12), (9, 12), (10, 15),
     (11, 10), (12, 10), (13, 15), (14, 15), (15, 18), (16, 18), (17, 15), (18, 15), (19, 20),
     (20, 20), (21, 18), (22, 15), (23, 18), (24, 18), (25, 12), (26, 10), (27, 12), (28, 12),
     (29, 10), (30, 15)]"

definition seed :: tables where
  "seed = \<lparr>users = [], items = seed_items, stock = seed_stock, transactions = [],
     stock_logs = seed_logs, user_seq = 0\<rparr>"

section \<open>Invariants of the data\<close>

text \<open>What the schema itself demands of every state of the tables.\<close>

definition schema_ok :: "tables \<Rightarrow> bool" where
  "schema_ok t \<longleftrightarrow>
     rows_ok (users t) \<and> rows_ok (items t) \<and> rows_ok (stock t) \<and>
     (\<forall>p \<in> set (users t). 0 \<le> u_balance (snd p) \<and> is_int64 (u_balance (snd p)) \<and> fst p \<le> user_seq t) \<and>
     distinct (List.map_filter (u_fingerprint \<circ> snd) (users t)) \<and>
     (\<forall>p \<in> set (stock t). 0 \<le> s_quantity (snd p) \<and> is_int64 (s_quantity (snd p)) \<and>
        map_of (items t) (s_item_id (snd p)) \<noteq> None) \<and>
     (\<forall>r \<in> set (transactions t). tx_check r \<and> tx_fk t r) \<and>
     (\<forall>r \<in> set (stock_logs t). log_check r \<and> log_fk t r) \<and>
     0 \<le> user_seq t"

text \<open>Double-entry bookkeeping: a user's balance is the sum of that user's transactions, and the
  pieces of an item in the machine are the sum of that item's stock log.\<close>

definition tx_total :: "int \<Rightarrow> tables \<Rightarrow> int" where
  "tx_total uid t = sum_list (map total_amount (filter (\<lambda>r. t_user_id r = uid) (transactions t)))"

definition balance_of :: "int \<Rightarrow> tables \<Rightarrow> int" where
  "balance_of uid t = (case map_of (users t) uid of None \<Rightarrow> 0 | Some u \<Rightarrow> u_balance u)"

definition log_total :: "int \<Rightarrow> tables \<Rightarrow> int" where
  "log_total i t = sum_list (map quantity_changed (filter (\<lambda>r. l_item_id r = i) (stock_logs t)))"

definition pieces_of :: "int \<Rightarrow> tables \<Rightarrow> int" where
  "pieces_of i t = sum_list (map (s_quantity \<circ> snd) (filter (\<lambda>p. s_item_id (snd p) = i) (stock t)))"

definition books_ok :: "tables \<Rightarrow> bool" where
  "books_ok t \<longleftrightarrow> (\<forall>uid. balance_of uid t = tx_total uid t) \<and> (\<forall>i. pieces_of i t = log_total i t)"

section \<open>Lemmas: the texts are told apart\<close>

lemmas sql_texts =
  sel_balance_sql_def deposit_sql_def zero_balance_sql_def item_sql_def upd_bal_sql_def
  upd_stock_sql_def trx_sql_def list_sql_def product_sql_def restock_sql_def price_sql_def
  upsert_sql_def cash_sql_def sel_item_sql_def log_sql_def

lemma sql_stmt_of_simps [simp]:
  "sql_stmt_of sel_balance_sql = Some SelBalance"
  "sql_stmt_of deposit_sql = Some Deposit"
  "sql_stmt_of zero_balance_sql = Some ZeroBalance"
  "sql_stmt_of item_sql = Some SelItem"
  "sql_stmt_of upd_bal_sql = Some DebitBalance"
  "sql_stmt_of upd_stock_sql = Some DecStock"
  "sql_stmt_of trx_sql = Some InsPurchase"
  "sql_stmt_of list_sql = Some ListProducts"
  "sql_stmt_of product_sql = Some SelProduct"
  "sql_stmt_of restock_sql = Some AddStock"
  "sql_stmt_of price_sql = Some SetPrice"
  "sql_stmt_of upsert_sql = Some UpsertUser"
  "sql_stmt_of cash_sql = Some InsCash"
  "sql_stmt_of sel_item_sql = Some SelItemId"
  "sql_stmt_of log_sql = Some InsStockLog"
  unfolding sql_stmt_of_def sql_texts by simp_all

lemma int_arg_simp [simp]: "args i = SqlInt n \<Longrightarrow> int_arg args i F = F n"
  by (simp add: int_arg_def)

lemma text_arg_simp [simp]: "args i = SqlText s \<Longrightarrow> text_arg args i F = F s"
  by (simp add: text_arg_def)

lemma sql_sem_ne: "sql_sem s args t \<noteq> []"
  by (cases "sql_stmt_of s")
     (auto simp: sql_sem_def int_arg_def text_arg_def Let_def split: option.splits sqlval.splits elim!: stmt_sem.elims)

lemma column_int_simps [simp]:
  "column_int (SqlInt n # row) 0 = wrap32 n"
  "column_int (x # row) (Suc i) = column_int row i"
  "column_text (SqlText s # row) 0 = s"
  "column_text (x # row) (Suc i) = column_text row i"
  "column_int (x # row) (numeral k) = column_int row (pred_numeral k)"
  "column_text (x # row) (numeral k) = column_text row (pred_numeral k)"
  by (simp_all add: column_int_def column_text_def numeral_eq_Suc)

lemma column_int_range: "is_int32 (column_int row i)"
  by (auto simp: column_int_def is_int32_def split: sqlval.splits) (use wrap32_range is_int32_def in blast)+

end
