(* ===== verification/Mem_Sqlite.thy ===== *)
theory Mem_Sqlite
  imports Schema
begin

text \<open>
  An executable connection that fulfils \<open>sqlite_contract\<close> on the program's schema, with a script of
  the calls that the environment makes fail. It shows that the contract can be met on every
  branch, and the witnesses run the program on it.
\<close>

section \<open>A connection that fulfils the contract\<close>

record mem_db =
  m_committed :: tables
  m_txn :: "tables option"
  m_stmts :: "(nat \<times> stmt) list"
  m_faults :: "bool list"

definition mem_view :: "mem_db \<Rightarrow> tables view" where
  "mem_view db = \<lparr>committed = m_committed db, txn = m_txn db, stmts = map_of (m_stmts db)\<rparr>"

definition mem_faulty :: "mem_db \<Rightarrow> bool" where
  "mem_faulty db \<longleftrightarrow> True \<in> set (m_faults db)"

definition mem_open :: "tables \<Rightarrow> bool list \<Rightarrow> mem_db" where
  "mem_open t fs = \<lparr>m_committed = t, m_txn = None, m_stmts = [], m_faults = fs\<rparr>"

definition next_fault :: "mem_db \<Rightarrow> bool \<times> mem_db" where
  "next_fault db = (case m_faults db of [] \<Rightarrow> (False, db) | b # bs \<Rightarrow> (b, db\<lparr>m_faults := bs\<rparr>))"

definition mem_exec :: "string \<Rightarrow> mem_db \<Rightarrow> rc \<times> mem_db" where
  "mem_exec s db =
     (let (b, db) = next_fault db in
      if s = begin_sql then
        (if b \<or> m_txn db \<noteq> None then (SQLITE_FAIL 1, db)
         else (SQLITE_OK, db\<lparr>m_txn := Some (m_committed db)\<rparr>))
      else if s = commit_sql then
        (case m_txn db of
           None \<Rightarrow> (SQLITE_FAIL 1, db)
         | Some t \<Rightarrow> if b then (SQLITE_FAIL 5, db)
                     else (SQLITE_OK, db\<lparr>m_committed := t, m_txn := None\<rparr>))
      else if s = rollback_sql then
        (if m_txn db = None then SQLITE_FAIL 1 else SQLITE_OK, db\<lparr>m_txn := None\<rparr>)
      else (SQLITE_FAIL 1, db))"

definition new_handle :: "(nat \<times> stmt) list \<Rightarrow> nat" where
  "new_handle st = Suc (fold max (map fst st) 0)"

definition mem_prepare :: "string \<Rightarrow> mem_db \<Rightarrow> rc \<times> nat \<times> mem_db" where
  "mem_prepare s db =
     (let (b, db) = next_fault db; h = new_handle (m_stmts db)
      in if b then (SQLITE_FAIL 7, 0, db)
         else (SQLITE_OK, h, db\<lparr>m_stmts := (h, Fresh s (\<lambda>_. SqlNull)) # m_stmts db\<rparr>))"

definition mem_bind :: "nat \<Rightarrow> nat \<Rightarrow> sqlval \<Rightarrow> mem_db \<Rightarrow> mem_db" where
  "mem_bind h i x db =
     (case map_of (m_stmts db) h of
        Some (Fresh s args) \<Rightarrow> db\<lparr>m_stmts := (h, Fresh s (args(i := x))) # filter (\<lambda>p. fst p \<noteq> h) (m_stmts db)\<rparr>
      | _ \<Rightarrow> db)"

definition set_stmt :: "nat \<Rightarrow> stmt \<Rightarrow> mem_db \<Rightarrow> mem_db" where
  "set_stmt h st db = db\<lparr>m_stmts := (h, st) # filter (\<lambda>p. fst p \<noteq> h) (m_stmts db)\<rparr>"

definition get_current :: "mem_db \<Rightarrow> tables" where
  "get_current db = (case m_txn db of Some t \<Rightarrow> t | None \<Rightarrow> m_committed db)"

definition put_current :: "tables \<Rightarrow> mem_db \<Rightarrow> mem_db" where
  "put_current t db = (case m_txn db of None \<Rightarrow> db\<lparr>m_committed := t\<rparr> | Some _ \<Rightarrow> db\<lparr>m_txn := Some t\<rparr>)"

definition mem_rows :: "nat \<Rightarrow> sqlval list list \<Rightarrow> mem_db \<Rightarrow> rc \<times> sqlval list \<times> mem_db" where
  "mem_rows h rows db =
     (case rows of
        [] \<Rightarrow> (SQLITE_DONE, [], set_stmt h (Running []) db)
      | r # rs \<Rightarrow> (SQLITE_ROW, r, set_stmt h (Running rs) db))"

definition mem_step :: "nat \<Rightarrow> mem_db \<Rightarrow> rc \<times> sqlval list \<times> mem_db" where
  "mem_step h db =
     (let (b, db) = next_fault db; fail = (SQLITE_FAIL 10, [], set_stmt h Failed db) in
      case map_of (m_stmts db) h of
        Some (Fresh s args) \<Rightarrow>
          (case hd (sql_sem s args (get_current db)) of
             Effect rows t \<Rightarrow>
               (if b then fail
                else mem_rows h rows (put_current t db))
           | _ \<Rightarrow> fail)
      | Some (Running rows) \<Rightarrow> if b then fail else mem_rows h rows db
      | _ \<Rightarrow> fail)"

definition mem_finalize :: "nat \<Rightarrow> mem_db \<Rightarrow> mem_db" where
  "mem_finalize h db = db\<lparr>m_stmts := filter (\<lambda>p. fst p \<noteq> h) (m_stmts db)\<rparr>"

definition mem_malloc :: "mem_db \<Rightarrow> bool \<times> mem_db" where
  "mem_malloc db = (let (b, db) = next_fault db in (\<not> b, db))"

definition mem_sqlite :: "mem_db sqlite" where
  "mem_sqlite = \<lparr>sq_exec = mem_exec, sq_prepare = mem_prepare, sq_bind = mem_bind,
     sq_step = mem_step, sq_finalize = mem_finalize, sq_malloc = mem_malloc\<rparr>"

section \<open>Lemmas\<close>

lemma next_fault_view:
  "next_fault db = (b, db1) \<Longrightarrow>
     mem_view db1 = mem_view db \<and> m_txn db1 = m_txn db \<and> m_committed db1 = m_committed db \<and>
     m_stmts db1 = m_stmts db \<and> (b \<longrightarrow> mem_faulty db) \<and> (mem_faulty db1 \<longrightarrow> mem_faulty db)"
  by (auto simp: next_fault_def mem_view_def mem_faulty_def split: list.splits)

lemma fold_max_ge: "x \<in> set xs \<Longrightarrow> x \<le> fold max xs (a::nat)" "a \<le> fold max xs (a::nat)"
  by (induction xs arbitrary: a) (auto, (meson max.boundedE)+)

lemma new_handle_fresh: "map_of st (new_handle st) = None"
  using fold_max_ge(1)[of "new_handle st" "map fst st" 0]
  by (auto simp: map_of_eq_None_iff new_handle_def)

lemma map_of_filter_other: "map_of (filter (\<lambda>p. fst p \<noteq> h) st) = (map_of st)(h := None)"
  by (induction st) auto

lemma set_stmt_view [simp]: "mem_view (set_stmt h st db) = (mem_view db)\<lparr>stmts := (stmts (mem_view db))(h \<mapsto> st)\<rparr>"
  by (simp add: set_stmt_def mem_view_def map_of_filter_other)

lemma mem_faulty_set_stmt [simp]: "mem_faulty (set_stmt h st db) = mem_faulty db"
  by (simp add: set_stmt_def mem_faulty_def)

lemma mem_exec_law:
  assumes "mem_exec s db = (c, db')"
  shows "a_exec (mem_faulty db) s (mem_view db) c (mem_view db') \<and> (mem_faulty db' \<longrightarrow> mem_faulty db)"
proof -
  obtain b db1 where n: "next_fault db = (b, db1)" by (cases "next_fault db")
  from assms next_fault_view[OF n] show ?thesis
    unfolding mem_exec_def a_exec_def n
    by (auto simp: mem_view_def mem_faulty_def Let_def split: if_splits option.splits)
qed

lemma mem_prepare_law:
  assumes "mem_prepare s db = (c, h, db')"
  shows "a_prepare (mem_faulty db) s (mem_view db) c h (mem_view db') \<and> (mem_faulty db' \<longrightarrow> mem_faulty db)"
proof -
  obtain b db1 where n: "next_fault db = (b, db1)" by (cases "next_fault db")
  from assms next_fault_view[OF n] show ?thesis
    unfolding mem_prepare_def a_prepare_def n
    by (auto simp: mem_view_def mem_faulty_def Let_def new_handle_fresh split: if_splits)
qed

lemma mem_rows_law:
  "mem_rows h rows db = (c, row, db') \<Longrightarrow>
     a_rows h rows (mem_view db) c row (mem_view db') \<and> (mem_faulty db' \<longleftrightarrow> mem_faulty db)"
  by (auto simp: mem_rows_def a_rows_def split: list.splits)

lemma put_current_view [simp]: "mem_view (put_current t db) = set_current t (mem_view db)"
  by (auto simp: mem_view_def put_current_def set_current_def split: option.splits)

lemma mem_faulty_put_current [simp]: "mem_faulty (put_current t db) = mem_faulty db"
  by (simp add: put_current_def mem_faulty_def split: option.splits)

lemma get_current_view: "get_current db = current (mem_view db)"
  by (cases "m_txn db") (simp_all add: mem_view_def current_def get_current_def)

lemma mem_step_law:
  assumes "mem_step h db = (c, row, db')"
  shows "a_step sql_sem (mem_faulty db) h (mem_view db) c row (mem_view db') \<and>
    (mem_faulty db' \<longrightarrow> mem_faulty db)"
proof -
  obtain b db1 where n: "next_fault db = (b, db1)" by (cases "next_fault db")
  note nv = next_fault_view[OF n]
  have st: "map_of (m_stmts db1) h = stmts (mem_view db) h" using nv by (simp add: mem_view_def)
  have cur: "get_current db1 = current (mem_view db)" using nv by (simp add: get_current_view)
  note step = assms[unfolded mem_step_def n Let_def prod.case st cur]
  have hd_in: "\<And>s a t. hd (sql_sem s a t) \<in> set (sql_sem s a t)" using sql_sem_ne by simp
  show ?thesis
  proof (cases "stmts (mem_view db) h")
    case None
    with step nv show ?thesis by (auto simp: a_step_def)
  next
    case (Some st)
    show ?thesis
    proof (cases st)
      case (Fresh s args)
      let ?oc = "hd (sql_sem s args (current (mem_view db)))"
      from step nv Some Fresh have "(case ?oc of Unspecified \<Rightarrow> True
          | Violation \<Rightarrow> a_step_err h (mem_view db) c (mem_view db')
          | Effect rows t \<Rightarrow> a_rows h rows (set_current t (mem_view db)) c row (mem_view db') \<or>
              (mem_faulty db \<and> a_step_err h (mem_view db) c (mem_view db'))) \<and>
          (mem_faulty db' \<longrightarrow> mem_faulty db)"
        by (auto simp: a_step_err_def dest!: mem_rows_law split: outcome.splits if_splits)
      with Some Fresh hd_in[of s args "current (mem_view db)"] show ?thesis by (auto simp: a_step_def)
    next
      case (Running rows)
      with step nv Some show ?thesis
        by (auto simp: a_step_def a_step_err_def dest!: mem_rows_law split: if_splits)
    next
      case Failed
      with step nv Some show ?thesis by (auto simp: a_step_def)
    qed
  qed
qed

lemma mem_bind_law: "a_bind h i x (mem_view db) (mem_view (mem_bind h i x db))"
  by (auto simp: a_bind_def mem_bind_def mem_view_def map_of_filter_other split: option.splits stmt.splits)

lemma mem_faulty_bind: "mem_faulty (mem_bind h i x db) = mem_faulty db"
  by (auto simp: mem_bind_def mem_faulty_def split: option.splits stmt.splits)

text \<open>The reference connection fulfils the contract.\<close>

interpretation mem: sqlite_contract sql_sem mem_sqlite mem_view mem_faulty
proof (unfold_locales, goal_cases)
  case 1 then show ?case by (simp add: mem_sqlite_def mem_exec_law)
next
  case 2 then show ?case by (simp add: mem_sqlite_def mem_prepare_law)
next
  case 3 then show ?case by (simp add: mem_sqlite_def mem_bind_law)
next
  case 4 then show ?case by (simp add: mem_sqlite_def mem_step_law)
next
  case 5 then show ?case
    by (simp add: mem_sqlite_def a_finalize_def mem_finalize_def mem_view_def map_of_filter_other)
next
  case 6 then show ?case
    by (auto simp: mem_sqlite_def mem_malloc_def dest!: next_fault_view split: prod.splits)
next
  case 7 then show ?case using mem_exec_law by (fastforce simp: mem_sqlite_def)
next
  case 8 then show ?case using mem_prepare_law by (fastforce simp: mem_sqlite_def)
next
  case 9 then show ?case by (simp add: mem_sqlite_def mem_faulty_bind)
next
  case 10 then show ?case using mem_step_law by (fastforce simp: mem_sqlite_def)
next
  case 11 then show ?case by (simp add: mem_sqlite_def mem_finalize_def mem_faulty_def)
next
  case 12 then show ?case
    by (auto simp: mem_sqlite_def mem_malloc_def dest!: next_fault_view split: prod.splits)
qed

end
