(* ===== verification/Db.thy ===== *)
theory Db
  imports Mem_Sqlite
begin

text \<open>
  The database layer, \<^verbatim>\<open>server/src/db/db.c\<close>: opening the connection and the two logging
  functions that the services call inside their transactions. A function that returns an \<^verbatim>\<open>int\<close>
  status is an \<open>int dbprog\<close>; the diagnostics on \<^verbatim>\<open>stderr\<close> are left out.
\<close>

section \<open>Opening and closing\<close>

definition setup_sql :: string where
  "setup_sql = ''PRAGMA journal_mode=WAL; PRAGMA foreign_keys=ON;''"

text \<open>\<open>opn\<close> is \<^verbatim>\<open>sqlite3_open\<close>. A failing setup is reported but not fatal.\<close>

definition db_init :: "(string \<Rightarrow> rc \<times> 'db) \<Rightarrow> 'db sqlite \<Rightarrow> string option \<Rightarrow> 'db option" where
  "db_init opn sq path =
     (let (rc, db) = opn (case path of Some p \<Rightarrow> p | None \<Rightarrow> ''sshnack.db'') in
      if rc \<noteq> SQLITE_OK then None
      else Some (snd (sq_exec sq setup_sql db)))"

section \<open>Logging\<close>

text \<open>The idiom \<^verbatim>\<open>sqlite3_exec(db, "ROLLBACK", ...); return r;\<close>\<close>

abbreviation rollback :: "'r \<Rightarrow> 'r dbprog" where
  "rollback r \<equiv> Exec rollback_sql (\<lambda>_. Ret r)"

definition db_log_cash_transaction :: "int \<Rightarrow> int \<Rightarrow> string \<Rightarrow> int dbprog" where
  "db_log_cash_transaction user_id amount_gr ty =
     Prepare cash_sql (\<lambda>rc stmt.
       if rc \<noteq> SQLITE_OK then Ret (-1) else
       Bind stmt 1 (SqlText ty) (
       Bind stmt 2 (SqlInt user_id) (
       Bind stmt 3 (SqlInt amount_gr) (
       Step stmt (\<lambda>rc row.
       Finalize stmt (
       if rc \<noteq> SQLITE_DONE then Ret (-1) else
       Ret 0))))))"

definition db_log_stock_change :: "int \<Rightarrow> int \<Rightarrow> string \<Rightarrow> int dbprog" where
  "db_log_stock_change slot_id change_qty ty =
     Prepare sel_item_sql (\<lambda>rc stmt.
       if rc \<noteq> SQLITE_OK then Ret (-1) else
       Bind stmt 1 (SqlInt slot_id) (
       Step stmt (\<lambda>rc row.
       if rc \<noteq> SQLITE_ROW then Finalize stmt (Ret (-1)) else
       (let item_id = column_int row 0 in
       Finalize stmt (
       Prepare log_sql (\<lambda>rc stmt.
       if rc \<noteq> SQLITE_OK then Ret (-1) else
       Bind stmt 1 (SqlInt item_id) (
       Bind stmt 2 (SqlText ty) (
       Bind stmt 3 (SqlInt change_qty) (
       Step stmt (\<lambda>rc row.
       Finalize stmt (
       if rc \<noteq> SQLITE_DONE then Ret (-1) else
       Ret 0)))))))))))"

section \<open>Abstract specifications\<close>

definition log_cash_spec :: "int \<Rightarrow> int \<Rightarrow> string \<Rightarrow> tables \<Rightarrow> tables option" where
  "log_cash_spec uid amt ty t =
     (case add_tx \<lparr>t_type = ty, t_user_id = uid, t_item_id = None, t_quantity = None, total_amount = amt\<rparr> t of
        Effect _ t' \<Rightarrow> Some t' | _ \<Rightarrow> None)"

definition log_stock_spec :: "int \<Rightarrow> int \<Rightarrow> string \<Rightarrow> tables \<Rightarrow> tables option" where
  "log_stock_spec slot q ty t =
     (case map_of (stock t) slot of
        None \<Rightarrow> None
      | Some s \<Rightarrow>
          (case add_log \<lparr>l_item_id = wrap32 (s_item_id s), change_type = ty, quantity_changed = q\<rparr> t of
             Effect _ t' \<Rightarrow> Some t' | _ \<Rightarrow> None))"

text \<open>
  What a step inside a transaction promises: on success (0) the open transaction holds the new
  tables; on failure (-1) nothing is committed, and the transaction is as it was or was ended by
  SQLite. No statement is left open.
\<close>

definition step_post :: "bool \<Rightarrow> tables option \<Rightarrow> tables view \<Rightarrow> int \<Rightarrow> tables view \<Rightarrow> bool" where
  "step_post f spec v r v' \<longleftrightarrow>
     stmts v' = stmts v \<and> committed v' = committed v \<and>
     ((r = 0 \<and> (\<exists>t. spec = Some t \<and> txn v' = Some t)) \<or>
      (r = -1 \<and> (f \<or> spec = None) \<and> (txn v' = txn v \<or> txn v' = None)))"

section \<open>Lemmas\<close>

lemmas view_simps = wp_err_def sql_sem_def

lemma fun_upd_None_id [simp]: "m h = None \<Longrightarrow> m(h := None) = m"
  by auto

lemma add_tx_cases: "add_tx r t = Effect rows t' \<longleftrightarrow> tx_check r \<and> tx_fk t r \<and> rows = [] \<and> t' = t\<lparr>transactions := transactions t @ [r]\<rparr>"
  by (auto simp: add_tx_def)

lemma wp_db_log_cash_transaction:
  assumes "txn v = Some t"
  shows "wp sql_sem f (db_log_cash_transaction uid amt ty) v (step_post f (log_cash_spec uid amt ty t) v)"
  unfolding db_log_cash_transaction_def
  using assms by (simp add: wp_simps view_simps step_post_def log_cash_spec_def add_tx_def is_err_not)

lemma wp_db_log_stock_change:
  assumes "txn v = Some t"
  shows "wp sql_sem f (db_log_stock_change slot q ty) v (step_post f (log_stock_spec slot q ty t) v)"
  unfolding db_log_stock_change_def Let_def
  using assms by (simp add: wp_simps view_simps step_post_def log_stock_spec_def add_log_def is_err_not split: option.splits)

end
