(* ===== verification/Service_Contract.thy ===== *)
theory Service_Contract
  imports Db
begin

text \<open>
  What every transactional service of \<^verbatim>\<open>server/src/services\<close> promises, as an interface: the locale
  \<open>transactional_service\<close> says that a program refines an abstract specification atomically, and
  its extension \<open>audited_service\<close> that the specification keeps the data well formed and the books
  balanced. Each service theory interprets them on its own functions. The lemmas here are the
  effects of single statements on \<open>schema_ok\<close> and \<open>books_ok\<close>, which those proofs share.
\<close>

section \<open>The interface\<close>

text \<open>What a transactional service promises, started with no transaction open: it ends with none
  open and no statement left; on success the committed tables are those of the specification,
  on failure they are unchanged, and it fails only if the specification or the environment does.\<close>

definition service_post :: "bool \<Rightarrow> tables option \<Rightarrow> tables view \<Rightarrow> int \<Rightarrow> tables view \<Rightarrow> bool" where
  "service_post f spec v r v' \<longleftrightarrow>
     txn v' = None \<and> stmts v' = stmts v \<and>
     ((r = 0 \<and> spec = Some (committed v')) \<or>
      (r = -1 \<and> committed v' = committed v \<and> (f \<or> spec = None)))"

locale transactional_service =
  fixes prog :: "int dbprog"
    and spec :: "tables \<Rightarrow> tables option"
    and fits :: "tables \<Rightarrow> bool"
  assumes atomic:
    "txn v = None \<Longrightarrow> fits (committed v) \<Longrightarrow> wp sql_sem f prog v (service_post f (spec (committed v)) v)"

locale audited_service = transactional_service +
  assumes spec_schema: "schema_ok t \<Longrightarrow> fits t \<Longrightarrow> spec t = Some t' \<Longrightarrow> schema_ok t'"
    and spec_books: "schema_ok t \<Longrightarrow> fits t \<Longrightarrow> spec t = Some t' \<Longrightarrow> books_ok t \<Longrightarrow> books_ok t'"

section \<open>Lemmas: running a service\<close>

lemmas service_simps = wp_simps view_simps service_post_def is_err_not Let_def
  tx_check_def tx_fk_def log_check_def log_fk_def add_tx_def add_log_def row_simps

context transactional_service
begin

lemma run_atomic:
  assumes "sqlite_contract sql_sem sq view faulty" and "txn (view db) = None"
    and "fits (committed (view db))" and "run sq prog db = (r, db')"
  shows "txn (view db') = None \<and> stmts (view db') = stmts (view db) \<and>
    ((r = 0 \<and> spec (committed (view db)) = Some (committed (view db'))) \<or>
     (r = -1 \<and> committed (view db') = committed (view db) \<and>
      (faulty db \<or> spec (committed (view db)) = None)))"
  using sqlite_contract.run_wp[OF assms(1) atomic[OF assms(2,3)] assms(4), of "faulty db"]
  by (simp add: service_post_def)

end

context audited_service
begin

lemma run_audited:
  assumes "sqlite_contract sql_sem sq view faulty" and "txn (view db) = None"
    and "fits (committed (view db))" and "run sq prog db = (r, db')"
    and "schema_ok (committed (view db))" and "books_ok (committed (view db))"
  shows "schema_ok (committed (view db')) \<and> books_ok (committed (view db'))"
  using run_atomic[OF assms(1-4)] spec_schema[OF assms(5,3)] spec_books[OF assms(5,3)] assms(5,6)
  by auto

end

section \<open>Lemmas: statements and the schema\<close>

lemma ball_pairs: "(\<forall>p \<in> A. P p) \<longleftrightarrow> (\<forall>k r. (k, r) \<in> A \<longrightarrow> P (k, r))"
  by auto

lemmas schema_ok_pairs = schema_ok_def ball_pairs[where A = "set (users _)"] ball_pairs[where A = "set (stock _)"]

lemma schema_ok_balance:
  assumes "schema_ok t" and "0 \<le> b" and "is_int64 b"
  shows "schema_ok (t\<lparr>users := row_upd uid (u_balance_update (\<lambda>_. b)) (users t)\<rparr>)"
  using assms unfolding schema_ok_pairs
  by (auto simp: in_set_row_upd map_filter_row_upd tx_fk_def log_fk_def map_of_row_upd split: option.splits)

lemma schema_ok_quantity:
  assumes "schema_ok t" and "0 \<le> q" and "is_int64 q"
  shows "schema_ok (t\<lparr>stock := row_upd slot (s_quantity_update (\<lambda>_. q)) (stock t)\<rparr>)"
  using assms unfolding schema_ok_pairs
  by (auto simp: in_set_row_upd tx_fk_def log_fk_def split: option.splits)

lemma schema_ok_price:
  assumes "schema_ok t"
  shows "schema_ok (t\<lparr>items := row_upd item (i_price_update (\<lambda>_. p)) (items t)\<rparr>)"
  using assms unfolding schema_ok_pairs
  by (auto simp: tx_fk_def log_fk_def map_of_row_upd split: option.splits)

lemma schema_ok_tx:
  assumes "schema_ok t" and "tx_check r" and "tx_fk t r"
  shows "schema_ok (t\<lparr>transactions := transactions t @ [r]\<rparr>)"
  using assms unfolding schema_ok_pairs by (auto simp: tx_fk_def log_fk_def split: option.splits)

lemma schema_ok_log:
  assumes "schema_ok t" and "log_check r" and "log_fk t r"
  shows "schema_ok (t\<lparr>stock_logs := stock_logs t @ [r]\<rparr>)"
  using assms unfolding schema_ok_pairs by (auto simp: tx_fk_def log_fk_def split: option.splits)

lemma schema_ok_insert_user:
  assumes "schema_ok t" and "map_of (users t) uid = None" and "0 \<le> u_balance u" and "is_int64 (u_balance u)"
    and "\<And>fp. u_fingerprint u = Some fp \<Longrightarrow> user_of_fingerprint fp t = None"
  shows "schema_ok (insert_user uid u t)"
proof -
  let ?fps = "List.map_filter (u_fingerprint \<circ> snd)"
  have fps: "mset (?fps (row_ins uid u rs)) =
      mset (case u_fingerprint u of None \<Rightarrow> ?fps rs | Some fp \<Rightarrow> fp # ?fps rs)" for rs
    by (induction uid u rs rule: row_ins.induct) (auto simp: map_filter_simps comp_def split: option.splits)
  have new: "u_fingerprint u = Some fp \<Longrightarrow> fp \<notin> set (?fps (users t))" for fp
    using assms(5) by (force simp: user_of_fingerprint_def map_filter_def find_None_iff)
  have "distinct (?fps (row_ins uid u (users t)))"
    using assms(1) new unfolding schema_ok_def mset_eq_imp_distinct_iff[OF fps] by (simp split: option.splits)
  with assms(1-4) show ?thesis
    unfolding schema_ok_pairs insert_user_def
    by (auto simp: set_row_ins rows_ok_row_ins map_of_row_ins tx_fk_def log_fk_def le_max_iff_disj
        split: option.splits)
qed

section \<open>Lemmas: statements and the books\<close>

lemma tx_total_snoc:
  "transactions t' = transactions t @ [r] \<Longrightarrow>
   tx_total uid t' = tx_total uid t + (if t_user_id r = uid then total_amount r else 0)"
  by (simp add: tx_total_def)

lemma log_total_snoc:
  "stock_logs t' = stock_logs t @ [r] \<Longrightarrow>
   log_total i t' = log_total i t + (if l_item_id r = i then quantity_changed r else 0)"
  by (simp add: log_total_def)

lemma pieces_of_upd:
  assumes "rows_ok (stock t)" and "map_of (stock t) slot = Some s"
    and "stock t' = row_upd slot (s_quantity_update (\<lambda>_. q)) (stock t)"
  shows "pieces_of i t' = pieces_of i t + (if s_item_id s = i then q - s_quantity s else 0)"
proof -
  have "distinct (keys rs) \<Longrightarrow> map_of rs slot = Some s \<Longrightarrow>
    sum_list (map (s_quantity \<circ> snd) (filter (\<lambda>p. s_item_id (snd p) = i) (row_upd slot (s_quantity_update (\<lambda>_. q)) rs))) =
    sum_list (map (s_quantity \<circ> snd) (filter (\<lambda>p. s_item_id (snd p) = i) rs)) +
      (if s_item_id s = i then q - s_quantity s else 0)" for rs
    by (induction rs) (auto simp: row_upd_absent map_of_eq_None_iff split: if_splits)
  from this[OF rows_ok_distinct[OF assms(1)] assms(2)] show ?thesis
    by (simp only: pieces_of_def assms(3))
qed

lemma balance_of_upd:
  "map_of (users t) uid = Some u \<Longrightarrow> users t' = row_upd uid (u_balance_update (\<lambda>_. b)) (users t) \<Longrightarrow>
   balance_of uid' t' = balance_of uid' t + (if uid' = uid then b - u_balance u else 0)"
  by (simp add: balance_of_def map_of_row_upd split: option.splits)

lemma balance_of_ins:
  "map_of (users t) uid = None \<Longrightarrow> users t' = row_ins uid u (users t) \<Longrightarrow>
   balance_of uid' t' = balance_of uid' t + (if uid' = uid then u_balance u else 0)"
  by (simp add: balance_of_def map_of_row_ins split: option.splits)

lemma books_parts:
  "users t' = users t \<Longrightarrow> balance_of uid t' = balance_of uid t"
  "transactions t' = transactions t \<Longrightarrow> tx_total uid t' = tx_total uid t"
  "stock t' = stock t \<Longrightarrow> pieces_of i t' = pieces_of i t"
  "stock_logs t' = stock_logs t \<Longrightarrow> log_total i t' = log_total i t"
  by (simp_all add: balance_of_def tx_total_def pieces_of_def log_total_def)

lemma books_okI:
  assumes "books_ok t"
    and "\<And>uid. balance_of uid t' - balance_of uid t = tx_total uid t' - tx_total uid t"
    and "\<And>i. pieces_of i t' - pieces_of i t = log_total i t' - log_total i t"
  shows "books_ok t'"
  unfolding books_ok_def
proof (intro conjI allI)
  fix uid show "balance_of uid t' = tx_total uid t'"
    using assms(1) assms(2)[of uid] by (simp add: books_ok_def)
next
  fix i show "pieces_of i t' = log_total i t'"
    using assms(1) assms(3)[of i] by (simp add: books_ok_def)
qed

text \<open>The machine as \<^verbatim>\<open>init.sql\<close> fills it.\<close>

lemma schema_ok_seed: "schema_ok seed"
  by code_simp

lemma seed_logs_stock:
  "seed_logs = map (\<lambda>p. \<lparr>l_item_id = s_item_id (snd p), change_type = ''addition'', quantity_changed = s_quantity (snd p)\<rparr>) seed_stock"
  by (simp add: seed_logs_def seed_stock_def)

lemma books_ok_seed: "books_ok seed"
proof -
  have "pieces_of i seed = log_total i seed" for i
    by (simp add: pieces_of_def log_total_def seed_def seed_logs_stock filter_map comp_def)
  then show ?thesis by (simp add: books_ok_def balance_of_def tx_total_def seed_def)
qed

end
