(* ===== verification/Balance_Service.thy ===== *)
theory Balance_Service
  imports Service_Contract
begin

text \<open>
  \<^verbatim>\<open>server/src/services/balance_service.c\<close>: reading, crediting and refunding a balance. An
  out-parameter is the second component of the result, \<open>None\<close> where the function leaves it
  unwritten.
\<close>

definition BALANCE_NOT_FOUND :: int where "BALANCE_NOT_FOUND = -2"

definition balance_get :: "int \<Rightarrow> (int \<times> int option) dbprog" where
  "balance_get user_id =
     Prepare sel_balance_sql (\<lambda>rc stmt.
       if rc \<noteq> SQLITE_OK then Ret (-1, None) else
       Bind stmt 1 (SqlInt user_id) (
       Step stmt (\<lambda>rc row.
       if rc = SQLITE_DONE then Finalize stmt (Ret (BALANCE_NOT_FOUND, None)) else
       if rc \<noteq> SQLITE_ROW then Finalize stmt (Ret (-1, None)) else
       (let out = column_int row 0 in
       Finalize stmt (Ret (0, Some out))))))"

definition balance_deposit :: "int \<Rightarrow> int \<Rightarrow> int dbprog" where
  "balance_deposit user_id amount_gr =
     (if amount_gr \<le> 0 then Ret (-1) else
      Exec begin_sql (\<lambda>rc.
      if rc \<noteq> SQLITE_OK then Ret (-1) else
      Prepare deposit_sql (\<lambda>rc stmt.
      if rc \<noteq> SQLITE_OK then rollback (-1) else
      Bind stmt 1 (SqlInt user_id) (
      Bind stmt 2 (SqlInt amount_gr) (
      Step stmt (\<lambda>rc row.
      Finalize stmt (
      if rc \<noteq> SQLITE_DONE then rollback (-1) else
      call (db_log_cash_transaction user_id amount_gr ''deposit'') (\<lambda>rc.
      if rc \<noteq> 0 then rollback (-1) else
      Exec commit_sql (\<lambda>rc.
      if rc \<noteq> SQLITE_OK then rollback (-1) else
      Ret 0)))))))))"

definition balance_reset :: "int \<Rightarrow> (int \<times> int option) dbprog" where
  "balance_reset user_id =
     Exec begin_sql (\<lambda>rc.
     if rc \<noteq> SQLITE_OK then Ret (-1, None) else
     Prepare sel_balance_sql (\<lambda>rc stmt.
     if rc \<noteq> SQLITE_OK then rollback (-1, None) else
     Bind stmt 1 (SqlInt user_id) (
     Step stmt (\<lambda>rc row.
     if rc = SQLITE_DONE then Finalize stmt (rollback (BALANCE_NOT_FOUND, None)) else
     if rc \<noteq> SQLITE_ROW then Finalize stmt (rollback (-1, None)) else
     (let balance = column_int row 0 in
     Finalize stmt (
     if balance = 0 then rollback (0, Some 0) else
     Prepare zero_balance_sql (\<lambda>rc stmt.
     if rc \<noteq> SQLITE_OK then rollback (-1, None) else
     Bind stmt 1 (SqlInt user_id) (
     Step stmt (\<lambda>rc row.
     Finalize stmt (
     if rc \<noteq> SQLITE_DONE then rollback (-1, None) else
     call (db_log_cash_transaction user_id (wrap32 (- balance)) ''withdrawal'') (\<lambda>rc.
     if rc \<noteq> 0 then rollback (-1, None) else
     Exec commit_sql (\<lambda>rc.
     if rc \<noteq> SQLITE_OK then rollback (-1, None) else
     Ret (0, Some balance)))))))))))))"

section \<open>Abstract specifications\<close>

text \<open>Depositing into an account that does not exist opens it.\<close>

definition deposit_spec :: "int \<Rightarrow> int \<Rightarrow> tables \<Rightarrow> tables option" where
  "deposit_spec uid amt t =
     (if amt \<le> 0 then None else
      Some (let t1 = (case map_of (users t) uid of
                   None \<Rightarrow> insert_user uid \<lparr>u_fingerprint = None, u_balance = amt\<rparr> t
                 | Some u \<Rightarrow> t\<lparr>users := row_upd uid (u_balance_update (\<lambda>_. u_balance u + amt)) (users t)\<rparr>)
            in t1\<lparr>transactions := transactions t @
                 [\<lparr>t_type = ''deposit'', t_user_id = uid, t_item_id = None, t_quantity = None, total_amount = amt\<rparr>]\<rparr>))"

definition deposit_fits :: "int \<Rightarrow> int \<Rightarrow> tables \<Rightarrow> bool" where
  "deposit_fits uid amt t \<longleftrightarrow> amt \<le> INT_MAX \<and>
     (case map_of (users t) uid of None \<Rightarrow> True | Some u \<Rightarrow> 0 \<le> u_balance u \<and> u_balance u + amt \<le> LONG_MAX)"

definition reset_fits :: "int \<Rightarrow> tables \<Rightarrow> bool" where
  "reset_fits uid t \<longleftrightarrow>
     (case map_of (users t) uid of None \<Rightarrow> True | Some u \<Rightarrow> 0 \<le> u_balance u \<and> u_balance u \<le> INT_MAX)"

definition reset_spec :: "int \<Rightarrow> tables \<Rightarrow> (int \<times> tables) option" where
  "reset_spec uid t =
     (case map_of (users t) uid of
        None \<Rightarrow> None
      | Some u \<Rightarrow>
          (if u_balance u = 0 then Some (0, t)
           else Some (u_balance u,
             t\<lparr>users := row_upd uid (u_balance_update (\<lambda>_. 0)) (users t),
               transactions := transactions t @
                 [\<lparr>t_type = ''withdrawal'', t_user_id = uid, t_item_id = None, t_quantity = None,
                   total_amount = - u_balance u\<rparr>]\<rparr>)))"

text \<open>With a balance that a C \<^verbatim>\<open>int\<close> can hold, the refund is the whole balance.\<close>

definition reset_post :: "bool \<Rightarrow> int \<Rightarrow> tables view \<Rightarrow> int \<times> int option \<Rightarrow> tables view \<Rightarrow> bool" where
  "reset_post f uid v res v' \<longleftrightarrow>
     txn v' = None \<and> stmts v' = stmts v \<and>
     (case res of (r, out) \<Rightarrow>
        (r = 0 \<and> (\<exists>x. out = Some x \<and> reset_spec uid (committed v) = Some (x, committed v'))) \<or>
        (r = BALANCE_NOT_FOUND \<and> committed v' = committed v \<and> map_of (users (committed v)) uid = None) \<or>
        (r = -1 \<and> f \<and> committed v' = committed v))"

text \<open>Reading a balance changes nothing.\<close>

definition get_post :: "bool \<Rightarrow> int \<Rightarrow> tables view \<Rightarrow> int \<times> int option \<Rightarrow> tables view \<Rightarrow> bool" where
  "get_post f uid v res v' \<longleftrightarrow> v' = v \<and>
     (case map_of (users (committed v)) uid of
        None \<Rightarrow> res = (BALANCE_NOT_FOUND, None)
      | Some u \<Rightarrow> res = (0, Some (wrap32 (u_balance u)))) \<or> (f \<and> v' = v \<and> res = (-1, None))"

section \<open>Lemmas\<close>

lemma wp_balance_deposit:
  assumes idle: "txn v = None" and fits: "deposit_fits uid amt (committed v)"
  shows "wp sql_sem f (balance_deposit uid amt) v (service_post f (deposit_spec uid amt (committed v)) v)"
proof (cases "map_of (users (committed v)) uid")
  case None
  then show ?thesis
    unfolding balance_deposit_def db_log_cash_transaction_def
    using idle by (simp add: service_simps insert_user_def deposit_spec_def)
next
  case (Some u)
  with fits show ?thesis
    unfolding balance_deposit_def db_log_cash_transaction_def
    using idle by (simp add: deposit_fits_def service_simps set_balance_def is_int64_def deposit_spec_def)
qed

lemma wp_balance_reset:
  assumes idle: "txn v = None" and fits: "reset_fits uid (committed v)"
  shows "wp sql_sem f (balance_reset uid) v (reset_post f uid v)"
proof (cases "map_of (users (committed v)) uid")
  case None
  then show ?thesis
    unfolding balance_reset_def db_log_cash_transaction_def
    using idle by (simp add: service_simps reset_post_def reset_spec_def)
next
  case (Some u)
  with fits show ?thesis
    unfolding balance_reset_def db_log_cash_transaction_def
    using idle by (simp add: reset_fits_def service_simps set_balance_def is_int64_def reset_post_def reset_spec_def wrap32_small)
qed

lemma wp_balance_get:
  assumes "txn v = None"
  shows "wp sql_sem f (balance_get uid) v (get_post f uid v)"
  unfolding balance_get_def
  using assms by (cases "map_of (users (committed v)) uid") (simp_all add: service_simps get_post_def)

section \<open>The specifications keep the data well formed and the books balanced\<close>

abbreviation deposit_tx :: "int \<Rightarrow> int \<Rightarrow> tx_row" where
  "deposit_tx uid amt \<equiv> \<lparr>t_type = ''deposit'', t_user_id = uid, t_item_id = None, t_quantity = None, total_amount = amt\<rparr>"

lemma deposit_schema:
  assumes "schema_ok t" and "deposit_fits uid amt t" and "deposit_spec uid amt t = Some t'"
  shows "schema_ok t'"
proof (cases "map_of (users t) uid")
  case None
  let ?t1 = "insert_user uid \<lparr>u_fingerprint = None, u_balance = amt\<rparr> t"
  have "schema_ok ?t1"
    using assms None by (intro schema_ok_insert_user) (auto simp: deposit_fits_def deposit_spec_def is_int64_def split: if_splits)
  then have "schema_ok (?t1\<lparr>transactions := transactions ?t1 @ [deposit_tx uid amt]\<rparr>)"
    using assms None by (intro schema_ok_tx)
      (auto simp: tx_check_def tx_fk_def insert_user_def deposit_spec_def map_of_row_ins split: if_splits)
  with assms(3) None show ?thesis by (auto simp: deposit_spec_def insert_user_def split: if_splits)
next
  case (Some u)
  let ?t1 = "t\<lparr>users := row_upd uid (u_balance_update (\<lambda>_. u_balance u + amt)) (users t)\<rparr>"
  have "schema_ok ?t1"
    using assms Some by (intro schema_ok_balance) (auto simp: deposit_fits_def deposit_spec_def is_int64_def split: if_splits)
  then have "schema_ok (?t1\<lparr>transactions := transactions ?t1 @ [deposit_tx uid amt]\<rparr>)"
    using assms Some by (intro schema_ok_tx)
      (auto simp: tx_check_def tx_fk_def deposit_spec_def map_of_row_upd split: if_splits)
  with assms(3) Some show ?thesis by (auto simp: deposit_spec_def split: if_splits)
qed

lemma deposit_books:
  assumes "deposit_spec uid amt t = Some t'" and "books_ok t"
  shows "books_ok t'"
proof (rule books_okI[OF assms(2)])
  have tx: "transactions t' = transactions t @ [deposit_tx uid amt]"
    and same: "stock t' = stock t" "stock_logs t' = stock_logs t"
    using assms(1) by (auto simp: deposit_spec_def insert_user_def Let_def split: if_splits option.splits)
  fix uid'
  have "balance_of uid' t' = balance_of uid' t + (if uid' = uid then amt else 0)"
  proof (cases "map_of (users t) uid")
    case None
    with assms(1) show ?thesis
      by (subst balance_of_ins[OF None]) (auto simp: deposit_spec_def insert_user_def split: if_splits)
  next
    case (Some u)
    with assms(1) show ?thesis
      by (subst balance_of_upd[OF Some]) (auto simp: deposit_spec_def split: if_splits)
  qed
  then show "balance_of uid' t' - balance_of uid' t = tx_total uid' t' - tx_total uid' t"
    by (auto simp: tx_total_snoc[OF tx])
  fix i
  show "pieces_of i t' - pieces_of i t = log_total i t' - log_total i t"
    by (simp add: books_parts(3)[OF same(1)] books_parts(4)[OF same(2)])
qed

interpretation deposit: audited_service "balance_deposit uid amt" "deposit_spec uid amt" "deposit_fits uid amt"
  for uid amt
  by unfold_locales (auto intro: wp_balance_deposit deposit_schema deposit_books)

lemma reset_schema:
  assumes "schema_ok t" and "reset_spec uid t = Some (x, t')"
  shows "schema_ok t'"
proof (cases "map_of (users t) uid")
  case (Some u)
  let ?t1 = "t\<lparr>users := row_upd uid (u_balance_update (\<lambda>_. 0)) (users t)\<rparr>"
  have "schema_ok ?t1" using assms(1) by (intro schema_ok_balance) (auto simp: is_int64_def)
  moreover have "0 \<le> u_balance u"
    using assms(1) map_of_SomeD[OF Some] by (auto simp: schema_ok_def)
  ultimately have "u_balance u \<noteq> 0 \<Longrightarrow> schema_ok (?t1\<lparr>transactions := transactions ?t1 @
      [\<lparr>t_type = ''withdrawal'', t_user_id = uid, t_item_id = None, t_quantity = None, total_amount = - u_balance u\<rparr>]\<rparr>)"
    using Some by (intro schema_ok_tx) (auto simp: tx_check_def tx_fk_def map_of_row_upd)
  with assms Some show ?thesis by (auto simp: reset_spec_def split: if_splits)
qed (use assms in \<open>simp add: reset_spec_def\<close>)

lemma reset_books:
  assumes "reset_spec uid t = Some (x, t')" and "books_ok t"
  shows "books_ok t'"
proof (cases "map_of (users t) uid")
  case (Some u)
  show ?thesis
  proof (cases "u_balance u = 0")
    case False
    have us: "users t' = row_upd uid (u_balance_update (\<lambda>_. 0)) (users t)"
      and tx: "transactions t' = transactions t @ [\<lparr>t_type = ''withdrawal'', t_user_id = uid, t_item_id = None,
          t_quantity = None, total_amount = - u_balance u\<rparr>]"
      and same: "stock t' = stock t" "stock_logs t' = stock_logs t"
      using assms(1) Some False by (auto simp: reset_spec_def)
    show ?thesis
      by (rule books_okI[OF assms(2)])
        (auto simp: balance_of_upd[OF Some us] tx_total_snoc[OF tx]
            books_parts(3)[OF same(1)] books_parts(4)[OF same(2)])
  qed (use assms Some in \<open>simp add: reset_spec_def\<close>)
qed (use assms in \<open>simp add: reset_spec_def\<close>)

text \<open>Reading a balance changes nothing and answers with the balance (its low 32 bits), with
  \<^verbatim>\<open>BALANCE_NOT_FOUND\<close> for an unknown account, and with -1 only when SQLite fails.\<close>

lemma balance_reading:
  assumes "sqlite_contract sql_sem sq view faulty" and "txn (view db) = None"
    and "run sq (balance_get uid) db = (res, db')"
  shows "view db' = view db \<and>
    (res = (case map_of (users (committed (view db))) uid of
              None \<Rightarrow> (BALANCE_NOT_FOUND, None) | Some u \<Rightarrow> (0, Some (wrap32 (u_balance u)))) \<or>
     (faulty db \<and> res = (-1, None)))"
  using sqlite_contract.run_wp[OF assms(1) wp_balance_get[OF assms(2)] assms(3), of "faulty db"]
  by (auto simp: get_post_def split: option.splits)

end
