(* ===== verification/Orders_Service.thy ===== *)
theory Orders_Service
  imports Balance_Service
begin

text \<open>
  \<^verbatim>\<open>server/src/services/orders_service.c\<close>: a purchase, as one transaction that checks the stock and
  the balance, debits, takes a piece out of the slot and logs both.
\<close>

definition orders_purchase :: "int \<Rightarrow> int \<Rightarrow> int dbprog" where
  "orders_purchase user_id slot_id =
     Exec begin_sql (\<lambda>rc.
     if rc \<noteq> SQLITE_OK then Ret (-1) else
     Prepare item_sql (\<lambda>rc stmt.
     if rc \<noteq> SQLITE_OK then rollback (-1) else
     Bind stmt 1 (SqlInt slot_id) (
     Step stmt (\<lambda>rc row.
     if rc \<noteq> SQLITE_ROW then Finalize stmt (rollback (-1)) else
     (let item_id = column_int row 0;
          price = column_int row 1;
          quantity = column_int row 2 in
     Finalize stmt (
     if quantity \<le> 0 then rollback (-1) else
     Prepare sel_balance_sql (\<lambda>rc stmt.
     if rc \<noteq> SQLITE_OK then rollback (-1) else
     Bind stmt 1 (SqlInt user_id) (
     Step stmt (\<lambda>rc row.
     if rc \<noteq> SQLITE_ROW then Finalize stmt (rollback (-1)) else
     (let balance = column_int row 0 in
     Finalize stmt (
     if balance < price then rollback (-1) else
     Prepare upd_bal_sql (\<lambda>rc stmt.
     if rc \<noteq> SQLITE_OK then rollback (-1) else
     Bind stmt 1 (SqlInt price) (
     Bind stmt 2 (SqlInt user_id) (
     Step stmt (\<lambda>rc row.
     Finalize stmt (
     if rc \<noteq> SQLITE_DONE then rollback (-1) else
     Prepare upd_stock_sql (\<lambda>rc stmt.
     if rc \<noteq> SQLITE_OK then rollback (-1) else
     Bind stmt 1 (SqlInt slot_id) (
     Step stmt (\<lambda>rc row.
     Finalize stmt (
     if rc \<noteq> SQLITE_DONE then rollback (-1) else
     Prepare trx_sql (\<lambda>rc stmt.
     if rc \<noteq> SQLITE_OK then rollback (-1) else
     Bind stmt 1 (SqlInt user_id) (
     Bind stmt 2 (SqlInt item_id) (
     Bind stmt 3 (SqlInt (wrap32 (- price))) (
     Step stmt (\<lambda>rc row.
     Finalize stmt (
     if rc \<noteq> SQLITE_DONE then rollback (-1) else
     call (db_log_stock_change slot_id (-1) ''removal'') (\<lambda>rc.
     if rc \<noteq> 0 then rollback (-1) else
     Exec commit_sql (\<lambda>rc.
     if rc \<noteq> SQLITE_OK then rollback (-1) else
     Ret 0))))))))))))))))))))))))))))"

section \<open>Abstract specification\<close>

text \<open>A purchase goes through exactly when the slot exists and holds a piece, the account exists and
  covers a positive price.\<close>

definition purchase_spec :: "int \<Rightarrow> int \<Rightarrow> tables \<Rightarrow> tables option" where
  "purchase_spec uid slot t =
     (case (join_row t slot, map_of (users t) uid) of
        (Some (s, i), Some u) \<Rightarrow>
          (if 0 < s_quantity s \<and> i_price i \<le> u_balance u \<and> 0 < i_price i
           then Some (t\<lparr>
             users := row_upd uid (u_balance_update (\<lambda>_. u_balance u - i_price i)) (users t),
             stock := row_upd slot (s_quantity_update (\<lambda>_. s_quantity s - 1)) (stock t),
             transactions := transactions t @
               [\<lparr>t_type = ''purchase'', t_user_id = uid, t_item_id = Some (s_item_id s),
                 t_quantity = Some 1, total_amount = - i_price i\<rparr>],
             stock_logs := stock_logs t @
               [\<lparr>l_item_id = s_item_id s, change_type = ''removal'', quantity_changed = -1\<rparr>]\<rparr>)
           else None)
      | _ \<Rightarrow> None)"

text \<open>The columns that the purchase reads fit into a C \<^verbatim>\<open>int\<close>.\<close>

definition purchase_fits :: "int \<Rightarrow> int \<Rightarrow> tables \<Rightarrow> bool" where
  "purchase_fits uid slot t \<longleftrightarrow>
     (case join_row t slot of None \<Rightarrow> True
      | Some (s, i) \<Rightarrow> is_int32 (s_item_id s) \<and> is_int32 (i_price i) \<and> INT_MIN < i_price i \<and> is_int32 (s_quantity s)) \<and>
     (case map_of (users t) uid of None \<Rightarrow> True | Some u \<Rightarrow> 0 \<le> u_balance u \<and> u_balance u \<le> INT_MAX)"

section \<open>Lemmas\<close>

lemma wp_orders_purchase:
  assumes idle: "txn v = None" and fits: "purchase_fits uid slot (committed v)"
  shows "wp sql_sem f (orders_purchase uid slot) v (service_post f (purchase_spec uid slot (committed v)) v)"
proof (cases "join_row (committed v) slot")
  case None
  then show ?thesis
    unfolding orders_purchase_def using idle
    by (simp add: service_simps purchase_spec_def)
next
  case (Some p)
  then obtain s i where p: "join_row (committed v) slot = Some (s, i)" by (cases p) auto
  show ?thesis
  proof (cases "map_of (users (committed v)) uid")
    case None
    with p show ?thesis
      unfolding orders_purchase_def using idle
      by (simp add: service_simps purchase_spec_def)
  next
    case (Some u)
    from p have sl: "map_of (stock (committed v)) slot = Some s" "map_of (items (committed v)) (s_item_id s) = Some i"
      by (auto simp: join_row_def split: option.splits)
    show ?thesis
      using fits p Some sl idle
      unfolding orders_purchase_def db_log_stock_change_def
      by (simp add: service_simps purchase_spec_def purchase_fits_def wrap32_small wrap32_id is_int32_def
           set_balance_def set_quantity_def is_int64_def)
  qed
qed

section \<open>The specification keeps the data well formed and the books balanced\<close>

lemma purchase_specE:
  assumes "purchase_spec uid slot t = Some t'"
  obtains s i u where "map_of (stock t) slot = Some s" "map_of (items t) (s_item_id s) = Some i"
    "map_of (users t) uid = Some u" "0 < s_quantity s" "i_price i \<le> u_balance u" "0 < i_price i"
    "users t' = row_upd uid (u_balance_update (\<lambda>_. u_balance u - i_price i)) (users t)"
    "stock t' = row_upd slot (s_quantity_update (\<lambda>_. s_quantity s - 1)) (stock t)"
    "transactions t' = transactions t @
       [\<lparr>t_type = ''purchase'', t_user_id = uid, t_item_id = Some (s_item_id s), t_quantity = Some 1, total_amount = - i_price i\<rparr>]"
    "stock_logs t' = stock_logs t @
       [\<lparr>l_item_id = s_item_id s, change_type = ''removal'', quantity_changed = -1\<rparr>]"
    "items t' = items t" "user_seq t' = user_seq t"
  using assms that by (auto simp: purchase_spec_def join_row_def split: option.splits if_splits)

lemma purchase_schema:
  assumes "schema_ok t" and "purchase_spec uid slot t = Some t'"
  shows "schema_ok t'"
proof -
  from assms(2) obtain s i u where sp: "map_of (stock t) slot = Some s" "map_of (items t) (s_item_id s) = Some i"
      "map_of (users t) uid = Some u" "0 < s_quantity s" "i_price i \<le> u_balance u" "0 < i_price i"
    and t': "users t' = row_upd uid (u_balance_update (\<lambda>_. u_balance u - i_price i)) (users t)"
      "stock t' = row_upd slot (s_quantity_update (\<lambda>_. s_quantity s - 1)) (stock t)"
      "transactions t' = transactions t @
         [\<lparr>t_type = ''purchase'', t_user_id = uid, t_item_id = Some (s_item_id s), t_quantity = Some 1, total_amount = - i_price i\<rparr>]"
      "stock_logs t' = stock_logs t @
         [\<lparr>l_item_id = s_item_id s, change_type = ''removal'', quantity_changed = -1\<rparr>]"
      "items t' = items t" "user_seq t' = user_seq t"
    by (rule purchase_specE)
  from assms(1) map_of_SomeD[OF sp(1)] map_of_SomeD[OF sp(3)]
  have b: "is_int64 (u_balance u)" and q: "is_int64 (s_quantity s)" by (auto simp: schema_ok_def)
  let ?t1 = "t\<lparr>users := users t'\<rparr>"
  let ?t2 = "?t1\<lparr>stock := stock t'\<rparr>"
  let ?t3 = "?t2\<lparr>transactions := transactions t'\<rparr>"
  have "schema_ok ?t1" unfolding t' using assms(1) sp b by (intro schema_ok_balance) (auto simp: is_int64_def)
  then have "schema_ok ?t2" unfolding t'(2) using schema_ok_quantity[of ?t1 "s_quantity s - 1" slot] sp q by (simp add: is_int64_def)
  then have "schema_ok ?t3" unfolding t'(3)
    using schema_ok_tx[of ?t2 "\<lparr>t_type = ''purchase'', t_user_id = uid, t_item_id = Some (s_item_id s),
        t_quantity = Some 1, total_amount = - i_price i\<rparr>"] sp t'(1)
    by (simp add: tx_check_def tx_fk_def map_of_row_upd)
  then have "schema_ok (?t3\<lparr>stock_logs := stock_logs t'\<rparr>)" unfolding t'(4)
    using schema_ok_log[of ?t3 "\<lparr>l_item_id = s_item_id s, change_type = ''removal'', quantity_changed = -1\<rparr>"] sp
    by (simp add: log_check_def log_fk_def)
  moreover have "?t3\<lparr>stock_logs := stock_logs t'\<rparr> = t'" using t'(5,6) by (auto intro: tables.equality)
  ultimately show ?thesis by simp
qed

lemma purchase_books:
  assumes "schema_ok t" and "purchase_spec uid slot t = Some t'" and "books_ok t"
  shows "books_ok t'"
proof -
  from assms(1) have "rows_ok (stock t)" by (simp add: schema_ok_def)
  from assms(2) show ?thesis
    by (rule purchase_specE)
      (rule books_okI[OF assms(3)],
       auto simp: balance_of_upd tx_total_snoc pieces_of_upd[OF \<open>rows_ok (stock t)\<close>] log_total_snoc)
qed

interpretation purchase: audited_service "orders_purchase uid slot" "purchase_spec uid slot" "purchase_fits uid slot"
  for uid slot
  by unfold_locales (auto intro: wp_orders_purchase purchase_schema purchase_books)

end
