(* ===== verification/Products_Service.thy ===== *)
theory Products_Service
  imports Balance_Service
begin

text \<open>
  \<^verbatim>\<open>server/src/services/products_service.c\<close>: listing the machine, reading one slot, restocking and
  setting a price. The list is read row by row into an array that doubles when it is full; the
  model keeps the capacity and the rows written so far, and \<open>None\<close> in an out-parameter where the
  function leaves it unwritten.
\<close>

definition MAX_NAME_LEN :: nat where "MAX_NAME_LEN = 50"

record product_t =
  slot_id :: int
  p_item_id :: int
  p_name :: string
  price_gr :: int
  stock_qty :: int

definition row_product :: "sqlval list \<Rightarrow> product_t" where
  "row_product row =
     \<lparr>slot_id = column_int row 0, p_item_id = column_int row 1,
      p_name = fill_buf MAX_NAME_LEN (column_text row 2),
      price_gr = column_int row 3, stock_qty = column_int row 4\<rparr>"

text \<open>The \<^verbatim>\<open>while\<close> loop over \<^verbatim>\<open>sqlite3_step\<close>. It runs as long as SQLite returns rows; the fuel
  bounds the number of calls, and running out of it is the result \<open>None\<close>.\<close>

primrec list_loop :: "nat \<Rightarrow> nat \<Rightarrow> nat \<Rightarrow> product_t list \<Rightarrow> (int \<times> product_t list option) option dbprog" where
  "list_loop 0 stmt capacity products = Ret None"
| "list_loop (Suc n) stmt capacity products =
     Step stmt (\<lambda>rc row.
     if rc = SQLITE_ROW then
       (if length products = capacity then
          Malloc (\<lambda>ok.
          if \<not> ok then Finalize stmt (Ret (Some (-1, None)))
          else list_loop n stmt (2 * capacity) (products @ [row_product row]))
        else list_loop n stmt capacity (products @ [row_product row]))
     else Finalize stmt (
       if rc \<noteq> SQLITE_DONE then Ret (Some (-1, None)) else
       Ret (Some (0, Some products))))"

definition products_list :: "nat \<Rightarrow> (int \<times> product_t list option) option dbprog" where
  "products_list fuel =
     Prepare list_sql (\<lambda>rc stmt.
     if rc \<noteq> SQLITE_OK then Ret (Some (-1, None)) else
     Malloc (\<lambda>ok.
     if \<not> ok then Finalize stmt (Ret (Some (-1, None))) else
     list_loop fuel stmt 16 []))"

definition product_get :: "int \<Rightarrow> (int \<times> product_t option) dbprog" where
  "product_get slot =
     Prepare product_sql (\<lambda>rc stmt.
     if rc \<noteq> SQLITE_OK then Ret (-1, None) else
     Bind stmt 1 (SqlInt slot) (
     Step stmt (\<lambda>rc row.
     if rc \<noteq> SQLITE_ROW then Finalize stmt (Ret (-1, None)) else
     (let out = row_product row in
     Finalize stmt (Ret (0, Some out))))))"

definition product_restock :: "int \<Rightarrow> int \<Rightarrow> int dbprog" where
  "product_restock slot qty =
     (if qty \<le> 0 then Ret (-1) else
     Exec begin_sql (\<lambda>rc.
     if rc \<noteq> SQLITE_OK then Ret (-1) else
     Prepare restock_sql (\<lambda>rc stmt.
     if rc \<noteq> SQLITE_OK then rollback (-1) else
     Bind stmt 1 (SqlInt qty) (
     Bind stmt 2 (SqlInt slot) (
     Step stmt (\<lambda>rc row.
     Finalize stmt (
     if rc \<noteq> SQLITE_DONE then rollback (-1) else
     call (db_log_stock_change slot qty ''addition'') (\<lambda>rc.
     if rc \<noteq> 0 then rollback (-1) else
     Exec commit_sql (\<lambda>rc.
     if rc \<noteq> SQLITE_OK then rollback (-1) else
     Ret 0)))))))))"

definition product_update_price :: "int \<Rightarrow> int \<Rightarrow> int dbprog" where
  "product_update_price item pr =
     (if pr \<le> 0 then Ret (-1) else
     Prepare price_sql (\<lambda>rc stmt.
     if rc \<noteq> SQLITE_OK then Ret (-1) else
     Bind stmt 1 (SqlInt pr) (
     Bind stmt 2 (SqlInt item) (
     Step stmt (\<lambda>rc row.
     Finalize stmt (
     if rc \<noteq> SQLITE_DONE then Ret (-1) else
     Ret 0))))))"

section \<open>Abstract specifications\<close>

definition product_of :: "int \<times> stock_row \<times> item_row \<Rightarrow> product_t" where
  "product_of p = row_product (product_cols p)"

definition restock_spec :: "int \<Rightarrow> int \<Rightarrow> tables \<Rightarrow> tables option" where
  "restock_spec slot qty t =
     (case map_of (stock t) slot of
        None \<Rightarrow> None
      | Some s \<Rightarrow>
          (if qty \<le> 0 then None
           else Some (t\<lparr>
             stock := row_upd slot (s_quantity_update (\<lambda>_. s_quantity s + qty)) (stock t),
             stock_logs := stock_logs t @
               [\<lparr>l_item_id = s_item_id s, change_type = ''addition'', quantity_changed = qty\<rparr>]\<rparr>)))"

definition restock_fits :: "int \<Rightarrow> int \<Rightarrow> tables \<Rightarrow> bool" where
  "restock_fits slot qty t \<longleftrightarrow>
     (case map_of (stock t) slot of None \<Rightarrow> True
      | Some s \<Rightarrow> is_int32 (s_item_id s) \<and> map_of (items t) (s_item_id s) \<noteq> None \<and>
          0 \<le> s_quantity s \<and> s_quantity s + qty \<le> LONG_MAX)"

definition price_spec :: "int \<Rightarrow> int \<Rightarrow> tables \<Rightarrow> tables option" where
  "price_spec item p t =
     (if p \<le> 0 then None else Some (t\<lparr>items := row_upd item (i_price_update (\<lambda>_. p)) (items t)\<rparr>))"

definition list_post :: "bool \<Rightarrow> tables view \<Rightarrow> (int \<times> product_t list option) option \<Rightarrow> tables view \<Rightarrow> bool" where
  "list_post f v res v' \<longleftrightarrow> v' = v \<and>
     (res = Some (0, Some (map product_of (join_rows (committed v)))) \<or> (f \<and> res = Some (-1, None)))"

section \<open>Lemmas\<close>

lemma wp_list_loop:
  assumes "txn v = None" and "stmts v h = Some (Running rows)" and "length rows < n"
    and "m = (stmts v)(h := None)"
    and "Q (Some (0, Some (ps @ map row_product rows))) (v\<lparr>stmts := m\<rparr>)"
    and "f \<Longrightarrow> Q (Some (-1, None)) (v\<lparr>stmts := m\<rparr>)"
  shows "wp sql_sem f (list_loop n h cap ps) v Q"
  using assms
proof (induction n arbitrary: v rows cap ps)
  case (Suc n)
  show ?case
  proof (cases rows)
    case Nil
    with Suc.prems(1-3) Suc.prems(5,6)[unfolded Suc.prems(4)] show ?thesis
      by (simp add: wp_simps wp_err_def is_err_not del: fun_upd_apply)
  next
    case (Cons r rs)
    let ?v = "v\<lparr>stmts := (stmts v)(h \<mapsto> Running rs)\<rparr>"
    have "wp sql_sem f (list_loop n h c (ps @ [row_product r])) ?v Q" for c
      using Suc.prems Cons by (intro Suc.IH[of ?v rs]) (simp_all add: fun_upd_same del: fun_upd_apply)
    with Suc.prems(1-3) Suc.prems(5,6)[unfolded Suc.prems(4)] Cons show ?thesis
      by (simp add: wp_simps wp_err_def is_err_not del: fun_upd_apply)
  qed
qed simp

text \<open>The first step of a statement with rows is like the next step of a statement that already
  runs: one lemma for the loop serves both.\<close>

lemma wp_list_loop_Fresh:
  assumes "txn v = None" and "stmts v h = Some (Fresh list_sql a)"
    and "wp sql_sem f (list_loop (Suc n) h cap ps)
      (v\<lparr>stmts := (stmts v)(h \<mapsto> Running (map product_cols (join_rows (committed v))))\<rparr>) Q"
  shows "wp sql_sem f (list_loop (Suc n) h cap ps) v Q"
  using assms unfolding list_loop.simps
  by (cases "join_rows (committed v)") (simp_all add: wp_simps wp_err_def sql_sem_def)

lemma length_map_filter: "length (List.map_filter g xs) \<le> length xs"
  by (induction xs) (auto simp: map_filter_simps split: option.splits)

lemma length_join_rows: "length (join_rows t) \<le> length (stock t)"
  by (simp add: join_rows_def length_map_filter)

lemma wp_products_list:
  assumes idle: "txn v = None" and fuel: "length (stock (committed v)) < fuel"
  shows "wp sql_sem f (products_list fuel) v (list_post f v)"
proof -
  obtain n where n: "fuel = Suc n" using fuel by (cases fuel) auto
  have "wp sql_sem f (list_loop (Suc n) h 16 [])
      (v\<lparr>stmts := (stmts v)(h \<mapsto> Fresh list_sql (\<lambda>_. SqlNull))\<rparr>) (list_post f v)" if h: "stmts v h = None" for h
  proof (rule wp_list_loop_Fresh)
    let ?rows = "map product_cols (join_rows (committed v))"
    show "wp sql_sem f (list_loop (Suc n) h 16 [])
      (v\<lparr>stmts := (stmts v)(h \<mapsto> Fresh list_sql (\<lambda>_. SqlNull))\<rparr>\<lparr>stmts :=
         (stmts (v\<lparr>stmts := (stmts v)(h \<mapsto> Fresh list_sql (\<lambda>_. SqlNull))\<rparr>))(h \<mapsto> Running
           (map product_cols (join_rows (committed (v\<lparr>stmts := (stmts v)(h \<mapsto> Fresh list_sql (\<lambda>_. SqlNull))\<rparr>)))))\<rparr>)
      (list_post f v)"
    proof (rule wp_list_loop[where rows = ?rows and m = "stmts v"], goal_cases)
      case 3
      show ?case using fuel n length_join_rows[of "committed v"] by simp
    next
      case 4
      show ?case using h by (simp add: fun_upd_same del: fun_upd_apply)
    qed (simp_all add: idle list_post_def product_of_def comp_def)
  qed (simp_all add: idle)
  with idle show ?thesis
    unfolding products_list_def n by (simp add: wp_simps list_post_def is_err_not del: list_loop.simps)
qed

lemma wp_product_get:
  assumes "txn v = None"
  shows "wp sql_sem f (product_get slot) v
    (\<lambda>res v'. v' = v \<and>
       (case join_row (committed v) slot of
          None \<Rightarrow> res = (-1, None)
        | Some (s, i) \<Rightarrow> res = (0, Some (product_of (slot, s, i))) \<or> (f \<and> res = (-1, None))))"
  unfolding product_get_def
  using assms by (cases "join_row (committed v) slot") (auto simp add: service_simps product_of_def)

lemma wp_product_restock:
  assumes idle: "txn v = None" and fits: "restock_fits slot qty (committed v)"
  shows "wp sql_sem f (product_restock slot qty) v (service_post f (restock_spec slot qty (committed v)) v)"
proof (cases "map_of (stock (committed v)) slot")
  case None
  then show ?thesis
    unfolding product_restock_def db_log_stock_change_def
    using idle by (simp add: service_simps restock_spec_def)
next
  case (Some s)
  with fits show ?thesis
    unfolding product_restock_def db_log_stock_change_def
    using idle by (simp add: restock_fits_def service_simps restock_spec_def set_quantity_def is_int64_def wrap32_id)
qed

lemma wp_product_update_price:
  assumes idle: "txn v = None"
  shows "wp sql_sem f (product_update_price item p) v (service_post f (price_spec item p (committed v)) v)"
  unfolding product_update_price_def
  using idle by (simp add: service_simps price_spec_def)

section \<open>The specifications keep the data well formed and the books balanced\<close>

lemma restock_specE:
  assumes "restock_spec slot qty t = Some t'"
  obtains s where "map_of (stock t) slot = Some s" "0 < qty"
    "t' = t\<lparr>stock := row_upd slot (s_quantity_update (\<lambda>_. s_quantity s + qty)) (stock t),
       stock_logs := stock_logs t @
         [\<lparr>l_item_id = s_item_id s, change_type = ''addition'', quantity_changed = qty\<rparr>]\<rparr>"
  using assms that by (auto simp: restock_spec_def split: option.splits if_splits)

lemma restock_schema:
  assumes "schema_ok t" and "restock_fits slot qty t" and "restock_spec slot qty t = Some t'"
  shows "schema_ok t'"
proof -
  from assms(3) obtain s where s: "map_of (stock t) slot = Some s" "0 < qty"
    and t': "t' = t\<lparr>stock := row_upd slot (s_quantity_update (\<lambda>_. s_quantity s + qty)) (stock t),
       stock_logs := stock_logs t @
         [\<lparr>l_item_id = s_item_id s, change_type = ''addition'', quantity_changed = qty\<rparr>]\<rparr>"
    by (rule restock_specE)
  let ?t1 = "t\<lparr>stock := row_upd slot (s_quantity_update (\<lambda>_. s_quantity s + qty)) (stock t)\<rparr>"
  have "schema_ok ?t1"
    using assms s by (intro schema_ok_quantity) (auto simp: restock_fits_def is_int64_def)
  then have "schema_ok (?t1\<lparr>stock_logs := stock_logs ?t1 @
      [\<lparr>l_item_id = s_item_id s, change_type = ''addition'', quantity_changed = qty\<rparr>]\<rparr>)"
    using assms s by (intro schema_ok_log) (auto simp: log_check_def log_fk_def restock_fits_def)
  with t' show ?thesis by simp
qed

lemma restock_books:
  assumes "schema_ok t" and "restock_spec slot qty t = Some t'" and "books_ok t"
  shows "books_ok t'"
proof -
  from assms(1) have "rows_ok (stock t)" by (simp add: schema_ok_def)
  from assms(2) obtain s where s: "map_of (stock t) slot = Some s"
    and t': "t' = t\<lparr>stock := row_upd slot (s_quantity_update (\<lambda>_. s_quantity s + qty)) (stock t),
       stock_logs := stock_logs t @
         [\<lparr>l_item_id = s_item_id s, change_type = ''addition'', quantity_changed = qty\<rparr>]\<rparr>"
    by (rule restock_specE)
  show ?thesis
  proof (rule books_okI[OF assms(3)])
    fix uid show "balance_of uid t' - balance_of uid t = tx_total uid t' - tx_total uid t"
      by (simp add: t' balance_of_def tx_total_def)
    fix i show "pieces_of i t' - pieces_of i t = log_total i t' - log_total i t"
      using t' by (simp add: pieces_of_upd[OF \<open>rows_ok (stock t)\<close> s] log_total_snoc)
  qed
qed

lemma price_schema: "schema_ok t \<Longrightarrow> price_spec item p t = Some t' \<Longrightarrow> schema_ok t'"
  by (auto simp: price_spec_def schema_ok_price split: if_splits)

lemma price_books: "price_spec item p t = Some t' \<Longrightarrow> books_ok t \<Longrightarrow> books_ok t'"
  by (auto simp: price_spec_def books_ok_def balance_of_def tx_total_def pieces_of_def log_total_def split: if_splits)

interpretation restock: audited_service "product_restock slot qty" "restock_spec slot qty" "restock_fits slot qty"
  for slot qty
  by unfold_locales (auto intro: wp_product_restock restock_schema restock_books)

interpretation set_price: audited_service "product_update_price item p" "price_spec item p" "\<lambda>_. True"
  for item p
  by unfold_locales (auto intro: wp_product_update_price price_schema price_books)

end
