(* ===== verification/Users_Service.thy ===== *)
theory Users_Service
  imports Balance_Service
begin

text \<open>
  \<^verbatim>\<open>server/src/services/users_service.c\<close>: the account of an SSH key, created on its first visit.
\<close>

definition users_lookup :: "string \<Rightarrow> int dbprog" where
  "users_lookup fp =
     Exec begin_sql (\<lambda>rc.
     if rc \<noteq> SQLITE_OK then Ret (-1) else
     Prepare upsert_sql (\<lambda>rc stmt.
     if rc \<noteq> SQLITE_OK then rollback (-1) else
     Bind stmt 1 (SqlText fp) (
     Step stmt (\<lambda>rc row.
     if rc \<noteq> SQLITE_ROW then Finalize stmt (rollback (-1)) else
     (let user_id = column_int row 0 in
     Finalize stmt (
     Exec commit_sql (\<lambda>rc.
     if rc \<noteq> SQLITE_OK then rollback (-1) else
     Ret user_id)))))))"

section \<open>Abstract specification\<close>

text \<open>The account of a fingerprint and the tables afterwards. A known fingerprint changes no row (the
  id counter may advance); a new one gets the next id and an empty account.\<close>

definition lookup_spec :: "string \<Rightarrow> tables \<Rightarrow> int \<Rightarrow> tables \<Rightarrow> bool" where
  "lookup_spec fp t uid t' =
     (case user_of_fingerprint fp t of
        Some u \<Rightarrow> uid = u \<and> (t' = t \<or> t' = t\<lparr>user_seq := user_seq t + 1\<rparr>)
      | None \<Rightarrow> uid = user_seq t + 1 \<and> uid \<le> LONG_MAX \<and>
          t' = insert_user uid \<lparr>u_fingerprint = Some fp, u_balance = 0\<rparr> t)"

definition lookup_post :: "bool \<Rightarrow> string \<Rightarrow> tables view \<Rightarrow> int \<Rightarrow> tables view \<Rightarrow> bool" where
  "lookup_post f fp v r v' \<longleftrightarrow>
     txn v' = None \<and> stmts v' = stmts v \<and>
     ((\<exists>uid. lookup_spec fp (committed v) uid (committed v') \<and> r = wrap32 uid) \<or>
      (r = -1 \<and> committed v' = committed v \<and>
        (f \<or> (user_of_fingerprint fp (committed v) = None \<and> LONG_MAX \<le> user_seq (committed v)))))"

section \<open>Lemmas\<close>

lemma wp_users_lookup:
  assumes idle: "txn v = None"
  shows "wp sql_sem f (users_lookup fp) v (lookup_post f fp v)"
proof (cases "user_of_fingerprint fp (committed v)")
  case None
  then show ?thesis
    unfolding users_lookup_def using idle
    by (simp add: service_simps lookup_post_def lookup_spec_def)
next
  case (Some u)
  then show ?thesis
    unfolding users_lookup_def using idle
    by (simp add: service_simps lookup_post_def lookup_spec_def)
qed

section \<open>The specification keeps the data well formed and the books balanced\<close>

lemma user_seq_fresh: "schema_ok t \<Longrightarrow> user_seq t < uid \<Longrightarrow> map_of (users t) uid = None"
  by (rule ccontr) (auto simp: schema_ok_def dest!: map_of_SomeD)

lemma schema_ok_seq: "schema_ok t \<Longrightarrow> schema_ok (t\<lparr>user_seq := user_seq t + 1\<rparr>)"
  unfolding schema_ok_def by (auto simp: tx_fk_def log_fk_def split: option.splits)

lemma lookup_schema:
  assumes "schema_ok t" and "lookup_spec fp t uid t'"
  shows "schema_ok t'"
proof (cases "user_of_fingerprint fp t")
  case None
  with assms show ?thesis
    by (auto simp: lookup_spec_def is_int64_def user_seq_fresh intro!: schema_ok_insert_user)
qed (use assms in \<open>auto simp: lookup_spec_def schema_ok_seq\<close>)

lemma lookup_books:
  assumes "schema_ok t" and "lookup_spec fp t uid t'" and "books_ok t"
  shows "books_ok t'"
proof (cases "user_of_fingerprint fp t")
  case None
  with assms have t': "t' = insert_user uid \<lparr>u_fingerprint = Some fp, u_balance = 0\<rparr> t" and "user_seq t < uid"
    by (auto simp: lookup_spec_def)
  then have new: "map_of (users t) uid = None" using assms(1) user_seq_fresh by blast
  show ?thesis
  proof (rule books_okI[OF assms(3)])
    fix uid' show "balance_of uid' t' - balance_of uid' t = tx_total uid' t' - tx_total uid' t"
      using t' balance_of_ins[OF new, of t'] by (simp add: insert_user_def tx_total_def)
    fix i show "pieces_of i t' - pieces_of i t = log_total i t' - log_total i t"
      by (simp add: t' insert_user_def pieces_of_def log_total_def)
  qed
qed (use assms in \<open>auto simp: lookup_spec_def books_ok_def balance_of_def tx_total_def pieces_of_def log_total_def\<close>)

text \<open>After a lookup the fingerprint has an account, a new one is empty, and the others are untouched.\<close>

lemma find_row_ins:
  "List.find P rs = None \<Longrightarrow> List.find P (row_ins k r rs) = (if P (k, r) then Some (k, r) else None)"
  by (induction k r rs rule: row_ins.induct) (auto split: if_splits)

lemma lookup_spec_account:
  assumes "schema_ok t" and "lookup_spec fp t uid t'"
  shows "user_of_fingerprint fp t' = Some uid"
    and "user_of_fingerprint fp t = None \<Longrightarrow> uid = user_seq t + 1 \<and> balance_of uid t' = 0"
    and "user_of_fingerprint fp t \<noteq> None \<Longrightarrow> users t' = users t"
    and "u \<noteq> uid \<Longrightarrow> map_of (users t') u = map_of (users t) u"
proof -
  show "user_of_fingerprint fp t' = Some uid"
    using assms(2) by (auto simp: lookup_spec_def user_of_fingerprint_def insert_user_def find_row_ins split: option.splits)
  have new: "map_of (users t) (user_seq t + 1) = None" using user_seq_fresh[OF assms(1), of "user_seq t + 1"] by simp
  show "user_of_fingerprint fp t = None \<Longrightarrow> uid = user_seq t + 1 \<and> balance_of uid t' = 0"
    using assms(2) new by (auto simp: lookup_spec_def insert_user_def balance_of_def map_of_row_ins)
  show "user_of_fingerprint fp t \<noteq> None \<Longrightarrow> users t' = users t"
    using assms(2) by (auto simp: lookup_spec_def)
  show "u \<noteq> uid \<Longrightarrow> map_of (users t') u = map_of (users t) u"
    using assms(2) new by (auto simp: lookup_spec_def insert_user_def map_of_row_ins split: option.splits)
qed

end
