(* ===== verification/Handlers.thy ===== *)
theory Handlers
  imports Http_Request Orders_Service Products_Service Users_Service
begin

text \<open>
  The request handlers, \<^verbatim>\<open>server/src/api/router/handlers\<close>: each is a database program whose result is
  what the handler does to the socket. Every file has its own \<^verbatim>\<open>send_json\<close> with its own buffer and
  status texts. \<^verbatim>\<open>snprintf\<close> returns the length the whole response would have, and that length is
  what \<^verbatim>\<open>send\<close> is given; a response longer than the buffer is the result \<open>Overread\<close>. Writing past
  the end of an allocated block is \<open>Overflow\<close>; a loop that used up its fuel is \<open>Diverged\<close>.
\<close>

section \<open>Responses\<close>

datatype http_out = Sent string | Overread string nat | Overflow | Diverged

definition json_response :: "string \<Rightarrow> string \<Rightarrow> string" where
  "json_response status_str body =
     ''HTTP/1.1 '' @ status_str @ crlf @ ''Content-Type: application/json'' @ crlf @
     ''Content-Length: '' @ show_nat (length body) @ crlf @ crlf @ body"

definition snprintf_send :: "nat \<Rightarrow> string \<Rightarrow> http_out" where
  "snprintf_send sz text =
     (let len = length text in
      if len < sz then Sent text
      else if len = sz then Sent (take (sz - 1) text @ [CHR 0x00])
      else Overread (take (sz - 1) text) len)"

definition send_json_admin :: "int \<Rightarrow> string \<Rightarrow> http_out" where
  "send_json_admin status body =
     snprintf_send 512 (json_response
       (if status = 200 then ''200 OK''
        else if status = 400 then ''400 Bad Request''
        else if status = 403 then ''403 Forbidden''
        else ''500 Internal Server Error'') body)"

definition send_json_balance :: "int \<Rightarrow> string \<Rightarrow> http_out" where
  "send_json_balance status body =
     snprintf_send 512 (json_response
       (if status = 200 then ''200 OK''
        else if status = 400 then ''400 Bad Request''
        else if status = 401 then ''401 Unauthorized''
        else if status = 404 then ''404 Not Found''
        else ''500 Internal Server Error'') body)"

definition send_json_orders :: "int \<Rightarrow> string \<Rightarrow> http_out" where
  "send_json_orders status body =
     snprintf_send 512 (json_response
       (if status = 200 then ''200 OK''
        else if status = 400 then ''400 Bad Request''
        else if status = 401 then ''401 Unauthorized''
        else ''500 Internal Server Error'') body)"

definition send_json_products :: "int \<Rightarrow> string \<Rightarrow> http_out" where
  "send_json_products status body =
     snprintf_send 8192 (json_response
       (if status = 200 then ''200 OK''
        else if status = 404 then ''404 Not Found''
        else ''500 Internal Server Error'') body)"

definition send_json_users :: "int \<Rightarrow> string \<Rightarrow> http_out" where
  "send_json_users status body =
     snprintf_send 512 (json_response
       (if status = 200 then ''200 OK''
        else if status = 400 then ''400 Bad Request''
        else ''500 Internal Server Error'') body)"

section \<open>\<open>admin.c\<close>\<close>

definition handle_post_restock :: "request_t \<Rightarrow> http_out dbprog" where
  \<open>handle_post_restock req =
     (if role (req_auth req) \<noteq> AUTH_ADMIN
      then Ret (send_json_admin 403 ''{"error":"forbidden"}'')
      else case sscanf1_int ''/stock/%d'' (req_path req) of
        None \<Rightarrow> Ret (send_json_admin 400 ''{"error":"invalid path"}'')
      | Some slot \<Rightarrow>
          (case sscanf1_int ''{"qty":%d}'' (req_body req) of
             None \<Rightarrow> Ret (send_json_admin 400 ''{"error":"missing qty"}'')
           | Some qty \<Rightarrow>
               call (product_restock slot qty) (\<lambda>rc.
               if rc \<noteq> 0 then Ret (send_json_admin 500 ''{"error":"restock failed"}'')
               else Ret (send_json_admin 200 ''{"ok":true}''))))\<close>

definition handle_post_update_price :: "request_t \<Rightarrow> http_out dbprog" where
  \<open>handle_post_update_price req =
     (if role (req_auth req) \<noteq> AUTH_ADMIN
      then Ret (send_json_admin 403 ''{"error":"forbidden"}'')
      else case sscanf1_int ''/items/%d'' (req_path req) of
        None \<Rightarrow> Ret (send_json_admin 400 ''{"error":"invalid path"}'')
      | Some item_id \<Rightarrow>
          (case sscanf1_int ''{"price_gr":%d}'' (req_body req) of
             None \<Rightarrow> Ret (send_json_admin 400 ''{"error":"missing price_gr"}'')
           | Some price \<Rightarrow>
               call (product_update_price item_id price) (\<lambda>rc.
               if rc \<noteq> 0 then Ret (send_json_admin 500 ''{"error":"update failed"}'')
               else Ret (send_json_admin 200 ''{"ok":true}''))))\<close>

section \<open>\<open>balance.c\<close>\<close>

definition handle_get_balance :: "request_t \<Rightarrow> http_out dbprog" where
  \<open>handle_get_balance req =
     (if role (req_auth req) = AUTH_NONE
      then Ret (send_json_balance 401 ''{"error":"unauthorized"}'')
      else call (balance_get (user_id (req_auth req))) (\<lambda>(rc, balance_gr).
        if rc = BALANCE_NOT_FOUND then Ret (send_json_balance 404 ''{"error":"user not found"}'')
        else if rc \<noteq> 0 then Ret (send_json_balance 500 ''{"error":"internal error"}'')
        else Ret (send_json_balance 200
          (fill_buf 64 (''{"balance_gr":'' @ show_int (the balance_gr) @ ''}'')))))\<close>

definition handle_post_deposit :: "request_t \<Rightarrow> http_out dbprog" where
  \<open>handle_post_deposit req =
     (if role (req_auth req) = AUTH_NONE
      then Ret (send_json_balance 401 ''{"error":"unauthorized"}'')
      else case sscanf1_int ''{"amount_gr":%d}'' (req_body req) of
        None \<Rightarrow> Ret (send_json_balance 400 ''{"error":"missing amount_gr"}'')
      | Some amount_gr \<Rightarrow>
          call (balance_deposit (user_id (req_auth req)) amount_gr) (\<lambda>rc.
          if rc \<noteq> 0 then Ret (send_json_balance 500 ''{"error":"internal error"}'')
          else Ret (send_json_balance 200 ''{"ok":true}'')))\<close>

definition handle_delete_balance :: "request_t \<Rightarrow> http_out dbprog" where
  \<open>handle_delete_balance req =
     (if role (req_auth req) = AUTH_NONE
      then Ret (send_json_balance 401 ''{"error":"unauthorized"}'')
      else call (balance_reset (user_id (req_auth req))) (\<lambda>(rc, refund_gr).
        if rc = BALANCE_NOT_FOUND then Ret (send_json_balance 404 ''{"error":"user not found"}'')
        else if rc \<noteq> 0 then Ret (send_json_balance 500 ''{"error":"internal error"}'')
        else Ret (send_json_balance 200
          (fill_buf 64 (''{"refund_gr":'' @ show_int (the refund_gr) @ ''}'')))))\<close>

section \<open>\<open>debug.c\<close> and \<open>orders.c\<close>\<close>

text \<open>The ten seconds of sleep are left out.\<close>

definition handle_get_slow :: "request_t \<Rightarrow> http_out dbprog" where
  "handle_get_slow req =
     Ret (Sent (''HTTP/1.1 200 OK'' @ crlf @ ''Content-Type: text/plain'' @ crlf @
       ''Content-Length: 2'' @ crlf @ crlf @ ''ok''))"

definition handle_post_purchase :: "request_t \<Rightarrow> http_out dbprog" where
  \<open>handle_post_purchase req =
     (if role (req_auth req) = AUTH_NONE
      then Ret (send_json_orders 401 ''{"error":"unauthorized"}'')
      else case sscanf1_int ''{"slot_id":%d}'' (req_body req) of
        None \<Rightarrow> Ret (send_json_orders 400 ''{"error":"missing slot_id"}'')
      | Some slot \<Rightarrow>
          call (orders_purchase (user_id (req_auth req)) slot) (\<lambda>rc.
          if rc \<noteq> 0 then Ret (send_json_orders 500 ''{"error":"purchase failed"}'')
          else Ret (send_json_orders 200 ''{"ok":true}'')))\<close>

section \<open>\<open>products.c\<close>\<close>

text \<open>One \<^verbatim>\<open>sprintf\<close> behind the text that is in the block already, with its terminating NUL.\<close>

definition sprintf_at :: "nat \<Rightarrow> string \<Rightarrow> string \<Rightarrow> string option" where
  "sprintf_at cap body text = (if length body + length text < cap then Some (body @ text) else None)"

definition product_json :: "product_t \<Rightarrow> string" where
  \<open>product_json p =
     ''{"slot_id":'' @ show_int (slot_id p) @ '',"item_id":'' @ show_int (p_item_id p) @
     '',"name":"'' @ p_name p @ ''","price_gr":'' @ show_int (price_gr p) @
     '',"stock_qty":'' @ show_int (stock_qty p) @ ''}''\<close>

primrec stock_loop :: "nat \<Rightarrow> nat \<Rightarrow> product_t list \<Rightarrow> string \<Rightarrow> string option" where
  "stock_loop cap i [] body = Some body"
| "stock_loop cap i (p # ps) body =
     (case sprintf_at cap body ((if 0 < i then '','' else '''') @ product_json p) of
        None \<Rightarrow> None
      | Some body' \<Rightarrow> stock_loop cap (Suc i) ps body')"

definition stock_body :: "product_t list \<Rightarrow> string option" where
  "stock_body products =
     (let cap = length products * 128 + 8 in
      case sprintf_at cap [] ''['' of
        None \<Rightarrow> None
      | Some b \<Rightarrow>
          (case stock_loop cap 0 products b of
             None \<Rightarrow> None
           | Some b' \<Rightarrow> sprintf_at cap b' '']''))"

definition handle_get_stock :: "nat \<Rightarrow> request_t \<Rightarrow> http_out dbprog" where
  \<open>handle_get_stock fuel req =
     call (products_list fuel) (\<lambda>res.
       case res of
         None \<Rightarrow> Ret Diverged
       | Some (rc, products) \<Rightarrow>
           (if rc \<noteq> 0 then Ret (send_json_products 500 ''{"error":"internal error"}'')
            else Malloc (\<lambda>ok.
              if \<not> ok then Ret (send_json_products 500 ''{"error":"internal error"}'')
              else case stock_body (the products) of
                     None \<Rightarrow> Ret Overflow
                   | Some body \<Rightarrow> Ret (send_json_products 200 body))))\<close>

section \<open>\<open>users.c\<close>\<close>

definition handle_lookup_user :: "request_t \<Rightarrow> http_out dbprog" where
  \<open>handle_lookup_user req =
     (case sscanf '' {"fingerprint" : "%127[^"]" }'' (req_body req) of
        [VStr fingerprint] \<Rightarrow>
          call (users_lookup fingerprint) (\<lambda>uid.
          if uid = -1 then Ret (send_json_users 500 ''{"error":"lookup failed"}'')
          else Ret (send_json_users 200
            (fill_buf 64 (''{"user_id":'' @ show_int uid @ ''}''))))
      | _ \<Rightarrow> Ret (send_json_users 400 ''{"error":"missing fingerprint"}''))\<close>

section \<open>Specifications\<close>

text \<open>The JSON list of all products.\<close>

definition stock_json :: "product_t list \<Rightarrow> string" where
  "stock_json ps = ''['' @ join_with '','' (map product_json ps) @ '']''"

text \<open>The sizes within which the fixed-width arithmetic and the fixed buffers of the server are exact:
  balances, prices and quantities fit into an \<^verbatim>\<open>int\<close>, product names take at most 25 bytes (an entry of
  the product list then fits into its 128 bytes whatever its numbers are), and the machine has at
  most 63 slots (the list then fits into the response buffer).\<close>

definition machine_limits :: "tables \<Rightarrow> bool" where
  "machine_limits t \<longleftrightarrow>
     (\<forall>p \<in> set (users t). u_balance (snd p) \<le> INT_MAX) \<and>
     (\<forall>p \<in> set (stock t). is_int32 (s_item_id (snd p)) \<and> s_quantity (snd p) \<le> INT_MAX) \<and>
     (\<forall>p \<in> set (items t). INT_MIN < i_price (snd p) \<and> i_price (snd p) \<le> INT_MAX \<and> length (i_name (snd p)) \<le> 25) \<and>
     length (stock t) \<le> 63"

text \<open>What every handler promises, started with no transaction open: a complete response, no
  transaction and no statement left open, and the data well formed with balanced books.\<close>

definition handler_post :: "tables view \<Rightarrow> http_out \<Rightarrow> tables view \<Rightarrow> bool" where
  "handler_post v out v' \<longleftrightarrow>
     (\<exists>text. out = Sent text) \<and> txn v' = None \<and> stmts v' = stmts v \<and>
     schema_ok (committed v') \<and> books_ok (committed v')"

locale audited_handler =
  fixes prog :: "http_out dbprog"
    and fits :: "tables \<Rightarrow> bool"
  assumes serves: "txn v = None \<Longrightarrow> schema_ok (committed v) \<Longrightarrow> books_ok (committed v) \<Longrightarrow>
    fits (committed v) \<Longrightarrow> wp sql_sem f prog v (handler_post v)"
begin

lemma run_serves:
  assumes "sqlite_contract sql_sem sq view faulty" and "txn (view db) = None"
    and "schema_ok (committed (view db))" and "books_ok (committed (view db))" and "fits (committed (view db))"
    and "run sq prog db = (out, db')"
  shows "handler_post (view db) out (view db')"
  using sqlite_contract.run_wp[OF assms(1) serves[OF assms(2-5)] assms(6), of "faulty db"] by simp

end

section \<open>Lemmas: responses\<close>

lemma length_json_response:
  "length (json_response st body) = 63 + length st + length (show_nat (length body)) + length body"
  by (simp add: json_response_def)

lemma small_response:
  assumes "length st \<le> 25" and "length body \<le> 64"
  shows "snprintf_send 512 (json_response st body) = Sent (json_response st body)"
  using assms show_nat_length[of "length body" 2]
  by (simp add: snprintf_send_def length_json_response)

lemma send_json_small:
  assumes "length body \<le> 64"
  shows "\<exists>text. send_json_admin st body = Sent text" "\<exists>text. send_json_balance st body = Sent text"
    "\<exists>text. send_json_orders st body = Sent text" "\<exists>text. send_json_users st body = Sent text"
  by (simp_all add: send_json_admin_def send_json_balance_def send_json_orders_def send_json_users_def
      small_response[OF _ assms])

lemma fill_buf_64: "length (fill_buf 64 s) \<le> 64"
  by (simp add: fill_buf_def)

lemma stock_response:
  assumes "length body \<le> 8072"
  shows "send_json_products st body =
    Sent (json_response (if st = 200 then ''200 OK'' else if st = 404 then ''404 Not Found'' else ''500 Internal Server Error'') body)"
  using assms show_nat_length[of "length body" 4]
  by (auto simp: send_json_products_def snprintf_send_def length_json_response)

section \<open>Lemmas: the product list\<close>

lemma length_product_json:
  "is_int32 (slot_id p) \<Longrightarrow> is_int32 (p_item_id p) \<Longrightarrow> is_int32 (price_gr p) \<Longrightarrow> is_int32 (stock_qty p) \<Longrightarrow>
   length (product_json p) \<le> 102 + length (p_name p)"
  using show_int_length[of "slot_id p"] show_int_length[of "p_item_id p"]
    show_int_length[of "price_gr p"] show_int_length[of "stock_qty p"]
  by (simp add: product_json_def)

lemma row_product_range:
  "is_int32 (slot_id (row_product row))" "is_int32 (p_item_id (row_product row))"
  "is_int32 (price_gr (row_product row))" "is_int32 (stock_qty (row_product row))"
  by (simp_all add: row_product_def column_int_range)

lemma stock_loop_entries:
  "\<forall>p \<in> set ps. length (product_json p) \<le> 127 \<Longrightarrow> length body + 128 * length ps < cap \<Longrightarrow>
   stock_loop cap i ps body =
     Some (body @ (if ps \<noteq> [] \<and> 0 < i then '','' else []) @ join_with '','' (map product_json ps))"
proof (induction ps arbitrary: i body)
  case (Cons p ps)
  let ?e = "(if 0 < i then '','' else []) @ product_json p"
  have e: "length ?e \<le> 128" using Cons.prems(1) by auto
  then have "sprintf_at cap body ?e = Some (body @ ?e)"
    using Cons.prems(2) by (simp add: sprintf_at_def)
  moreover have "stock_loop cap (Suc i) ps (body @ ?e) =
      Some ((body @ ?e) @ (if ps \<noteq> [] then '','' else []) @ join_with '','' (map product_json ps))"
    using Cons.prems e by (subst Cons.IH) auto
  ultimately show ?case by (cases ps) auto
qed simp

lemma join_with_bound: "\<forall>x \<in> set xs. length x \<le> n \<Longrightarrow> length (join_with '','' xs) \<le> Suc n * length xs"
  by (induction "'',''" xs rule: join_with.induct) auto

lemma stock_body_json:
  assumes "\<forall>p \<in> set ps. length (product_json p) \<le> 127"
  shows "stock_body ps = Some (stock_json ps)" and "length (stock_json ps) \<le> 128 * length ps + 2"
proof -
  have j: "length (join_with '','' (map product_json ps)) \<le> 128 * length ps"
    using join_with_bound[of "map product_json ps" 127] assms by simp
  then show "length (stock_json ps) \<le> 128 * length ps + 2" by (simp add: stock_json_def)
  show "stock_body ps = Some (stock_json ps)"
    using j assms by (simp add: stock_body_def sprintf_at_def stock_loop_entries stock_json_def)
qed

lemma join_rows_sub: "p \<in> set (join_rows t) \<Longrightarrow> \<exists>k. (k, snd (snd p)) \<in> set (items t)"
  by (fastforce simp: join_rows_def map_filter_def dest: map_of_SomeD)

lemma product_of_short:
  assumes "machine_limits t" and "p \<in> set (join_rows t)"
  shows "length (product_json (product_of p)) \<le> 127"
proof -
  obtain k where "(k, snd (snd p)) \<in> set (items t)" using join_rows_sub[OF assms(2)] by blast
  then have n: "length (i_name (snd (snd p))) \<le> 25" using assms(1) by (force simp: machine_limits_def)
  have "p_name (product_of p) = fill_buf MAX_NAME_LEN (i_name (snd (snd p)))"
    by (cases p) (simp add: product_of_def row_product_def product_cols_def)
  with n have "length (p_name (product_of p)) \<le> 25" by (simp add: fill_buf_def)
  moreover have "length (product_json (product_of p)) \<le> 102 + length (p_name (product_of p))"
    unfolding product_of_def by (intro length_product_json row_product_range)
  ultimately show ?thesis by simp
qed

section \<open>Lemmas: the handlers\<close>

lemma wp_callI:
  "wp sem f p v Q \<Longrightarrow> (\<And>x v1. Q x v1 \<Longrightarrow> wp sem f (g x) v1 R) \<Longrightarrow> wp sem f (call p g) v R"
  unfolding wp_call by (rule wp_mono)

lemma sscanf1_int_range: "sscanf1_int fmt s = Some n \<Longrightarrow> is_int32 n"
proof -
  have range: "VInt n \<in> set (scan ds x) \<Longrightarrow> is_int32 n" for ds x
    by (induction ds x rule: scan.induct) (auto simp: Let_def dest: sym split: option.splits list.splits if_splits)
  assume "sscanf1_int fmt s = Some n"
  then have "VInt n \<in> set (sscanf fmt s)"
    by (auto simp: sscanf1_int_def split: list.splits scanval.splits)
  then show "is_int32 n" unfolding sscanf_def by (rule range)
qed

text \<open>A reply that no database call precedes.\<close>

lemma wp_reply:
  "txn v = None \<Longrightarrow> schema_ok (committed v) \<Longrightarrow> books_ok (committed v) \<Longrightarrow> \<exists>text. out = Sent text \<Longrightarrow>
   wp sql_sem f (Ret out) v (handler_post v)"
  by (simp add: wp_simps handler_post_def)

context audited_service
begin

text \<open>A handler around one audited service replies after it with the tables as the service left them.\<close>

lemma wp_handler:
  assumes "txn v = None" and "schema_ok (committed v)" and "books_ok (committed v)" and "fits (committed v)"
    and "\<exists>text. bad = Sent text" and "\<exists>text. good = Sent text"
  shows "wp sql_sem f (call prog (\<lambda>rc. if rc \<noteq> 0 then Ret bad else Ret good)) v (handler_post v)"
proof (rule wp_callI[OF atomic[OF assms(1,4)]])
  fix rc v1
  assume post: "service_post f (spec (committed v)) v rc v1"
  then have "schema_ok (committed v1) \<and> books_ok (committed v1) \<and> txn v1 = None \<and> stmts v1 = stmts v"
    using spec_schema[OF assms(2,4)] spec_books[OF assms(2,4)] assms(2,3) by (auto simp: service_post_def)
  then show "wp sql_sem f (if rc \<noteq> 0 then Ret bad else Ret good) v1 (handler_post v)"
    using assms(5,6) by (simp add: wp_simps handler_post_def)
qed

end

lemma limits_user: "machine_limits t \<Longrightarrow> map_of (users t) uid = Some u \<Longrightarrow> u_balance u \<le> INT_MAX"
  by (auto simp: machine_limits_def dest!: map_of_SomeD)

lemma schema_user: "schema_ok t \<Longrightarrow> map_of (users t) uid = Some u \<Longrightarrow> 0 \<le> u_balance u"
  by (auto simp: schema_ok_def dest!: map_of_SomeD)

lemma limits_stock:
  assumes "machine_limits t" and "schema_ok t" and "map_of (stock t) slot = Some s"
  shows "is_int32 (s_item_id s)" "0 \<le> s_quantity s" "s_quantity s \<le> INT_MAX" "\<exists>i. map_of (items t) (s_item_id s) = Some i"
  using assms(1,2) map_of_SomeD[OF assms(3)] by (force simp: machine_limits_def schema_ok_def)+

lemma limits_item:
  "machine_limits t \<Longrightarrow> map_of (items t) item = Some i \<Longrightarrow> INT_MIN < i_price i \<and> i_price i \<le> INT_MAX"
  by (auto simp: machine_limits_def dest!: map_of_SomeD)

lemma limits_deposit: "machine_limits t \<Longrightarrow> schema_ok t \<Longrightarrow> is_int32 amt \<Longrightarrow> deposit_fits uid amt t"
  using limits_user[of t uid] schema_user[of t uid]
  by (fastforce simp: deposit_fits_def is_int32_def split: option.splits)

lemma limits_reset: "machine_limits t \<Longrightarrow> schema_ok t \<Longrightarrow> reset_fits uid t"
  using limits_user[of t uid] schema_user[of t uid] by (auto simp: reset_fits_def split: option.splits)

lemma limits_restock: "machine_limits t \<Longrightarrow> schema_ok t \<Longrightarrow> is_int32 qty \<Longrightarrow> restock_fits slot qty t"
  using limits_stock[of t slot] by (fastforce simp: restock_fits_def is_int32_def split: option.splits)

lemma limits_purchase: "machine_limits t \<Longrightarrow> schema_ok t \<Longrightarrow> purchase_fits uid slot t"
  using limits_user[of t uid] schema_user[of t uid] limits_stock[of t slot] limits_item[of t]
  by (fastforce simp: purchase_fits_def join_row_def is_int32_def split: option.splits)

interpretation restock_handler: audited_handler "handle_post_restock req" machine_limits for req
proof
  fix v :: "tables view" and f
  assume v: "txn v = None" "schema_ok (committed v)" "books_ok (committed v)" "machine_limits (committed v)"
  show "wp sql_sem f (handle_post_restock req) v (handler_post v)"
    unfolding handle_post_restock_def
    using v by (auto split: option.splits intro!: wp_reply restock.wp_handler send_json_small limits_restock
        dest: sscanf1_int_range)
qed

interpretation price_handler: audited_handler "handle_post_update_price req" machine_limits for req
proof
  fix v :: "tables view" and f
  assume v: "txn v = None" "schema_ok (committed v)" "books_ok (committed v)" "machine_limits (committed v)"
  show "wp sql_sem f (handle_post_update_price req) v (handler_post v)"
    unfolding handle_post_update_price_def
    using v by (auto split: option.splits intro!: wp_reply set_price.wp_handler send_json_small)
qed

interpretation deposit_handler: audited_handler "handle_post_deposit req" machine_limits for req
proof
  fix v :: "tables view" and f
  assume v: "txn v = None" "schema_ok (committed v)" "books_ok (committed v)" "machine_limits (committed v)"
  show "wp sql_sem f (handle_post_deposit req) v (handler_post v)"
    unfolding handle_post_deposit_def
    using v by (auto split: option.splits intro!: wp_reply deposit.wp_handler send_json_small limits_deposit
        dest: sscanf1_int_range)
qed

interpretation purchase_handler: audited_handler "handle_post_purchase req" machine_limits for req
proof
  fix v :: "tables view" and f
  assume v: "txn v = None" "schema_ok (committed v)" "books_ok (committed v)" "machine_limits (committed v)"
  show "wp sql_sem f (handle_post_purchase req) v (handler_post v)"
    unfolding handle_post_purchase_def
    using v by (auto split: option.splits intro!: wp_reply purchase.wp_handler send_json_small limits_purchase)
qed

interpretation get_balance_handler: audited_handler "handle_get_balance req" machine_limits for req
proof
  fix v :: "tables view" and f
  assume v: "txn v = None" "schema_ok (committed v)" "books_ok (committed v)" "machine_limits (committed v)"
  show "wp sql_sem f (handle_get_balance req) v (handler_post v)"
  proof (cases "role (req_auth req) = AUTH_NONE")
    case True
    with v show ?thesis by (auto simp: handle_get_balance_def intro!: wp_reply send_json_small)
  next
    case False
    then show ?thesis
      unfolding handle_get_balance_def if_not_P[OF False]
      by (intro wp_callI[OF wp_balance_get[OF v(1)]])
         (use v in \<open>auto simp: get_post_def wp_simps handler_post_def send_json_small fill_buf_64 split: option.splits\<close>)
  qed
qed

interpretation delete_balance_handler: audited_handler "handle_delete_balance req" machine_limits for req
proof
  fix v :: "tables view" and f
  assume v: "txn v = None" "schema_ok (committed v)" "books_ok (committed v)" "machine_limits (committed v)"
  show "wp sql_sem f (handle_delete_balance req) v (handler_post v)"
  proof (cases "role (req_auth req) = AUTH_NONE")
    case True
    with v show ?thesis by (auto simp: handle_delete_balance_def intro!: wp_reply send_json_small)
  next
    case False
    have "schema_ok t" "books_ok t" if "reset_spec uid (committed v) = Some (x, t)" for uid x t
      using reset_schema[OF v(2) that] reset_books[OF that v(3)] .
    then show ?thesis
      unfolding handle_delete_balance_def if_not_P[OF False]
      by (intro wp_callI[OF wp_balance_reset[OF v(1) limits_reset[OF v(4,2)]]])
         (use v in \<open>auto simp: reset_post_def wp_simps handler_post_def send_json_small fill_buf_64\<close>)
  qed
qed

interpretation lookup_handler: audited_handler "handle_lookup_user req" machine_limits for req
proof
  fix v :: "tables view" and f
  assume v: "txn v = None" "schema_ok (committed v)" "books_ok (committed v)" "machine_limits (committed v)"
  have reply: "wp sql_sem f (call (users_lookup fp) (\<lambda>uid.
      if uid = -1 then Ret (send_json_users 500 a) else Ret (send_json_users 200 (fill_buf 64 (b uid))))) v (handler_post v)"
    if "length a \<le> 64" for fp a b
  proof (rule wp_callI[OF wp_users_lookup[OF v(1)]])
    fix uid v1 assume "lookup_post f fp v uid v1"
    then have "schema_ok (committed v1) \<and> books_ok (committed v1) \<and> txn v1 = None \<and> stmts v1 = stmts v"
      using lookup_schema[OF v(2)] lookup_books[OF v(2) _ v(3)] v(2,3) by (auto simp: lookup_post_def)
    then show "wp sql_sem f (if uid = -1 then Ret (send_json_users 500 a) else Ret (send_json_users 200 (fill_buf 64 (b uid))))
        v1 (handler_post v)"
      using that by (simp add: wp_simps handler_post_def send_json_small fill_buf_64)
  qed
  show "wp sql_sem f (handle_lookup_user req) v (handler_post v)"
    unfolding handle_lookup_user_def
    using v by (auto split: list.splits scanval.splits intro!: reply wp_reply send_json_small)
qed

text \<open>What \<^verbatim>\<open>GET /stock\<close> answers, within the limits.\<close>

lemma wp_get_stock:
  assumes "txn v = None" and "machine_limits (committed v)" and "length (stock (committed v)) < fuel"
  shows "wp sql_sem f (handle_get_stock fuel req) v (\<lambda>out v'. v' = v \<and>
    (out = Sent (json_response ''200 OK'' (stock_json (map product_of (join_rows (committed v))))) \<or>
     (f \<and> (\<exists>body. out = Sent (json_response ''500 Internal Server Error'' body)))))"
proof -
  let ?ps = "map product_of (join_rows (committed v))"
  have "length ?ps \<le> 63" using assms(2) length_join_rows[of "committed v"] by (simp add: machine_limits_def)
  moreover have "\<forall>p \<in> set ?ps. length (product_json p) \<le> 127" using assms(2) product_of_short by auto
  note body = stock_body_json[OF this]
  ultimately have "length (stock_json ?ps) \<le> 8072" by linarith
  with body show ?thesis
    unfolding handle_get_stock_def
    by (intro wp_callI[OF wp_products_list[OF assms(1,3)]])
       (auto simp: list_post_def wp_simps stock_response)
qed

interpretation stock_handler: audited_handler "handle_get_stock fuel req"
  "\<lambda>t. machine_limits t \<and> length (stock t) < fuel" for fuel req
proof
  fix v :: "tables view" and f
  assume v: "txn v = None" "schema_ok (committed v)" "books_ok (committed v)"
    and lim: "machine_limits (committed v) \<and> length (stock (committed v)) < fuel"
  then show "wp sql_sem f (handle_get_stock fuel req) v (handler_post v)"
    by (intro wp_mono[OF wp_get_stock]) (auto simp: handler_post_def)
qed

interpretation slow_handler: audited_handler "handle_get_slow req" machine_limits for req
  by unfold_locales (simp add: handle_get_slow_def wp_simps handler_post_def)

end
