(* ===== verification/Router.thy ===== *)
theory Router
  imports Radix_Tree Handlers
begin

text \<open>
  \<^verbatim>\<open>server/src/api/router/router.c\<close> and the connection handler of \<^verbatim>\<open>server/src/api/api.c\<close>: the route table,
  the dispatch of a request to its handler, and the whole life of one client connection. A handler
  function pointer is its name; \<open>call_handler\<close> is the call through the pointer.
\<close>

section \<open>The route table\<close>

datatype handler_fn =
    Get_stock | Post_restock | Get_balance | Post_deposit | Delete_balance
  | Post_purchase | Post_update_price | Get_slow | Lookup_user

record handler_t =
  h_get :: "handler_fn option"
  h_post :: "handler_fn option"
  h_patch :: "handler_fn option"
  h_del :: "handler_fn option"
  h_internal :: bool

definition no_handler :: handler_t where
  "no_handler = \<lparr>h_get = None, h_post = None, h_patch = None, h_del = None, h_internal = False\<rparr>"

fun call_handler :: "nat \<Rightarrow> handler_fn \<Rightarrow> request_t \<Rightarrow> http_out dbprog" where
  "call_handler fuel Get_stock = handle_get_stock fuel"
| "call_handler fuel Post_restock = handle_post_restock"
| "call_handler fuel Get_balance = handle_get_balance"
| "call_handler fuel Post_deposit = handle_post_deposit"
| "call_handler fuel Delete_balance = handle_delete_balance"
| "call_handler fuel Post_purchase = handle_post_purchase"
| "call_handler fuel Post_update_price = handle_post_update_price"
| "call_handler fuel Get_slow = handle_get_slow"
| "call_handler fuel Lookup_user = handle_lookup_user"

definition stock_handler_t :: handler_t where
  "stock_handler_t = no_handler\<lparr>h_get := Some Get_stock\<rparr>"

definition stock_slot_handler_t :: handler_t where
  "stock_slot_handler_t = no_handler\<lparr>h_patch := Some Post_restock\<rparr>"

definition balance_handler_t :: handler_t where
  "balance_handler_t = no_handler\<lparr>h_get := Some Get_balance, h_post := Some Post_deposit, h_del := Some Delete_balance\<rparr>"

definition orders_handler_t :: handler_t where
  "orders_handler_t = no_handler\<lparr>h_post := Some Post_purchase\<rparr>"

definition items_handler_t :: handler_t where
  "items_handler_t = no_handler\<lparr>h_patch := Some Post_update_price\<rparr>"

definition debug_handler_t :: handler_t where
  "debug_handler_t = no_handler\<lparr>h_get := Some Get_slow\<rparr>"

definition user_lookup_handler_t :: handler_t where
  "user_lookup_handler_t = no_handler\<lparr>h_post := Some Lookup_user, h_internal := True\<rparr>"

text \<open>The result of \<^verbatim>\<open>add_node\<close> is dropped.\<close>

definition register_route :: "string \<Rightarrow> handler_t \<Rightarrow> handler_t radix_tree \<times> allocs \<Rightarrow> handler_t radix_tree \<times> allocs" where
  "register_route path handler s =
     (let (rc, tree, al) = add_node (fst s) path (Some handler) (snd s) in (tree, al))"

text \<open>\<open>None\<close> is the null pointer that \<^verbatim>\<open>init_tree\<close> returns without memory and that \<^verbatim>\<open>register_route\<close>
  then dereferences.\<close>

definition init_router :: "allocs \<Rightarrow> handler_t radix_tree option" where
  "init_router al =
     (case init_tree (CHR ''/'') (CHR '':'') al of
        (None, _) \<Rightarrow> None
      | (Some tree, al) \<Rightarrow>
          (let s = (tree, al);
               s = register_route ''/stock'' stock_handler_t s;
               s = register_route ''/stock/:slot_id'' stock_slot_handler_t s;
               s = register_route ''/balance'' balance_handler_t s;
               s = register_route ''/orders'' orders_handler_t s;
               s = register_route ''/items/:item_id'' items_handler_t s;
               s = register_route ''/debug/slow'' debug_handler_t s;
               s = register_route ''/users/lookup'' user_lookup_handler_t s
           in Some (fst s)))"

definition destroy_router :: "handler_t radix_tree \<Rightarrow> block list" where
  "destroy_router tree = destroy_tree tree"

section \<open>Dispatch\<close>

definition empty_response :: "string \<Rightarrow> string" where
  "empty_response status_str = ''HTTP/1.1 '' @ status_str @ crlf @ ''Content-Length: 0'' @ crlf @ crlf"

definition dispatch ::
    "handler_t radix_tree \<Rightarrow> nat \<Rightarrow> string option \<Rightarrow> request_t \<Rightarrow> bool \<Rightarrow> http_out dbprog" where
  "dispatch tree fuel saved req internal =
     (case fst (search_node tree (req_path req) saved) of
        None \<Rightarrow> Ret (Sent (empty_response ''404 Not Found''))
      | Some h \<Rightarrow>
          (if h_internal h \<and> \<not> internal then Ret (Sent (empty_response ''403 Forbidden''))
           else case (case req_method req of
                        Some GET \<Rightarrow> h_get h
                      | Some POST \<Rightarrow> h_post h
                      | Some PATCH \<Rightarrow> h_patch h
                      | Some DELETE \<Rightarrow> h_del h
                      | None \<Rightarrow> None) of
                  None \<Rightarrow> Ret (Sent (empty_response ''405 Method Not Allowed''))
                | Some fn \<Rightarrow> call_handler fuel fn req))"

section \<open>One connection\<close>

record server_t =
  admin_token :: string

record client_t =
  c_internal :: bool
  c_ctx :: server_t

text \<open>What the connection handler does to the socket. \<open>received\<close> is the result of \<^verbatim>\<open>recv\<close>: the
  bytes it put into the buffer, none for an error or a closed connection.\<close>

datatype sock_event = SockSend http_out | SockClose

definition recv_text :: "string \<Rightarrow> string" where
  "recv_text received = takeWhile (\<lambda>c. c \<noteq> CHR 0x00) (take (BUF_SIZE - 1) received)"

definition handle_client ::
    "handler_t radix_tree \<Rightarrow> nat \<Rightarrow> string option \<Rightarrow> client_t option \<Rightarrow> string \<Rightarrow> sock_event list dbprog" where
  "handle_client tree fuel saved c received =
     (case c of
        None \<Rightarrow> Ret []
      | Some client \<Rightarrow>
          (if received = [] then Ret [SockClose]
           else let req = parse_request (recv_text received) (admin_token (c_ctx client)) in
                if req_method req = None
                then Ret [SockSend (Sent (empty_response ''400 Bad Request'')), SockClose]
                else call (dispatch tree fuel saved req (c_internal client)) (\<lambda>out.
                     Ret [SockSend out, SockClose])))"

section \<open>Specification\<close>

text \<open>The routes by the segments of the path.\<close>

definition route_spec :: "string list \<Rightarrow> handler_t option" where
  "route_spec ss =
     (case ss of
        [a] \<Rightarrow>
          (if a = ''stock'' then Some stock_handler_t
           else if a = ''balance'' then Some balance_handler_t
           else if a = ''orders'' then Some orders_handler_t
           else None)
      | [a, b] \<Rightarrow>
          (if a = ''stock'' then Some stock_slot_handler_t
           else if a = ''items'' then Some items_handler_t
           else if a = ''debug'' \<and> b = ''slow'' then Some debug_handler_t
           else if a = ''users'' \<and> b = ''lookup'' then Some user_lookup_handler_t
           else None)
      | _ \<Rightarrow> None)"

definition routes :: "(string list \<times> handler_t) list" where
  "routes =
     [([''stock''], stock_handler_t), ([''stock'', '':slot_id''], stock_slot_handler_t),
      ([''balance''], balance_handler_t), ([''orders''], orders_handler_t),
      ([''items'', '':item_id''], items_handler_t), ([''debug'', ''slow''], debug_handler_t),
      ([''users'', ''lookup''], user_lookup_handler_t)]"

text \<open>The tree that \<^verbatim>\<open>init_router\<close> builds when no allocation fails.\<close>

definition router_tree :: "handler_t radix_tree" where
  "router_tree =
     \<lparr>root = Node [] None
        [Node ''stock'' (Some stock_handler_t) [Node '':slot_id'' (Some stock_slot_handler_t) []],
         Node ''balance'' (Some balance_handler_t) [],
         Node ''orders'' (Some orders_handler_t) [],
         Node ''items'' None [Node '':item_id'' (Some items_handler_t) []],
         Node ''debug'' None [Node ''slow'' (Some debug_handler_t) []],
         Node ''users'' None [Node ''lookup'' (Some user_lookup_handler_t) []]],
      delimeter = CHR ''/'', wildcard = CHR '':''\<rparr>"

section \<open>Lemmas: routing\<close>

lemma route_segments:
  "segments (CHR ''/'') ''/stock'' = [''stock'']"
  "segments (CHR ''/'') ''/stock/:slot_id'' = [''stock'', '':slot_id'']"
  "segments (CHR ''/'') ''/balance'' = [''balance'']"
  "segments (CHR ''/'') ''/orders'' = [''orders'']"
  "segments (CHR ''/'') ''/items/:item_id'' = [''items'', '':item_id'']"
  "segments (CHR ''/'') ''/debug/slow'' = [''debug'', ''slow'']"
  "segments (CHR ''/'') ''/users/lookup'' = [''users'', ''lookup'']"
  by code_simp+

lemma register_simp: "register_route path h (tree, al) = (case add_node tree path (Some h) al of (rc, tree', al') \<Rightarrow> (tree', al'))"
  by (simp add: register_route_def split: prod.splits)

lemma init_router_tree: "init_router [] = Some router_tree"
  unfolding init_router_def Let_def
  by (simp add: init_tree_def alloc_def create_node_def register_simp add_node_def
      route_segments find_child_def add_child_def set_child_def router_tree_def)

lemma search_router: "fst (search_node router_tree path saved) = route_spec (segments (CHR ''/'') path)"
proof -
  have "search_path (CHR '':'') ss (root router_tree) = route_spec ss" for ss
    by (auto simp: route_spec_def router_tree_def child_for_def find_child_def split: list.splits)
  then show ?thesis by (simp add: search_node_path router_tree_def)
qed

lemma register_fold:
  "(case foldl (\<lambda>s (p, h). register_route p h s) (t, al) rs of (t', al') \<Rightarrow>
     radix.register (map (\<lambda>(p, h). (segments (delimeter t) p, h)) rs) (root t) al = (root t', al') \<and>
     delimeter t' = delimeter t \<and> wildcard t' = wildcard t)"
proof (induction rs arbitrary: t al)
  case (Cons r rs)
  obtain rc n al1 where a: "add_loop (segments (delimeter t) (fst r)) (Some (snd r)) (root t) al = (rc, n, al1)"
    by (cases "add_loop (segments (delimeter t) (fst r)) (Some (snd r)) (root t) al")
  have "register_route (fst r) (snd r) (t, al) = (t\<lparr>root := n\<rparr>, al1)"
    by (simp add: register_simp add_node_def a)
  with a Cons[of "t\<lparr>root := n\<rparr>" al1] show ?case by (cases r) simp
qed simp

definition route_paths :: "(string \<times> handler_t) list" where
  "route_paths =
     [(''/stock'', stock_handler_t), (''/stock/:slot_id'', stock_slot_handler_t),
      (''/balance'', balance_handler_t), (''/orders'', orders_handler_t),
      (''/items/:item_id'', items_handler_t), (''/debug/slow'', debug_handler_t),
      (''/users/lookup'', user_lookup_handler_t)]"

text \<open>Whatever the allocator does, the tree holds the registered routes that it had memory for.\<close>

lemma init_router_register:
  assumes "init_router al = Some tree"
  obtains al1 al2 where "radix.register routes (Node [] None []) al1 = (root tree, al2)"
    and "delimeter tree = CHR ''/''" and "wildcard tree = CHR '':''"
proof -
  obtain t0 :: "handler_t radix_tree" and al1 where t0: "init_tree (CHR ''/'') (CHR '':'') al = (Some t0, al1)"
  proof (cases "init_tree (CHR ''/'') (CHR '':'') al :: handler_t radix_tree option \<times> allocs")
    case (Pair t a)
    with assms that show thesis by (cases t) (simp_all add: init_router_def)
  qed
  then have r0: "root t0 = Node [] None []" "delimeter t0 = CHR ''/''" "wildcard t0 = CHR '':''"
    by (auto simp: init_tree_def create_node_def Let_def split: prod.splits option.splits if_splits)
  let ?s = "foldl (\<lambda>s (p, h). register_route p h s) (t0, al1) route_paths"
  have tree: "tree = fst ?s"
    using assms unfolding init_router_def t0 Let_def by (simp add: route_paths_def)
  have paths: "map (\<lambda>(p, h). (segments (CHR ''/'') p, h)) route_paths = routes"
    by (simp add: route_paths_def routes_def route_segments)
  show thesis
    using register_fold[where t = t0 and al = al1 and rs = route_paths] that[of al1 "snd ?s"] r0 tree
    by (cases ?s) (simp add: paths)
qed

lemma init_router_sound:
  assumes "init_router al = Some tree" and "fst (search_node tree path saved) = Some h"
  shows "\<exists>ps. (ps, h) \<in> set routes \<and> path_fits (CHR '':'') ps (segments (CHR ''/'') path)"
proof -
  obtain al1 al2 where r: "radix.register routes (Node [] None []) al1 = (root tree, al2)"
    and d: "delimeter tree = CHR ''/''" "wildcard tree = CHR '':''"
    using assms(1) by (rule init_router_register)
  have "search_path (CHR '':'') (segments (CHR ''/'') path) (root tree) = Some h"
    using assms(2) d by (simp add: search_node_path)
  with r show ?thesis by (rule radix.register_sound)
qed

section \<open>Lemmas: serving a client\<close>

lemma wp_call_handler:
  assumes "txn v = None" and "schema_ok (committed v)" and "books_ok (committed v)"
    and "machine_limits (committed v)" and "length (stock (committed v)) < fuel"
  shows "wp sql_sem f (call_handler fuel fn req) v (handler_post v)"
  using assms by (cases fn)
    (simp_all add: restock_handler.serves price_handler.serves deposit_handler.serves purchase_handler.serves
      get_balance_handler.serves delete_balance_handler.serves lookup_handler.serves slow_handler.serves
      stock_handler.serves)

lemma wp_dispatch:
  assumes "txn v = None" and "schema_ok (committed v)" and "books_ok (committed v)"
    and "machine_limits (committed v)" and "length (stock (committed v)) < fuel"
  shows "wp sql_sem f (dispatch tree fuel saved req internal) v (handler_post v)"
  unfolding dispatch_def
  using assms by (auto split: option.splits intro!: wp_reply wp_call_handler)

definition client_post :: "tables view \<Rightarrow> sock_event list \<Rightarrow> tables view \<Rightarrow> bool" where
  "client_post v evs v' \<longleftrightarrow>
     (evs = [SockClose] \<or> (\<exists>text. evs = [SockSend (Sent text), SockClose])) \<and>
     txn v' = None \<and> stmts v' = stmts v \<and> schema_ok (committed v') \<and> books_ok (committed v')"

lemma wp_handle_client:
  assumes "txn v = None" and "schema_ok (committed v)" and "books_ok (committed v)"
    and "machine_limits (committed v)" and "length (stock (committed v)) < fuel"
  shows "wp sql_sem f (handle_client tree fuel saved (Some client) received) v (client_post v)"
  unfolding handle_client_def Let_def option.case
  using assms
  by (auto simp: wp_simps client_post_def handler_post_def intro!: wp_callI[OF wp_dispatch[OF assms]])

end
