(* ===== verification/Demo.thy ===== *)
theory Demo
  imports Router
begin

text \<open>
  A concrete machine for the witnesses: the seed of \<^verbatim>\<open>init.sql\<close> after user 1 has paid in 10.00 zl,
  on the reference connection, and the facts about it that the witnesses share.
\<close>

definition demo :: tables where
  "demo = the (deposit_spec 1 1000 seed)"

abbreviation demo_db :: mem_db where
  "demo_db \<equiv> mem_open demo []"

lemma demo_view [simp]:
  "txn (mem_view (mem_open t fs)) = None" "committed (mem_view (mem_open t fs)) = t" "stmts (mem_view (mem_open t fs)) = Map.empty"
  "\<not> mem_faulty (mem_open t [])"
  by (simp_all add: mem_view_def mem_open_def mem_faulty_def)

lemma demo_spec: "deposit_spec 1 1000 seed = Some demo"
  by (simp add: demo_def deposit_spec_def)

lemma demo_fits: "deposit_fits 1 1000 seed"
  by (simp add: deposit_fits_def seed_def)

lemma demo_schema: "schema_ok demo"
  by (rule deposit_schema[OF schema_ok_seed demo_fits demo_spec])

lemma demo_books: "books_ok demo"
  by (rule deposit_books[OF demo_spec books_ok_seed])

lemma demo_limits: "machine_limits demo"
  by code_simp

lemma demo_users: "users demo = [(1, \<lparr>u_fingerprint = None, u_balance = 1000\<rparr>)]"
  by (simp add: demo_def deposit_spec_def seed_def insert_user_def)

lemma demo_slot: "join_row demo 11 = Some (\<lparr>s_item_id = 1, s_quantity = 18\<rparr>, \<lparr>i_name = ''Cola Classic'', i_price = 500\<rparr>)"
  by code_simp

lemma demo_stock: "length (stock demo) = 30"
  by code_simp

lemma demo_slot_row: "map_of (stock demo) 11 = Some \<lparr>s_item_id = 1, s_quantity = 18\<rparr>"
  by code_simp

end
