(* ===== verification/Isolation.thy ===== *)
theory Isolation
  imports Router
begin

text \<open>
  What a request may touch, by the rights of its bearer token: nothing without a token; only the
  own account and the stock it buys from with a user token; prices and refills only with the admin
  token. The relation \<open>may_change\<close> is proved of every handler on the public port and carried over
  to the whole connection handler.
\<close>

definition may_change :: "auth_t \<Rightarrow> tables \<Rightarrow> tables \<Rightarrow> bool" where
  "may_change a t t' \<longleftrightarrow>
     (role a = AUTH_NONE \<longrightarrow> t' = t) \<and>
     (role a \<noteq> AUTH_ADMIN \<longrightarrow>
        items t' = items t \<and>
        (\<forall>slot s. map_of (stock t) slot = Some s \<longrightarrow>
           (\<exists>q. map_of (stock t') slot = Some (s\<lparr>s_quantity := q\<rparr>) \<and> q \<le> s_quantity s))) \<and>
     (\<forall>u. u \<noteq> user_id a \<longrightarrow> map_of (users t') u = map_of (users t) u)"

section \<open>Lemmas: specifications\<close>

lemma may_change_refl: "may_change a t t"
  by (auto simp: may_change_def intro!: exI)

lemma may_change_deposit:
  "role a \<noteq> AUTH_NONE \<Longrightarrow> deposit_spec (user_id a) amt t = Some t' \<Longrightarrow> may_change a t t'"
  by (auto simp: may_change_def deposit_spec_def insert_user_def map_of_row_ins map_of_row_upd
      intro!: exI split: if_splits option.splits)

lemma may_change_reset:
  "role a \<noteq> AUTH_NONE \<Longrightarrow> reset_spec (user_id a) t = Some (x, t') \<Longrightarrow> may_change a t t'"
  by (auto simp: may_change_def reset_spec_def map_of_row_upd intro!: exI split: if_splits option.splits)

lemma may_change_purchase:
  "role a \<noteq> AUTH_NONE \<Longrightarrow> purchase_spec (user_id a) slot t = Some t' \<Longrightarrow> may_change a t t'"
proof (erule purchase_specE)
  fix s i u
  assume "role a \<noteq> AUTH_NONE" and s: "map_of (stock t) slot = Some s"
    and t': "users t' = row_upd (user_id a) (u_balance_update (\<lambda>_. u_balance u - i_price i)) (users t)"
      "stock t' = row_upd slot (s_quantity_update (\<lambda>_. s_quantity s - 1)) (stock t)" "items t' = items t"
  moreover have "\<exists>q. map_of (stock t') sl = Some (r\<lparr>s_quantity := q\<rparr>) \<and> q \<le> s_quantity r"
    if "map_of (stock t) sl = Some r" for sl r
  proof (cases "sl = slot")
    case True
    with that s t'(2) show ?thesis by (intro exI[of _ "s_quantity s - 1"]) (simp add: map_of_row_upd)
  next
    case False
    with that t'(2) show ?thesis by (intro exI[of _ "s_quantity r"]) (simp add: map_of_row_upd)
  qed
  ultimately show "may_change a t t'" by (simp add: may_change_def map_of_row_upd)
qed

lemma may_change_admin:
  "role a = AUTH_ADMIN \<Longrightarrow> users t' = users t \<Longrightarrow> may_change a t t'"
  by (simp add: may_change_def)

section \<open>Lemmas: handlers\<close>

context transactional_service
begin

lemma wp_reply_keeps:
  assumes "txn v = None" and "fits (committed v)" and "\<And>t'. spec (committed v) = Some t' \<Longrightarrow> K (committed v) t'"
    and "\<And>t. K t t"
  shows "wp sql_sem f (call prog (\<lambda>rc. if rc \<noteq> 0 then Ret bad else Ret good)) v
    (\<lambda>out v'. K (committed v) (committed v'))"
  by (rule wp_callI[OF atomic[OF assms(1,2)]]) (use assms(3,4) in \<open>auto simp: service_post_def wp_simps\<close>)

end

lemma wp_handler_may_change:
  assumes v: "txn v = None" "schema_ok (committed v)" "machine_limits (committed v)" "length (stock (committed v)) < fuel"
    and fn: "fn \<noteq> Lookup_user"
  shows "wp sql_sem f (call_handler fuel fn req) v (\<lambda>out v'. may_change (req_auth req) (committed v) (committed v'))"
proof (cases fn)
  case Get_stock
  show ?thesis
    unfolding Get_stock call_handler.simps handle_get_stock_def
    by (rule wp_callI[OF wp_products_list[OF v(1,4)]]) (auto simp: list_post_def wp_simps may_change_refl split: option.splits)
next
  case Post_restock
  have "restock_spec slot qty t = Some t' \<Longrightarrow> users t' = users t" for slot qty t t'
    by (auto elim: restock_specE)
  with v show ?thesis
    unfolding Post_restock call_handler.simps handle_post_restock_def
    by (auto simp: wp_simps may_change_refl split: option.splits
        intro!: restock.wp_reply_keeps limits_restock may_change_admin dest: sscanf1_int_range)
next
  case Get_balance
  show ?thesis
    unfolding Get_balance call_handler.simps handle_get_balance_def
    by (auto simp: wp_simps may_change_refl get_post_def intro!: wp_callI[OF wp_balance_get[OF v(1)]])
next
  case Post_deposit
  with v show ?thesis
    unfolding Post_deposit call_handler.simps handle_post_deposit_def
    by (auto simp: wp_simps may_change_refl split: option.splits
        intro!: deposit.wp_reply_keeps limits_deposit intro: may_change_deposit dest: sscanf1_int_range)
next
  case Delete_balance
  show ?thesis
    unfolding Delete_balance call_handler.simps handle_delete_balance_def
    by (auto simp: wp_simps may_change_refl reset_post_def may_change_reset
        intro!: wp_callI[OF wp_balance_reset[OF v(1) limits_reset[OF v(3,2)]]])
next
  case Post_purchase
  with v show ?thesis
    unfolding Post_purchase call_handler.simps handle_post_purchase_def
    by (auto simp: wp_simps may_change_refl split: option.splits
        intro!: purchase.wp_reply_keeps limits_purchase intro: may_change_purchase)
next
  case Post_update_price
  have "price_spec item p t = Some t' \<Longrightarrow> users t' = users t" for item p t t'
    by (auto simp: price_spec_def split: if_splits)
  with v show ?thesis
    unfolding Post_update_price call_handler.simps handle_post_update_price_def
    by (auto simp: wp_simps may_change_refl split: option.splits
        intro!: set_price.wp_reply_keeps may_change_admin)
next
  case Get_slow
  then show ?thesis by (simp add: handle_get_slow_def wp_simps may_change_refl)
qed (use fn in simp)

text \<open>On the public port the account lookup is never reached.\<close>

lemma route_lookup_internal:
  "route_spec ss = Some h \<Longrightarrow> \<not> h_internal h \<Longrightarrow>
   Lookup_user \<notin> set (List.map_filter id [h_get h, h_post h, h_patch h, h_del h])"
  by (auto simp: route_spec_def no_handler_def stock_handler_t_def stock_slot_handler_t_def balance_handler_t_def
      orders_handler_t_def items_handler_t_def debug_handler_t_def user_lookup_handler_t_def map_filter_simps
      split: list.splits if_splits)

lemma wp_dispatch_may_change:
  assumes v: "txn v = None" "schema_ok (committed v)" "machine_limits (committed v)" "length (stock (committed v)) < fuel"
  shows "wp sql_sem f (dispatch router_tree fuel saved req False) v
    (\<lambda>out v'. may_change (req_auth req) (committed v) (committed v'))"
  unfolding dispatch_def search_router
  using route_lookup_internal[of "segments (CHR ''/'') (req_path req)"]
  by (auto simp: wp_simps may_change_refl map_filter_simps split: option.splits method_t.splits
      intro!: wp_handler_may_change[OF v])

lemma wp_client_may_change:
  assumes v: "txn v = None" "schema_ok (committed v)" "machine_limits (committed v)" "length (stock (committed v)) < fuel"
    and pub: "\<not> c_internal client"
  shows "wp sql_sem f (handle_client router_tree fuel saved (Some client) received) v
    (\<lambda>evs v'. may_change (req_auth (parse_request (recv_text received) (admin_token (c_ctx client))))
       (committed v) (committed v'))"
  unfolding handle_client_def Let_def option.case
  using pub by (auto simp: wp_simps may_change_refl intro!: wp_callI[OF wp_dispatch_may_change[OF v]])

end
