(* ===== verification/Strtod.thy ===== *)
theory Strtod
  imports "HOL-Library.Log_Nat" Cstring
begin

text \<open>
  Doubles and \<^verbatim>\<open>strtod\<close>, as far as the JSON parser uses them: the value of a decimal text is its exact
  rational value, rounded to the nearest IEEE 754 binary64 number (ties to even), with the range of
  the exponent. The sign of a zero is not kept.
\<close>

section \<open>Rounding\<close>

datatype double = Finite rat | Infinite bool

text \<open>The exponent of the leading binary digit of a positive rational.\<close>

definition ilog2 :: "rat \<Rightarrow> int" where
  "ilog2 a = (let (p, q) = quotient_of a; e = bitlen p - bitlen q in if a < 2 powi e then e - 1 else e)"

definition round_even :: "rat \<Rightarrow> int" where
  "round_even x =
     (let f = \<lfloor>x\<rfloor>; d = x - of_int f in
      if d < 1 / 2 then f else if 1 / 2 < d then f + 1 else if even f then f else f + 1)"

definition round_double :: "rat \<Rightarrow> double" where
  "round_double x =
     (if x = 0 then Finite 0
      else let a = \<bar>x\<bar>;
               e = max (-1074) (ilog2 a - 52);
               r = of_int (round_even (a / 2 powi e)) * 2 powi e
           in if 2 ^ 1024 \<le> r then Infinite (x < 0) else Finite (sgn x * r))"

section \<open>Decimal texts\<close>

text \<open>The exponent part at the head of a text: its value and its length; nothing is consumed when no
  digit follows.\<close>

definition exponent_part :: "string \<Rightarrow> int \<times> nat" where
  "exponent_part s =
     (case s of
        [] \<Rightarrow> (0, 0)
      | c # cs \<Rightarrow>
          (if c = CHR ''e'' \<or> c = CHR ''E'' then
             (let neg = (cs \<noteq> [] \<and> hd cs = CHR ''-'');
                  signed = (cs \<noteq> [] \<and> (hd cs = CHR ''-'' \<or> hd cs = CHR ''+''));
                  ds = takeWhile isdigit (if signed then tl cs else cs);
                  v = int (fst (scan_digits 0 ds))
              in if ds = [] then (0, 0)
                 else (if neg then - v else v, 1 + (if signed then 1 else 0) + length ds))
           else (0, 0)))"

text \<open>The value and the number of characters up to the end pointer; 0 characters when there is no number.\<close>

definition strtod :: "string \<Rightarrow> double \<times> nat" where
  "strtod s =
     (let s0 = skip_ws s;
          neg = (s0 \<noteq> [] \<and> hd s0 = CHR ''-'');
          signed = (s0 \<noteq> [] \<and> (hd s0 = CHR ''-'' \<or> hd s0 = CHR ''+''));
          s1 = (if signed then tl s0 else s0);
          whole = takeWhile isdigit s1;
          s2 = dropWhile isdigit s1;
          point = (s2 \<noteq> [] \<and> hd s2 = CHR ''.'');
          frac = (if point then takeWhile isdigit (tl s2) else []);
          s3 = (if point then dropWhile isdigit (tl s2) else s2);
          (ex, exlen) = exponent_part s3;
          m = int (fst (scan_digits 0 (whole @ frac)))
      in if whole @ frac = [] then (Finite 0, 0)
         else (round_double ((if neg then -1 else 1) * of_int m * 10 powi (ex - int (length frac))),
               (length s - length s3) + exlen))"

text \<open>The conversion to \<^verbatim>\<open>int\<close> that saturates, as the JSON parser does it.\<close>

definition saturate_int :: "double \<Rightarrow> int" where
  "saturate_int d =
     (case d of
        Infinite neg \<Rightarrow> (if neg then INT_MIN else INT_MAX)
      | Finite x \<Rightarrow>
          (if of_int INT_MAX \<le> x then INT_MAX
           else if x \<le> of_int INT_MIN then INT_MIN
           else if 0 \<le> x then \<lfloor>x\<rfloor> else \<lceil>x\<rceil>))"

section \<open>Lemmas\<close>

lemma round_even_int [simp]: "round_even (of_int n) = n"
  by (simp add: round_even_def)

lemma ilog2_int: "0 < n \<Longrightarrow> n < 2 ^ 53 \<Longrightarrow> ilog2 (of_int n) \<le> 52"
proof -
  assume n: "0 < n" "n < (2::int) ^ 53"
  have "bitlen n \<le> 53" using n by (simp add: bitlen_le_iff_power)
  moreover have "bitlen 1 = 1" by (simp add: bitlen_def floorlog_eq_zero_iff compute_floorlog)
  ultimately show ?thesis by (simp add: ilog2_def Let_def)
qed

text \<open>Every integer of less than 53 binary digits is a double.\<close>

lemma round_double_int:
  assumes "\<bar>n\<bar> < 2 ^ 53"
  shows "round_double (of_int n) = Finite (of_int n)"
proof (cases "n = 0")
  case False
  let ?a = "\<bar>n\<bar>"
  define e where "e = max (-1074) (ilog2 (of_int ?a) - 52)"
  have "e \<le> 0" using ilog2_int[of ?a] False assms by (simp add: e_def)
  then obtain k where k: "e = - int k" by (metis nonpos_int_cases)
  have "(of_int ?a :: rat) / 2 powi e = of_int (?a * 2 ^ k)" by (simp add: k power_int_minus divide_inverse)
  then have r: "of_int (round_even (of_int ?a / 2 powi e)) * (2 :: rat) powi e = of_int ?a"
    by (simp only: round_even_int) (simp add: k power_int_minus)
  have "(of_int ?a :: rat) < 2 ^ 53" using assms by (metis of_int_less_iff of_int_numeral of_int_power)
  also have "(2 :: rat) ^ 53 \<le> 2 ^ 1024" by (rule power_increasing) simp_all
  finally have "\<not> (2 :: rat) ^ 1024 \<le> of_int ?a" by simp
  with r have "round_double (of_int n) = Finite (sgn (of_int n) * of_int ?a)"
    using False by (simp add: round_double_def Let_def e_def)
  then show ?thesis by (simp add: sgn_mult_abs)
qed (simp add: round_double_def)

lemma saturate_int_range: "is_int32 (saturate_int d)"
proof (cases d)
  case (Finite x)
  consider "of_int INT_MAX \<le> x" | "x \<le> of_int INT_MIN" | "x < of_int INT_MAX" "of_int INT_MIN < x" by linarith
  then show ?thesis
  proof cases
    case 3
    have "\<lfloor>x\<rfloor> \<le> INT_MAX" "\<lceil>x\<rceil> \<le> INT_MAX" "INT_MIN \<le> \<lceil>x\<rceil>" using 3 by linarith+
    moreover have "0 \<le> x \<Longrightarrow> INT_MIN \<le> \<lfloor>x\<rfloor>" by linarith
    ultimately show ?thesis using 3 Finite by (simp add: saturate_int_def is_int32_def)
  qed (use Finite in \<open>simp_all add: saturate_int_def is_int32_def\<close>)
qed (simp add: saturate_int_def is_int32_def)

lemma saturate_int_id:
  assumes "is_int32 n"
  shows "saturate_int (Finite (of_int n)) = n"
proof -
  have "of_int INT_MAX \<le> (of_int n :: rat) \<longleftrightarrow> INT_MAX \<le> n" "(of_int n :: rat) \<le> of_int INT_MIN \<longleftrightarrow> n \<le> INT_MIN"
    by (rule of_int_le_iff)+
  then show ?thesis
    unfolding saturate_int_def double.case using assms by (auto simp: is_int32_def)
qed

text \<open>A printed integer is read back exactly and completely.\<close>

lemma takeWhile_digits: "takeWhile isdigit (show_nat k) = show_nat k" "dropWhile isdigit (show_nat k) = []"
  using show_nat_digits[of k] by (simp_all add: takeWhile_eq_all_conv)

lemma strtod_show_int:
  assumes "is_int32 n"
  shows "strtod (show_int n) = (Finite (of_int n), length (show_int n))"
proof (cases "n < 0")
  case True
  let ?k = "nat (- n)"
  have "\<bar>n\<bar> < 2 ^ 53" using assms by (simp add: is_int32_def abs_less_iff)
  from round_double_int[OF this] True show ?thesis
    by (simp add: strtod_def show_int_def isspace_def takeWhile_digits exponent_part_def fst_scan_digits_show_nat Let_def)
next
  case False
  let ?k = "nat n"
  have "\<not> isspace (hd (show_nat ?k))" "hd (show_nat ?k) \<noteq> CHR ''-''" "hd (show_nat ?k) \<noteq> CHR ''+''"
    using hd_show_nat_digit[of ?k "[]"] digit_not_space digit_not_sign by auto
  moreover have "\<bar>n\<bar> < 2 ^ 53" using assms by (simp add: is_int32_def abs_less_iff)
  note round_double_int[OF this]
  ultimately show ?thesis
    using False by (simp add: strtod_def show_int_def takeWhile_digits exponent_part_def fst_scan_digits_show_nat Let_def)
qed

lemma length_sign: "length (if cs \<noteq> [] \<and> P then tl cs else cs) + (if cs \<noteq> [] \<and> P then 1 else 0) = length cs"
  by (cases cs) auto

lemma exponent_part_used: "snd (exponent_part s) \<le> length s"
proof (cases s)
  case (Cons c cs)
  let ?signed = "cs \<noteq> [] \<and> (hd cs = CHR ''-'' \<or> hd cs = CHR ''+'')"
  have "length (takeWhile isdigit (if ?signed then tl cs else cs)) + (if ?signed then 1 else 0) \<le> length cs"
    using length_takeWhile_le[of isdigit "if ?signed then tl cs else cs"] length_sign[of cs "hd cs = CHR ''-'' \<or> hd cs = CHR ''+''"]
    by linarith
  then show ?thesis by (auto simp: exponent_part_def Cons Let_def)
qed (simp add: exponent_part_def)

lemma strtod_used: "snd (strtod s) \<le> length s"
proof -
  define s0 where "s0 = skip_ws s"
  define s1 where "s1 = (if s0 \<noteq> [] \<and> (hd s0 = CHR ''-'' \<or> hd s0 = CHR ''+'') then tl s0 else s0)"
  define s2 where "s2 = dropWhile isdigit s1"
  define s3 where "s3 = (if s2 \<noteq> [] \<and> hd s2 = CHR ''.'' then dropWhile isdigit (tl s2) else s2)"
  have "length s0 \<le> length s" by (simp add: s0_def skip_ws_def length_dropWhile_le)
  moreover have "length s1 \<le> length s0" by (simp add: s1_def)
  moreover have "length s2 \<le> length s1" by (simp add: s2_def length_dropWhile_le)
  moreover have "length s3 \<le> length s2" using length_dropWhile_le[of isdigit "tl s2"] by (auto simp: s3_def)
  ultimately have "length s3 \<le> length s" by linarith
  moreover have "snd (strtod s) = 0 \<or> snd (strtod s) = length s - length s3 + snd (exponent_part s3)"
    unfolding strtod_def Let_def s3_def s2_def s1_def s0_def by (simp only: split_beta if_distrib[of snd] snd_conv) presburger
  ultimately show ?thesis using exponent_part_used[of s3] by linarith
qed

end
