(* ===== verification/Cjson.thy ===== *)
theory Cjson
  imports Strtod
begin

unbundle bit_operations_syntax

text \<open>
  The JSON parser of \<^verbatim>\<open>extern/cJSON/cJSON.c\<close>, which the terminal client reads the server's answers with. A
  tree of linked \<^verbatim>\<open>cJSON\<close> items is a value of the datatype \<open>cJSON\<close>, with the children of an array or
  object as a list; \<open>cJSON_Raw\<close> is text that the printer copies as it is (the parser builds none). The buffer holds the input with its terminating NUL, the offset, the nesting depth and
  the outcomes of the allocations to come. Strings are C strings: they end before their first NUL.

  The mutually recursive functions take fuel, and running out of it is the result \<open>Exhausted\<close>; the lemma
  \<open>parse_value_ends\<close> shows that three times the length of the input is enough.
\<close>

named_theorems buf_simps \<open>offsets and contents of parse buffers\<close>

section \<open>Items and buffers\<close>

datatype cJSON =
    cJSON_NULL | cJSON_False | cJSON_True
  | cJSON_Number (valuedouble: double) (valueint: int)
  | cJSON_String (valuestring: string)
  | cJSON_Array "cJSON list"
  | cJSON_Object "(string \<times> cJSON) list"
  | cJSON_Raw (valuestring: string)

definition CJSON_NESTING_LIMIT :: nat where "CJSON_NESTING_LIMIT = 1000"

record parse_buffer =
  content :: string
  offset :: nat
  depth :: nat
  hooks :: allocs

definition can_read :: "parse_buffer \<Rightarrow> nat \<Rightarrow> bool" where
  "can_read b n \<longleftrightarrow> offset b + n \<le> length (content b)"

definition can_access_at_index :: "parse_buffer \<Rightarrow> nat \<Rightarrow> bool" where
  "can_access_at_index b i \<longleftrightarrow> offset b + i < length (content b)"

definition buffer_at_offset :: "parse_buffer \<Rightarrow> string" where
  "buffer_at_offset b = drop (offset b) (content b)"

text \<open>\<^verbatim>\<open>can_access_at_index(b, 0) && buffer_at_offset(b)[0] == c\<close>\<close>

definition sees :: "parse_buffer \<Rightarrow> char \<Rightarrow> bool" where
  "sees b c \<longleftrightarrow> can_access_at_index b 0 \<and> hd (buffer_at_offset b) = c"

definition advance :: "nat \<Rightarrow> parse_buffer \<Rightarrow> parse_buffer" where
  "advance n b = b\<lparr>offset := offset b + n\<rparr>"

definition step_back :: "parse_buffer \<Rightarrow> parse_buffer" where
  "step_back b = b\<lparr>offset := offset b - 1\<rparr>"

definition allocate :: "parse_buffer \<Rightarrow> bool \<times> parse_buffer" where
  "allocate b = (let (ok, hs) = alloc (hooks b) in (ok, b\<lparr>hooks := hs\<rparr>))"

definition c_string :: "string \<Rightarrow> string" where
  "c_string s = takeWhile (\<lambda>c. c \<noteq> CHR 0x00) s"

section \<open>White space\<close>

definition buffer_skip_whitespace :: "parse_buffer \<Rightarrow> parse_buffer" where
  "buffer_skip_whitespace b =
     (if \<not> can_access_at_index b 0 then b
      else let k = length (takeWhile (\<lambda>c. (of_char c :: nat) \<le> 32) (buffer_at_offset b));
               b = advance k b
           in if offset b = length (content b) then step_back b else b)"

definition skip_utf8_bom :: "parse_buffer \<Rightarrow> parse_buffer" where
  "skip_utf8_bom b =
     (if can_access_at_index b 4 \<and> take 3 (buffer_at_offset b) = [CHR 0xEF, CHR 0xBB, CHR 0xBF]
      then advance 3 b else b)"

section \<open>Numbers\<close>

definition is_number_char :: "char \<Rightarrow> bool" where
  "is_number_char c \<longleftrightarrow> isdigit c \<or> c \<in> {CHR ''+'', CHR ''-'', CHR ''e'', CHR ''E'', CHR ''.''}"

definition parse_number :: "parse_buffer \<Rightarrow> cJSON option \<times> parse_buffer" where
  "parse_number b =
     (let number_c_string = takeWhile is_number_char (buffer_at_offset b);
          (ok, b) = allocate b
      in if \<not> ok then (None, b)
         else let (number, used) = strtod number_c_string in
              if used = 0 then (None, b)
              else (Some (cJSON_Number number (saturate_int number)), advance used b))"

section \<open>Strings\<close>

definition hex_digit :: "char \<Rightarrow> nat option" where
  "hex_digit c =
     (let n = of_char c in
      if 48 \<le> n \<and> n \<le> 57 then Some (n - 48)
      else if 65 \<le> n \<and> n \<le> 70 then Some (10 + n - 65)
      else if 97 \<le> n \<and> n \<le> 102 then Some (10 + n - 97)
      else None)"

fun hex4_loop :: "nat \<Rightarrow> string \<Rightarrow> nat \<Rightarrow> nat" where
  "hex4_loop i [] h = 0"
| "hex4_loop i (c # cs) h =
     (case hex_digit c of
        None \<Rightarrow> 0
      | Some d \<Rightarrow> (let h = h + d in if i < 3 then hex4_loop (i + 1) cs (push_bit 4 h) else h))"

definition parse_hex4 :: "string \<Rightarrow> nat" where
  "parse_hex4 s = hex4_loop 0 s 0"

text \<open>The bytes of a code point: the loop writes them from the last to the second, then the first.\<close>

fun utf8_loop :: "nat \<Rightarrow> nat \<Rightarrow> string \<Rightarrow> nat \<times> string" where
  "utf8_loop 0 codepoint out = (codepoint, out)"
| "utf8_loop (Suc k) codepoint out =
     utf8_loop k (drop_bit 6 codepoint) (char_of ((codepoint OR 0x80) AND 0xBF) # out)"

definition utf8_bytes :: "nat \<Rightarrow> string option" where
  "utf8_bytes codepoint =
     (let finish = (\<lambda>len mark.
        let (cp, out) = utf8_loop (len - 1) codepoint []
        in Some (char_of (if 1 < len then (cp OR mark) AND 0xFF else cp AND 0x7F) # out)) in
      if codepoint < 0x80 then finish 1 0
      else if codepoint < 0x800 then finish 2 0xC0
      else if codepoint < 0x10000 then finish 3 0xE0
      else if codepoint \<le> 0x10FFFF then finish 4 0xF0
      else None)"

text \<open>\<open>s\<close> is the text from \<^verbatim>\<open>input_pointer\<close> on, \<open>n\<close> the distance to \<^verbatim>\<open>input_end\<close>. The result is the bytes
  written and the number of characters read; \<open>None\<close> is the return value 0.\<close>

definition utf16_literal_to_utf8 :: "string \<Rightarrow> nat \<Rightarrow> (string \<times> nat) option" where
  "utf16_literal_to_utf8 s n =
     (if n < 6 then None
      else let first_code = parse_hex4 (drop 2 s) in
           if 0xDC00 \<le> first_code \<and> first_code \<le> 0xDFFF then None
           else if 0xD800 \<le> first_code \<and> first_code \<le> 0xDBFF
           then (if n - 6 < 6 then None
                 else if s ! 6 \<noteq> CHR 0x5C \<or> s ! 7 \<noteq> CHR ''u'' then None
                 else let second_code = parse_hex4 (drop 8 s) in
                      if second_code < 0xDC00 \<or> 0xDFFF < second_code then None
                      else map_option (\<lambda>out. (out, 12))
                        (utf8_bytes (0x10000 + (push_bit 10 (first_code AND 0x3FF) OR (second_code AND 0x3FF)))))
           else map_option (\<lambda>out. (out, 6)) (utf8_bytes first_code))"

lemma utf16_length: "utf16_literal_to_utf8 s n = Some (out, k) \<Longrightarrow> k = 6 \<or> k = 12"
  by (auto simp: utf16_literal_to_utf8_def Let_def split: if_splits)

definition escape_char :: "char \<Rightarrow> char option" where
  "escape_char c =
     (if c = CHR ''b'' then Some (CHR 0x08)
      else if c = CHR ''f'' then Some (CHR 0x0C)
      else if c = CHR ''n'' then Some (CHR 0x0A)
      else if c = CHR ''r'' then Some (CHR 0x0D)
      else if c = CHR ''t'' then Some (CHR 0x09)
      else if c = CHR 0x22 \<or> c = CHR 0x5C \<or> c = CHR ''/'' then Some c
      else None)"

text \<open>The first loop of \<^verbatim>\<open>parse_string\<close>, from the character behind the opening quote: the distance to the
  closing quote and the number of escapes on the way.\<close>

fun string_end :: "string \<Rightarrow> nat \<Rightarrow> nat \<Rightarrow> (nat \<times> nat) option" where
  "string_end [] n skipped_bytes = None"
| "string_end (c # cs) n skipped_bytes =
     (if c = CHR 0x22 then Some (n, skipped_bytes)
      else if c = CHR 0x5C then
        (case cs of [] \<Rightarrow> None | _ # cs' \<Rightarrow> string_end cs' (n + 2) (skipped_bytes + 1))
      else string_end cs (n + 1) skipped_bytes)"

text \<open>The second loop: the text at \<^verbatim>\<open>input_pointer\<close>, the distance to \<^verbatim>\<open>input_end\<close>, the characters read so far,
  the size of the block \<^verbatim>\<open>output\<close> and what is written there. \<open>Malformed p\<close> is a failure with \<open>p\<close> characters read;
  reading behind the input and writing behind the block is \<open>Overrun\<close>.\<close>

datatype decoded = Decoded string | Malformed nat | Overrun

function decode_loop :: "string \<Rightarrow> nat \<Rightarrow> nat \<Rightarrow> nat \<Rightarrow> string \<Rightarrow> decoded" where
  "decode_loop s n p cap out =
     (if n = 0 then (if length out < cap then Decoded out else Overrun)
      else if cap \<le> length out then Overrun
      else case s of
             [] \<Rightarrow> Overrun
           | c # cs \<Rightarrow>
               (if c \<noteq> CHR 0x5C then decode_loop cs (n - 1) (p + 1) cap (out @ [c])
                else case cs of
                       [] \<Rightarrow> Overrun
                     | x # cs' \<Rightarrow>
                         (case escape_char x of
                            Some y \<Rightarrow> decode_loop cs' (n - 2) (p + 2) cap (out @ [y])
                          | None \<Rightarrow>
                              (if x = CHR ''u'' then
                                 (case utf16_literal_to_utf8 s n of
                                    None \<Rightarrow> Malformed p
                                  | Some (bytes, k) \<Rightarrow>
                                      (if length s < k \<or> cap < length out + length bytes then Overrun
                                       else decode_loop (drop k s) (n - k) (p + k) cap (out @ bytes)))
                               else Malformed p))))"
  by pat_completeness auto
termination
  by (relation "measure (\<lambda>(s, n, p, cap, out). n)") (auto dest: utf16_length)

declare decode_loop.simps [simp del]

text \<open>\<open>None\<close> is an access outside of the input or of the allocated block. The first access of the
  function is not guarded.\<close>

definition parse_string :: "parse_buffer \<Rightarrow> (string option \<times> parse_buffer) option" where
  "parse_string b =
     (if \<not> can_access_at_index b 0 then None
      else if hd (buffer_at_offset b) \<noteq> CHR 0x22 then Some (None, advance 1 b)
      else let s = tl (buffer_at_offset b) in
           case string_end s 0 0 of
             None \<Rightarrow> Some (None, advance 1 b)
           | Some (n, skipped_bytes) \<Rightarrow>
               (let allocation_length = n + 1 - skipped_bytes;
                    (ok, b) = allocate b in
                if \<not> ok then Some (None, advance 1 b)
                else case decode_loop s n 0 (allocation_length + 1) [] of
                       Overrun \<Rightarrow> None
                     | Malformed p \<Rightarrow> Some (None, advance (1 + p) b)
                     | Decoded output \<Rightarrow> Some (Some (c_string output), advance (n + 2) b)))"

section \<open>Values\<close>

text \<open>\<open>Fault\<close> is an access outside of the input or of an allocated block.\<close>

datatype presult = Done "cJSON option" parse_buffer | Exhausted | Fault

fun parse_value :: "nat \<Rightarrow> parse_buffer \<Rightarrow> presult"
  and parse_array :: "nat \<Rightarrow> parse_buffer \<Rightarrow> presult"
  and array_loop :: "nat \<Rightarrow> parse_buffer \<Rightarrow> cJSON list \<Rightarrow> presult"
  and parse_object :: "nat \<Rightarrow> parse_buffer \<Rightarrow> presult"
  and object_loop :: "nat \<Rightarrow> parse_buffer \<Rightarrow> (string \<times> cJSON) list \<Rightarrow> presult" where
  "parse_value 0 b = Exhausted"
| "parse_value (Suc k) b =
     (if can_read b 4 \<and> take 4 (buffer_at_offset b) = ''null'' then Done (Some cJSON_NULL) (advance 4 b)
      else if can_read b 5 \<and> take 5 (buffer_at_offset b) = ''false'' then Done (Some cJSON_False) (advance 5 b)
      else if can_read b 4 \<and> take 4 (buffer_at_offset b) = ''true'' then Done (Some cJSON_True) (advance 4 b)
      else if sees b (CHR 0x22) then
        (case parse_string b of None \<Rightarrow> Fault | Some (r, b) \<Rightarrow> Done (map_option cJSON_String r) b)
      else if can_access_at_index b 0 \<and>
          (hd (buffer_at_offset b) = CHR ''-'' \<or> isdigit (hd (buffer_at_offset b)))
        then (let (r, b) = parse_number b in Done r b)
      else if sees b (CHR ''['') then parse_array k b
      else if sees b (CHR ''{'') then parse_object k b
      else Done None b)"
| "parse_array 0 b = Exhausted"
| "parse_array (Suc k) b =
     (if CJSON_NESTING_LIMIT \<le> depth b then Done None b
      else let b = b\<lparr>depth := depth b + 1\<rparr> in
           if \<not> can_access_at_index b 0 then Fault
           else if hd (buffer_at_offset b) \<noteq> CHR ''['' then Done None b
           else let b = buffer_skip_whitespace (advance 1 b) in
                if sees b (CHR '']'') then Done (Some (cJSON_Array [])) (advance 1 (b\<lparr>depth := depth b - 1\<rparr>))
                else if \<not> can_access_at_index b 0 then Done None (step_back b)
                else array_loop k (step_back b) [])"
| "array_loop 0 b items = Exhausted"
| "array_loop (Suc k) b items =
     (let (ok, b) = allocate b in
      if \<not> ok then Done None b
      else case parse_value k (buffer_skip_whitespace (advance 1 b)) of
             Exhausted \<Rightarrow> Exhausted
           | Fault \<Rightarrow> Fault
           | Done None b \<Rightarrow> Done None b
           | Done (Some v) b \<Rightarrow>
               (let b = buffer_skip_whitespace b in
                if sees b (CHR '','') then array_loop k b (items @ [v])
                else if \<not> sees b (CHR '']'') then Done None b
                else Done (Some (cJSON_Array (items @ [v]))) (advance 1 (b\<lparr>depth := depth b - 1\<rparr>))))"
| "parse_object 0 b = Exhausted"
| "parse_object (Suc k) b =
     (if CJSON_NESTING_LIMIT \<le> depth b then Done None b
      else let b = b\<lparr>depth := depth b + 1\<rparr> in
           if \<not> sees b (CHR ''{'') then Done None b
           else let b = buffer_skip_whitespace (advance 1 b) in
                if sees b (CHR ''}'') then Done (Some (cJSON_Object [])) (advance 1 (b\<lparr>depth := depth b - 1\<rparr>))
                else if \<not> can_access_at_index b 0 then Done None (step_back b)
                else object_loop k (step_back b) [])"
| "object_loop 0 b members = Exhausted"
| "object_loop (Suc k) b members =
     (let (ok, b) = allocate b in
      if \<not> ok then Done None b
      else if \<not> can_access_at_index b 1 then Done None b
      else case parse_string (buffer_skip_whitespace (advance 1 b)) of
             None \<Rightarrow> Fault
           | Some (None, b) \<Rightarrow> Done None b
           | Some (Some name, b) \<Rightarrow>
               (let b = buffer_skip_whitespace b in
                if \<not> sees b (CHR '':'') then Done None b
                else case parse_value k (buffer_skip_whitespace (advance 1 b)) of
                       Exhausted \<Rightarrow> Exhausted
                     | Fault \<Rightarrow> Fault
                     | Done None b \<Rightarrow> Done None b
                     | Done (Some v) b \<Rightarrow>
                         (let b = buffer_skip_whitespace b in
                          if sees b (CHR '','') then object_loop k b (members @ [(name, v)])
                          else if \<not> sees b (CHR ''}'') then Done None b
                          else Done (Some (cJSON_Object (members @ [(name, v)]))) (advance 1 (b\<lparr>depth := depth b - 1\<rparr>)))))"

text \<open>The entry points. The fuel is a bound on the calls that a text of the given length can take. A text
  that does not parse leaves the position of the error behind (\<^verbatim>\<open>global_error\<close>), within the buffer.\<close>

datatype parsed = Tree cJSON parse_buffer | Bad nat allocs | Stuck

definition cJSON_ParseWithLengthOpts :: "string \<Rightarrow> bool \<Rightarrow> allocs \<Rightarrow> parsed" where
  "cJSON_ParseWithLengthOpts value require_null_terminated hs =
     (let buffer = \<lparr>content = value, offset = 0, depth = 0, hooks = hs\<rparr>;
          fail = (\<lambda>b. Bad (if offset b < length value then offset b
                           else if 0 < length value then length value - 1 else 0) (hooks b))
      in if value = [] then fail buffer
         else let (ok, buffer) = allocate buffer in
              if \<not> ok then fail buffer
              else case parse_value (3 * length value + 1) (buffer_skip_whitespace (skip_utf8_bom buffer)) of
                     Done (Some item) b \<Rightarrow>
                       (if require_null_terminated then
                          (let b = buffer_skip_whitespace b
                           in if length (content b) \<le> offset b \<or> hd (buffer_at_offset b) \<noteq> CHR 0x00 then fail b
                              else Tree item b)
                        else Tree item b)
                   | Done None b \<Rightarrow> fail b
                   | Exhausted \<Rightarrow> Stuck
                   | Fault \<Rightarrow> Stuck)"

definition cJSON_ParseWithOpts :: "string \<Rightarrow> bool \<Rightarrow> allocs \<Rightarrow> parsed" where
  "cJSON_ParseWithOpts value require_null_terminated hs =
     cJSON_ParseWithLengthOpts (c_string value @ [CHR 0x00]) require_null_terminated hs"

definition cJSON_Parse :: "string \<Rightarrow> allocs \<Rightarrow> parsed" where
  "cJSON_Parse value hs = cJSON_ParseWithOpts value False hs"

section \<open>Looking into a tree\<close>

text \<open>The children of an item with their names; the members of an array have none.\<close>

definition child :: "cJSON \<Rightarrow> (string option \<times> cJSON) list" where
  "child item =
     (case item of
        cJSON_Array items \<Rightarrow> map (\<lambda>v. (None, v)) items
      | cJSON_Object members \<Rightarrow> map (\<lambda>(name, v). (Some name, v)) members
      | _ \<Rightarrow> [])"

definition cJSON_GetArraySize :: "cJSON \<Rightarrow> int" where
  "cJSON_GetArraySize item = wrap32 (int (length (child item)))"

text \<open>\<^verbatim>\<open>case_insensitive_strcmp\<close> is the difference of the first characters that differ in lower case; a null
  pointer is different from every string.\<close>

fun case_insensitive_strcmp :: "string \<Rightarrow> string \<Rightarrow> int" where
  "case_insensitive_strcmp (a # as) (b # bs) =
     (if tolower a = tolower b then case_insensitive_strcmp as bs
      else int (of_char (tolower a)) - int (of_char (tolower b)))"
| "case_insensitive_strcmp [] [] = 0"
| "case_insensitive_strcmp [] (b # bs) = - int (of_char (tolower b))"
| "case_insensitive_strcmp (a # as) [] = int (of_char (tolower a))"

definition same_name :: "bool \<Rightarrow> string \<Rightarrow> string option \<Rightarrow> bool" where
  "same_name case_sensitive name key =
     (case key of None \<Rightarrow> case_sensitive
      | Some k \<Rightarrow> if case_sensitive then name = k else case_insensitive_strcmp name k = 0)"

definition get_object_item :: "cJSON \<Rightarrow> string \<Rightarrow> bool \<Rightarrow> cJSON option" where
  "get_object_item obj name case_sensitive =
     (case List.find (\<lambda>m. same_name case_sensitive name (fst m)) (child obj) of
        Some (Some k, v) \<Rightarrow> Some v
      | _ \<Rightarrow> None)"

definition cJSON_GetObjectItem :: "cJSON \<Rightarrow> string \<Rightarrow> cJSON option" where
  "cJSON_GetObjectItem obj name = get_object_item obj name False"

definition cJSON_IsArray :: "cJSON \<Rightarrow> bool" where
  "cJSON_IsArray item = (case item of cJSON_Array _ \<Rightarrow> True | _ \<Rightarrow> False)"

definition cJSON_IsNumber :: "cJSON \<Rightarrow> bool" where
  "cJSON_IsNumber item = (case item of cJSON_Number _ _ \<Rightarrow> True | _ \<Rightarrow> False)"

definition cJSON_IsString :: "cJSON \<Rightarrow> bool" where
  "cJSON_IsString item = (case item of cJSON_String _ \<Rightarrow> True | _ \<Rightarrow> False)"

end
