(* ===== verification/Cjson_Safety.thy ===== *)
theory Cjson_Safety
  imports Cjson
begin

text \<open>
  Memory safety and termination of the JSON parser. The second loop of \<^verbatim>\<open>parse_string\<close> writes no more than
  the first one asked for, also where the two disagree about where an escape starts (behind a
  \<^verbatim>\<open>\u\<close> with a backslash among its four digits); no access is outside of the input; and fuel of three
  times the length of the input is enough for the mutually recursive functions.
\<close>

section \<open>Strings\<close>

text \<open>The text from a position of the first loop on, with the distance to the closing quote and the number of
  escapes.\<close>

inductive aligned :: "string \<Rightarrow> nat \<Rightarrow> nat \<Rightarrow> bool" where
  closing: "aligned (CHR 0x22 # cs) 0 0"
| escape: "aligned cs n e \<Longrightarrow> aligned (CHR 0x5C # x # cs) (Suc (Suc n)) (Suc e)"
| plain: "c \<noteq> CHR 0x22 \<Longrightarrow> c \<noteq> CHR 0x5C \<Longrightarrow> aligned cs n e \<Longrightarrow> aligned (c # cs) (Suc n) e"

inductive_cases aligned_ConsE: "aligned (c # cs) n e"
inductive_cases aligned_0E: "aligned s 0 e"

text \<open>The second loop is at the start of an item of the first, or in the middle of an escape of it.\<close>

inductive tracked :: "string \<Rightarrow> nat \<Rightarrow> nat \<Rightarrow> bool" where
  at_item: "aligned s n e \<Longrightarrow> tracked s n e"
| in_escape: "aligned cs n e \<Longrightarrow> tracked (c # cs) (Suc n) e"

inductive_cases tracked_ConsE: "tracked (c # cs) (Suc n) e"
inductive_cases tracked_0E: "tracked s 0 e"

lemma string_end_aligned:
  "string_end s m k = Some (n', e') \<Longrightarrow> \<exists>n e. n' = m + n \<and> e' = k + e \<and> aligned s n e"
proof (induction s m k rule: string_end.induct)
  case (2 c cs m k)
  consider "c = CHR 0x22" | "c = CHR 0x5C" | "c \<noteq> CHR 0x22" "c \<noteq> CHR 0x5C" by blast
  then show ?case
  proof cases
    case 2
    with "2.prems" obtain x cs' where cs: "cs = x # cs'" by (cases cs) auto
    with "2.prems" 2 "2.IH"(1)[of x cs'] obtain n e where "n' = m + 2 + n" "e' = k + 1 + e" "aligned cs' n e" by auto
    then show ?thesis using 2 cs aligned.escape[of cs' n e x] by (intro exI[of _ "Suc (Suc n)"] exI[of _ "Suc e"]) auto
  next
    case 3
    with "2.prems" "2.IH"(2) obtain n e where "n' = m + 1 + n" "e' = k + e" "aligned cs n e" by auto
    then show ?thesis using 3 aligned.plain by (intro exI[of _ "Suc n"] exI[of _ e]) auto
  qed (use "2.prems" aligned.closing in auto)
qed simp

lemma aligned_length: "aligned s n e \<Longrightarrow> n < length s \<and> e \<le> n"
  by (induction rule: aligned.induct) auto

lemma tracked_length: "tracked s n e \<Longrightarrow> n \<le> length s"
  by (induction rule: tracked.induct) (auto dest: aligned_length)

lemma tracked_Suc: "tracked s (Suc n) e \<Longrightarrow> \<exists>c cs. s = c # cs"
  using tracked_length[of s "Suc n" e] by (auto simp: Suc_le_length_iff)

text \<open>One character of the second loop.\<close>

lemma tracked_plain: "tracked (c # cs) (Suc n) e \<Longrightarrow> c \<noteq> CHR 0x5C \<Longrightarrow> tracked cs n e"
  by (auto elim!: tracked_ConsE aligned_ConsE intro: tracked.intros)

text \<open>Two characters hold at most one escape of the first loop.\<close>

lemma tracked_two:
  assumes "tracked s (Suc (Suc n)) e"
  shows "\<exists>e'. tracked (drop 2 s) n e' \<and> e \<le> Suc e'"
proof -
  obtain c cs where s: "s = c # cs" using tracked_Suc assms by blast
  from assms have "(\<exists>e'. tracked (tl cs) n e' \<and> e \<le> Suc e') \<or> tracked cs (Suc n) e"
    unfolding s by (auto elim!: tracked_ConsE aligned_ConsE intro: tracked.intros) (blast intro: tracked.intros)?
  then consider "\<exists>e'. tracked (tl cs) n e' \<and> e \<le> Suc e'" | "tracked cs (Suc n) e" by blast
  then show ?thesis
  proof cases
    case 2
    then obtain d ds where cs: "cs = d # ds" using tracked_Suc by blast
    from 2 show ?thesis unfolding s cs
      by (auto elim!: tracked_ConsE aligned_ConsE intro: tracked.intros le_SucI)
  qed (simp add: s drop_Suc)
qed

lemma tracked_window:
  "tracked s (2 * k + n) e \<Longrightarrow> \<exists>e'. tracked (drop (2 * k) s) n e' \<and> e \<le> k + e'"
proof (induction k arbitrary: s e)
  case (Suc k)
  then obtain e1 where e1: "tracked (drop 2 s) (2 * k + n) e1" "e \<le> Suc e1" using tracked_two by fastforce
  from Suc.IH[OF this(1)] e1(2) show ?case by (auto simp: add.commute intro: le_trans)
qed auto

lemma utf8_loop_length: "length (snd (utf8_loop k cp out)) = k + length out"
  by (induction k cp out rule: utf8_loop.induct) auto

lemma utf8_bytes_length: "utf8_bytes cp = Some out \<Longrightarrow> length out \<le> (if cp < 0x10000 then 3 else 4)"
  by (auto simp: utf8_bytes_def Let_def split_beta utf8_loop_length simp del: utf8_loop.simps split: if_splits)

lemma hex_digit_bound: "hex_digit c = Some d \<Longrightarrow> d < 16"
  by (auto simp: hex_digit_def Let_def split: if_splits)

lemma hex4_loop_bound: "i \<le> 3 \<Longrightarrow> h + 16 \<le> 16 ^ (i + 1) \<Longrightarrow> hex4_loop i s h < 16 ^ 4"
proof (induction i s h rule: hex4_loop.induct)
  case (2 i c cs h)
  show ?case
  proof (cases "hex_digit c")
    case (Some d)
    note d = hex_digit_bound[OF Some]
    show ?thesis
    proof (cases "i < 3")
      case True
      have "push_bit 4 (h + d) + 16 \<le> 16 ^ (i + 1 + 1)" using 2(3) d by (simp add: push_bit_eq_mult)
      with 2(1)[OF Some refl True] True show ?thesis using Some by (simp add: Let_def)
    next
      case False
      then have "i = 3" using 2(2) by simp
      then show ?thesis using 2(3) d Some by (simp add: Let_def)
    qed
  qed simp
qed simp

lemma parse_hex4_bound: "parse_hex4 s < 0x10000"
  using hex4_loop_bound[of 0 0 s] by (simp add: parse_hex4_def)

lemma utf16_bounds:
  assumes "utf16_literal_to_utf8 s n = Some (out, k)"
  shows "k \<le> n \<and> 2 * length out \<le> k \<and> (k = 2 * 3 \<or> k = 2 * 6)"
proof -
  consider cp where "k = 6" "6 \<le> n" "cp < 0x10000" "utf8_bytes cp = Some out"
    | cp where "k = 12" "12 \<le> n" "utf8_bytes cp = Some out"
    using assms parse_hex4_bound by (auto simp: utf16_literal_to_utf8_def Let_def split: if_splits)
  then show ?thesis by cases (auto dest: utf8_bytes_length split: if_splits)
qed

lemma escape_not_u: "escape_char (CHR ''u'') = None"
  by (simp add: escape_char_def)

lemma tracked_escapes: "tracked s n e \<Longrightarrow> e \<le> n"
  by (induction rule: tracked.induct) (auto dest: aligned_length)

lemma decode_loop_0: "decode_loop s 0 p cap out = (if length out < cap then Decoded out else Overrun)"
  by (simp add: decode_loop.simps)

lemma decode_loop_steps:
  assumes "length out < cap"
  shows "c \<noteq> CHR 0x5C \<Longrightarrow> decode_loop (c # cs) (Suc m) p cap out = decode_loop cs m (p + 1) cap (out @ [c])"
    and "escape_char x = Some y \<Longrightarrow>
      decode_loop (CHR 0x5C # x # cs) (Suc m) p cap out = decode_loop cs (m - 1) (p + 2) cap (out @ [y])"
    and "escape_char x = None \<Longrightarrow> \<not> (x = CHR ''u'' \<and> utf16_literal_to_utf8 (CHR 0x5C # x # cs) (Suc m) \<noteq> None) \<Longrightarrow>
      decode_loop (CHR 0x5C # x # cs) (Suc m) p cap out = Malformed p"
    and "utf16_literal_to_utf8 (CHR 0x5C # CHR ''u'' # cs) (Suc m) = Some (bytes, k) \<Longrightarrow>
      k \<le> length (CHR 0x5C # CHR ''u'' # cs) \<Longrightarrow> length out + length bytes \<le> cap \<Longrightarrow>
      decode_loop (CHR 0x5C # CHR ''u'' # cs) (Suc m) p cap out =
        decode_loop (drop k (CHR 0x5C # CHR ''u'' # cs)) (Suc m - k) (p + k) cap (out @ bytes)"
proof -
  note unf = decode_loop.simps[of "c # cs" "Suc m"] decode_loop.simps[of "CHR 0x5C # x # cs" "Suc m"]
      decode_loop.simps[of "CHR 0x5C # CHR ''u'' # cs" "Suc m"]
  show "c \<noteq> CHR 0x5C \<Longrightarrow> decode_loop (c # cs) (Suc m) p cap out = decode_loop cs m (p + 1) cap (out @ [c])"
    using assms by (simp add: unf)
  show "escape_char x = Some y \<Longrightarrow>
      decode_loop (CHR 0x5C # x # cs) (Suc m) p cap out = decode_loop cs (m - 1) (p + 2) cap (out @ [y])"
    using assms by (simp add: unf)
  show "decode_loop (CHR 0x5C # x # cs) (Suc m) p cap out = Malformed p"
    if "escape_char x = None" "\<not> (x = CHR ''u'' \<and> utf16_literal_to_utf8 (CHR 0x5C # x # cs) (Suc m) \<noteq> None)"
    using assms that by (cases "x = CHR ''u''") (auto simp: unf simp del: not_None_eq)
  show "decode_loop (CHR 0x5C # CHR ''u'' # cs) (Suc m) p cap out =
        decode_loop (drop k (CHR 0x5C # CHR ''u'' # cs)) (Suc m - k) (p + k) cap (out @ bytes)"
    if "utf16_literal_to_utf8 (CHR 0x5C # CHR ''u'' # cs) (Suc m) = Some (bytes, k)"
      "k \<le> length (CHR 0x5C # CHR ''u'' # cs)" "length out + length bytes \<le> cap"
    using assms that by (simp add: unf escape_char_def)
qed

text \<open>The block that the first loop asks for has room for what the second one writes.\<close>

definition decode_ok :: "nat \<Rightarrow> nat \<Rightarrow> nat \<Rightarrow> decoded \<Rightarrow> bool" where
  "decode_ok p n cap r =
     (case r of Overrun \<Rightarrow> False | Malformed q \<Rightarrow> p \<le> q \<and> q \<le> p + n | Decoded out \<Rightarrow> length out < cap)"

lemma decode_ok_mono: "decode_ok (p + k) (n - k) cap r \<Longrightarrow> k \<le> n \<Longrightarrow> decode_ok p n cap r"
  by (auto simp: decode_ok_def split: decoded.splits)

lemma tracked_backslash: "tracked (CHR 0x5C # cs) (Suc m) e \<Longrightarrow> \<exists>x cs'. cs = x # cs'"
  by (auto elim!: tracked_ConsE aligned_ConsE dest!: aligned_length simp: neq_Nil_conv[symmetric])

lemma decode_loop_fits:
  assumes "tracked s n e" and "length out + n + 2 \<le> cap + e"
  shows "decode_ok p n cap (decode_loop s n p cap out)"
  using assms
proof (induction n arbitrary: s e p out rule: less_induct)
  case (less n)
  note tr = less.prems(1) and fits = less.prems(2)
  note en = tracked_escapes[OF tr]
  from en fits have room: "length out < cap" by linarith
  show ?case
  proof (cases n)
    case 0
    then show ?thesis using room by (simp add: decode_loop_0 decode_ok_def)
  next
    case (Suc m)
    then obtain c cs where s: "s = c # cs" using tracked_Suc tr by blast
    note steps = decode_loop_steps[OF room]
    consider "c \<noteq> CHR 0x5C"
      | x cs' y where "c = CHR 0x5C" "cs = x # cs'" "escape_char x = Some y"
      | cs' bytes k where "c = CHR 0x5C" "cs = CHR ''u'' # cs'" "utf16_literal_to_utf8 s n = Some (bytes, k)"
      | x cs' where "c = CHR 0x5C" "cs = x # cs'" "escape_char x = None" "\<not> (x = CHR ''u'' \<and> utf16_literal_to_utf8 s n \<noteq> None)"
      using tr tracked_backslash unfolding s Suc by (cases "c = CHR 0x5C") fastforce+
    then show ?thesis
    proof cases
      case 1
      have "decode_ok (p + 1) (n - 1) cap (decode_loop cs m (p + 1) cap (out @ [c]))"
        using less.IH[of m cs e "out @ [c]" "p + 1"] tracked_plain[of c cs m e] 1 tr fits Suc s by simp
      from decode_ok_mono[OF this] show ?thesis by (simp add: s Suc steps(1)[OF 1])
    next
      case (2 x cs' y)
      show ?thesis
      proof (cases m)
        case 0
        with en fits Suc have "length (out @ [y]) < cap" by simp
        then show ?thesis by (simp add: s Suc 2 0 steps(2) decode_loop_0 decode_ok_def)
      next
        case m: (Suc k)
        then obtain e' where "tracked cs' k e'" "e \<le> Suc e'" using tracked_two[of s k e] tr Suc s 2 by auto
        then have "decode_ok (p + 2) (n - 2) cap (decode_loop cs' k (p + 2) cap (out @ [y]))"
          using less.IH[of k cs' e' "out @ [y]" "p + 2"] fits m Suc by simp
        from decode_ok_mono[OF this] show ?thesis by (simp add: s Suc m 2 steps(2))
      qed
    next
      case (3 cs' bytes k)
      note b = utf16_bounds[OF 3(3)]
      then obtain h where h: "k = 2 * h" "length bytes \<le> h" "0 < k" "k \<le> n" by auto
      with tr obtain e' where e': "tracked (drop k s) (n - k) e'" "e \<le> h + e'"
        using tracked_window[of s h "n - k" e] by auto
      with h fits have f: "length (out @ bytes) + (n - k) + 2 \<le> cap + e'" by simp
      have "k \<le> length s" using tracked_length[OF tr] h by linarith
      moreover have "length out + length bytes \<le> cap" using f tracked_escapes[OF e'(1)] by simp
      ultimately have "decode_loop s n p cap out = decode_loop (drop k s) (n - k) (p + k) cap (out @ bytes)"
        using steps(4) 3 unfolding s Suc by blast
      moreover have "decode_ok (p + k) (n - k) cap (decode_loop (drop k s) (n - k) (p + k) cap (out @ bytes))"
        using less.IH[OF _ e'(1) f] h by simp
      ultimately show ?thesis using decode_ok_mono h by metis
    qed (simp add: s Suc steps(3) decode_ok_def)
  qed
qed

section \<open>Buffers\<close>

lemma advance_simps [buf_simps]:
  "content (advance n b) = content b" "offset (advance n b) = offset b + n"
  "depth (advance n b) = depth b" "hooks (advance n b) = hooks b"
  by (simp_all add: advance_def)

lemma step_back_simps [buf_simps]:
  "content (step_back b) = content b" "offset (step_back b) = offset b - 1"
  "depth (step_back b) = depth b" "hooks (step_back b) = hooks b"
  by (simp_all add: step_back_def)

lemma allocate_simps [buf_simps]:
  "content (snd (allocate b)) = content b" "offset (snd (allocate b)) = offset b" "depth (snd (allocate b)) = depth b"
  by (simp_all add: allocate_def split_beta)

lemma skip_ws_simps [buf_simps]:
  "content (buffer_skip_whitespace b) = content b" "depth (buffer_skip_whitespace b) = depth b"
  "hooks (buffer_skip_whitespace b) = hooks b"
  by (simp_all add: buffer_skip_whitespace_def Let_def buf_simps)

lemma skip_ws_offset:
  "offset b \<le> offset (buffer_skip_whitespace b)"
  "offset b < length (content b) \<Longrightarrow> offset (buffer_skip_whitespace b) < length (content b)"
  "offset b \<le> length (content b) \<Longrightarrow> offset (buffer_skip_whitespace b) \<le> length (content b)"
  using length_takeWhile_le[of "\<lambda>c. (of_char c :: nat) \<le> 32" "buffer_at_offset b"]
  by (auto simp: buffer_skip_whitespace_def Let_def buf_simps can_access_at_index_def buffer_at_offset_def)

lemma access_iff [buf_simps]: "can_access_at_index b i \<longleftrightarrow> offset b + i < length (content b)"
  by (simp add: can_access_at_index_def)

lemma sees_access: "sees b c \<Longrightarrow> offset b < length (content b)"
  by (simp add: sees_def buf_simps)

text \<open>The parser only moves forward and stays in its text; when it has an item it has read something of
  it, and is back at the depth \<open>d\<close>.\<close>

definition moved :: "parse_buffer \<Rightarrow> parse_buffer \<Rightarrow> bool" where
  "moved b b' \<longleftrightarrow> content b' = content b \<and> offset b \<le> offset b' \<and> offset b' \<le> length (content b)"

definition ends :: "nat \<Rightarrow> parse_buffer \<Rightarrow> presult \<Rightarrow> bool" where
  "ends d b r = (case r of Done v b' \<Rightarrow> moved b b' \<and> (v \<noteq> None \<longrightarrow> offset b < offset b' \<and> depth b' = d) | _ \<Rightarrow> False)"

lemma ends_later:
  assumes "ends d b' r" and "content b' = content b" and "offset b \<le> offset b'"
  shows "ends d b r"
  using assms by (auto simp: ends_def moved_def split: presult.splits)

lemma parse_number_ends: "offset b \<le> length (content b) \<Longrightarrow> ends (depth b) b (let (r, b') = parse_number b in Done r b')"
proof -
  assume b: "offset b \<le> length (content b)"
  let ?s = "takeWhile is_number_char (buffer_at_offset b)"
  have "snd (strtod ?s) \<le> length (buffer_at_offset b)"
    using strtod_used[of ?s] length_takeWhile_le[of is_number_char "buffer_at_offset b"] by linarith
  then show ?thesis using b
    by (auto simp: parse_number_def Let_def split_beta ends_def moved_def buf_simps buffer_at_offset_def)
qed

lemma parse_string_ends:
  assumes "offset b < length (content b)"
  shows "\<exists>r b'. parse_string b = Some (r, b') \<and> moved b b' \<and> offset b < offset b' \<and> depth b' = depth b"
proof -
  let ?s = "tl (buffer_at_offset b)"
  have len: "length ?s = length (content b) - offset b - 1" by (simp add: buffer_at_offset_def)
  show ?thesis
  proof (cases "hd (buffer_at_offset b) = CHR 0x22 \<and> string_end ?s 0 0 \<noteq> None \<and> fst (allocate b)")
    case True
    then obtain n e where ne: "string_end ?s 0 0 = Some (n, e)" by auto
    then have al: "aligned ?s n e" using string_end_aligned[of ?s 0 0 n e] by auto
    note n = aligned_length[OF al]
    have "decode_ok 0 n (n + 1 - e + 1) (decode_loop ?s n 0 (n + 1 - e + 1) [])"
      using n by (intro decode_loop_fits[OF tracked.at_item[OF al]]) simp
    then show ?thesis using True ne n len assms
      by (auto simp: parse_string_def Let_def split_beta buf_simps moved_def decode_ok_def split: decoded.splits)
  next
    case False
    then show ?thesis using assms
      by (auto simp: parse_string_def Let_def split_beta buf_simps moved_def split: option.splits)
  qed
qed

section \<open>The parser ends\<close>

text \<open>Three calls for every character that is left.\<close>

definition need :: "parse_buffer \<Rightarrow> nat" where
  "need b = 3 * (length (content b) - offset b)"

definition value_ends :: "nat \<Rightarrow> bool" where
  "value_ends k \<longleftrightarrow> (\<forall>b. offset b \<le> length (content b) \<longrightarrow> need b < k \<longrightarrow> ends (depth b) b (parse_value k b))"

definition loop_ends :: "nat \<Rightarrow> (parse_buffer \<Rightarrow> presult) \<Rightarrow> bool" where
  "loop_ends k f \<longleftrightarrow> (\<forall>b. offset b < length (content b) \<longrightarrow> need b \<le> k \<longrightarrow> ends (depth b - 1) b (f b))"

definition nested_ends :: "nat \<Rightarrow> (parse_buffer \<Rightarrow> presult) \<Rightarrow> bool" where
  "nested_ends k f \<longleftrightarrow> (\<forall>b. offset b < length (content b) \<longrightarrow> need b \<le> k \<longrightarrow> ends (depth b) b (f b))"

lemma need_later: "content b' = content b \<Longrightarrow> offset b < offset b' \<Longrightarrow> offset b < length (content b) \<Longrightarrow> need b' + 3 \<le> need b"
  by (simp add: need_def)

lemma value_endsD:
  assumes "value_ends k" and "content b' = content b" and "offset b < offset b'" and "offset b' \<le> length (content b)"
    and "need b \<le> k + 2"
  shows "ends (depth b') b' (parse_value k b')"
proof -
  have "need b' < k" using need_later[of b' b] assms by simp
  then show ?thesis using assms by (simp add: value_ends_def)
qed

lemma loop_endsD:
  assumes "loop_ends m f" and "content b' = content b" and "offset b \<le> offset b'" and "offset b' < length (content b)"
    and "need b' \<le> m"
  shows "ends (depth b' - 1) b (f b')"
proof -
  have "ends (depth b' - 1) b' (f b')" using assms by (simp add: loop_ends_def)
  then show ?thesis using assms(2,3) by (rule ends_later)
qed

text \<open>The part of both loops from a value on: the value, white space, and the loop again behind a comma.\<close>

lemma value_then_loop:
  assumes V: "value_ends k" and L: "\<And>v. loop_ends (k + 1) (f v)"
    and b: "offset b < length (content b)" "need b \<le> k + 2"
    and b2: "content b2 = content b" "offset b < offset b2" "offset b2 \<le> length (content b)" "depth b2 = depth b"
  shows "ends (depth b - 1) b
    (case parse_value k b2 of
       Exhausted \<Rightarrow> Exhausted
     | Fault \<Rightarrow> Fault
     | Done None b \<Rightarrow> Done None b
     | Done (Some v) b \<Rightarrow>
         (let b = buffer_skip_whitespace b in
          if sees b (CHR '','') then f v b
          else if \<not> sees b close then Done None b
          else Done (Some (g v)) (advance 1 (b\<lparr>depth := depth b - 1\<rparr>))))"
proof -
  have "ends (depth b) b2 (parse_value k b2)" using value_endsD[OF V b2(1-3) b(2)] b2(4) by simp
  then consider b3 where "parse_value k b2 = Done None b3" "moved b2 b3"
    | v b3 where "parse_value k b2 = Done (Some v) b3" "moved b2 b3" "offset b2 < offset b3" "depth b3 = depth b"
    by (auto simp: ends_def split: presult.splits)
  then show ?thesis
  proof cases
    case 1
    then show ?thesis using b2 by (simp add: ends_def moved_def)
  next
    case (2 v b3)
    let ?b4 = "buffer_skip_whitespace b3"
    have o4: "offset b < offset ?b4" "offset ?b4 \<le> length (content b)" "content ?b4 = content b" "depth ?b4 = depth b"
      using skip_ws_offset(1,3)[of b3] 2 b2 by (auto simp: moved_def buf_simps)
    have "ends (depth b - 1) b (f v ?b4)" if "sees ?b4 (CHR '','')"
      using loop_endsD[OF L[of v] o4(3)] need_later[OF o4(3,1) b(1)] sees_access[OF that] b(2) o4 by simp
    then show ?thesis using 2(1) o4 sees_access[of ?b4 close] by (auto simp: ends_def moved_def Let_def buf_simps)
  qed
qed

lemma array_loop_step:
  assumes V: "value_ends k" and L: "\<And>items. loop_ends (k + 1) (\<lambda>b. array_loop k b items)"
  shows "loop_ends (Suc k + 1) (\<lambda>b. array_loop (Suc k) b items)"
  unfolding loop_ends_def
proof (intro allI impI)
  fix b assume b: "offset b < length (content b)" "need b \<le> Suc k + 1"
  obtain ok b1 where b1: "allocate b = (ok, b1)" by fastforce
  then have same: "content b1 = content b" "offset b1 = offset b" "depth b1 = depth b" using allocate_simps[of b] by simp_all
  let ?b2 = "buffer_skip_whitespace (advance 1 b1)"
  have "content ?b2 = content b" "offset b < offset ?b2" "offset ?b2 \<le> length (content b)" "depth ?b2 = depth b"
    using skip_ws_offset(1,3)[of "advance 1 b1"] b same by (simp_all add: buf_simps)
  from value_then_loop[OF V L b(1) _ this] b(2) show "ends (depth b - 1) b (array_loop (Suc k) b items)"
    using b1 same b by (simp add: ends_def moved_def)
qed

lemma object_loop_step:
  assumes V: "value_ends k" and L: "\<And>members. loop_ends (k + 1) (\<lambda>b. object_loop k b members)"
  shows "loop_ends (Suc k + 1) (\<lambda>b. object_loop (Suc k) b members)"
  unfolding loop_ends_def
proof (intro allI impI)
  fix b assume b: "offset b < length (content b)" "need b \<le> Suc k + 1"
  obtain ok b1 where b1: "allocate b = (ok, b1)" by fastforce
  then have same: "content b1 = content b" "offset b1 = offset b" "depth b1 = depth b" using allocate_simps[of b] by simp_all
  show "ends (depth b - 1) b (object_loop (Suc k) b members)"
  proof (cases "ok \<and> can_access_at_index b1 1")
    case True
    let ?b2 = "buffer_skip_whitespace (advance 1 b1)"
    have b2: "content ?b2 = content b" "offset b < offset ?b2" "offset ?b2 < length (content ?b2)" "depth ?b2 = depth b"
      using skip_ws_offset(1,2)[of "advance 1 b1"] True same by (simp_all add: buf_simps)
    from parse_string_ends[OF b2(3)] obtain r b3 where
      b3: "parse_string ?b2 = Some (r, b3)" "moved ?b2 b3" "offset ?b2 < offset b3" "depth b3 = depth b" using b2(4) by auto
    let ?b4 = "buffer_skip_whitespace b3"
    have b4: "content ?b4 = content b" "offset b < offset ?b4" "offset ?b4 \<le> length (content b)" "depth ?b4 = depth b"
      using skip_ws_offset(1,3)[of b3] b3 b2 by (auto simp: moved_def buf_simps)
    let ?b5 = "buffer_skip_whitespace (advance 1 ?b4)"
    have "content ?b5 = content b" "offset b < offset ?b5" "offset ?b5 \<le> length (content b)" "depth ?b5 = depth b" if "sees ?b4 (CHR '':'')"
      using skip_ws_offset(1,3)[of "advance 1 ?b4"] b4 sees_access[OF that] by (simp_all add: buf_simps)
    from value_then_loop[OF V L b(1) _ this] b(2) show ?thesis
      using b1 True b3 b4 b2 by (cases r) (auto simp: ends_def[of _ _ "Done None _"] moved_def Let_def)
  qed (use b1 same b in \<open>auto simp: ends_def moved_def\<close>)
qed

text \<open>An array or object: one step deeper, and into the loop.\<close>

lemma open_then_loop:
  assumes L: "loop_ends (k + 1) f" and b: "offset b < length (content b)" "need b \<le> Suc k"
  shows "ends (depth b) b
    (let b1 = buffer_skip_whitespace (advance 1 (b\<lparr>depth := depth b + 1\<rparr>)) in
     if sees b1 close then Done (Some v) (advance 1 (b1\<lparr>depth := depth b1 - 1\<rparr>))
     else if \<not> can_access_at_index b1 0 then Done None (step_back b1)
     else f (step_back b1))"
proof -
  let ?b1 = "buffer_skip_whitespace (advance 1 (b\<lparr>depth := depth b + 1\<rparr>))"
  have o1: "offset b < offset ?b1" "offset ?b1 \<le> length (content b)" "content ?b1 = content b" "depth ?b1 = depth b + 1"
    using skip_ws_offset(1,3)[of "advance 1 (b\<lparr>depth := depth b + 1\<rparr>)"] b by (simp_all add: buf_simps)
  have "ends (depth b) b (f (step_back ?b1))" if "can_access_at_index ?b1 0"
  proof -
    have "need (step_back ?b1) \<le> need b" using o1 by (auto simp: need_def buf_simps)
    then show ?thesis using loop_endsD[OF L, of "step_back ?b1" b] that o1 b by (simp add: buf_simps)
  qed
  then show ?thesis using o1 sees_access[of ?b1] by (auto simp: ends_def moved_def Let_def buf_simps)
qed

lemma nested_step:
  assumes "\<And>items. loop_ends (k + 1) (\<lambda>b. array_loop k b items)"
    and "\<And>members. loop_ends (k + 1) (\<lambda>b. object_loop k b members)"
  shows "nested_ends (Suc k) (parse_array (Suc k))" "nested_ends (Suc k) (parse_object (Suc k))"
proof -
  have "ends (depth b) b (parse_array (Suc k) b)" "ends (depth b) b (parse_object (Suc k) b)"
    if "offset b < length (content b)" "need b \<le> Suc k" for b
    using open_then_loop[OF assms(1)[of "[]"] that] open_then_loop[OF assms(2)[of "[]"] that] that
    by (auto simp: Let_def buf_simps ends_def[of _ _ "Done None _"] moved_def)
  then show "nested_ends (Suc k) (parse_array (Suc k))" "nested_ends (Suc k) (parse_object (Suc k))"
    by (auto simp: nested_ends_def)
qed

lemma value_step:
  assumes "nested_ends k (parse_array k)" and "nested_ends k (parse_object k)"
  shows "value_ends (Suc k)"
  unfolding value_ends_def
proof (intro allI impI)
  fix b assume b: "offset b \<le> length (content b)" "need b < Suc k"
  have "ends (depth b) b (parse_array k b)" "ends (depth b) b (parse_object k b)" if "sees b c" for c
    using assms b sees_access[OF that] by (simp_all add: nested_ends_def)
  moreover have "ends (depth b) b (case parse_string b of None \<Rightarrow> Fault | Some (r, b) \<Rightarrow> Done (map_option cJSON_String r) b)"
    if "sees b c" for c
    using parse_string_ends[OF sees_access[OF that]] by (auto simp: ends_def)
  moreover have "ends (depth b) b (Done (Some v) (advance n b))" if "can_read b n" "0 < n" for n v
    using that by (simp add: ends_def moved_def can_read_def buf_simps)
  moreover have "ends (depth b) b (Done None b)" using b by (simp add: ends_def moved_def)
  ultimately show "ends (depth b) b (parse_value (Suc k) b)"
    using parse_number_ends[OF b(1)] by (simp only: parse_value.simps split: if_split) simp
qed

lemma parser_ends:
  "value_ends k \<and> nested_ends k (parse_array k) \<and> nested_ends k (parse_object k) \<and>
   (\<forall>items. loop_ends (k + 1) (\<lambda>b. array_loop k b items)) \<and> (\<forall>members. loop_ends (k + 1) (\<lambda>b. object_loop k b members))"
proof (induction k)
  case 0
  show ?case by (auto simp: value_ends_def nested_ends_def loop_ends_def need_def)
next
  case (Suc k)
  then have ih: "value_ends k" "nested_ends k (parse_array k)" "nested_ends k (parse_object k)"
    "\<And>items. loop_ends (k + 1) (\<lambda>b. array_loop k b items)" "\<And>members. loop_ends (k + 1) (\<lambda>b. object_loop k b members)"
    by blast+
  from value_step[OF ih(2,3)] nested_step[OF ih(4,5)] array_loop_step[OF ih(1,4)] object_loop_step[OF ih(1,5)]
  show ?case by blast
qed

lemma parse_value_ends:
  assumes "offset b \<le> length (content b)" and "3 * (length (content b) - offset b) < k"
  shows "ends (depth b) b (parse_value k b)"
  using parser_ends[of k] assms by (simp add: value_ends_def need_def)

section \<open>The entry points\<close>

lemmas parser_simps = parse_value.simps parse_array.simps array_loop.simps parse_object.simps object_loop.simps

declare parser_simps [simp del]

lemma skip_utf8_bom_simps [buf_simps]:
  "content (skip_utf8_bom b) = content b" "depth (skip_utf8_bom b) = depth b" "hooks (skip_utf8_bom b) = hooks b"
  by (simp_all add: skip_utf8_bom_def buf_simps)

lemma skip_utf8_bom_offset: "offset b \<le> length (content b) \<Longrightarrow> offset (skip_utf8_bom b) \<le> length (content b)"
  by (simp add: skip_utf8_bom_def buf_simps)

definition parse_ok :: "nat \<Rightarrow> parsed \<Rightarrow> bool" where
  "parse_ok n r = (case r of Stuck \<Rightarrow> False | Bad p hs \<Rightarrow> p < n
     | Tree item b \<Rightarrow> 0 < offset b \<and> offset b \<le> n \<and> depth b = 0)"

lemma parse_with_length_ok:
  assumes "value \<noteq> []"
  shows "parse_ok (length value) (cJSON_ParseWithLengthOpts value require hs)"
proof -
  obtain ok b0 where b0: "allocate \<lparr>content = value, offset = 0, depth = 0, hooks = hs\<rparr> = (ok, b0)" by fastforce
  then have same: "content b0 = value" "offset b0 = 0" "depth b0 = 0"
    using allocate_simps[of "\<lparr>content = value, offset = 0, depth = 0, hooks = hs\<rparr>"] by simp_all
  let ?b = "buffer_skip_whitespace (skip_utf8_bom b0)"
  have b: "offset ?b \<le> length (content ?b)" "content ?b = value" "depth ?b = 0"
    using skip_ws_offset(3)[of "skip_utf8_bom b0"] skip_utf8_bom_offset[of b0] by (simp_all add: buf_simps same)
  have fail: "(if p < length value then p else if 0 < length value then length value - 1 else 0) < length value" for p
    using assms by simp
  have "ends 0 ?b (parse_value (3 * length value + 1) ?b)"
    using parse_value_ends[of ?b] b by (simp add: buf_simps same)
  then consider b1 where "parse_value (3 * length value + 1) ?b = Done None b1"
    | v b1 where "parse_value (3 * length value + 1) ?b = Done (Some v) b1" "moved ?b b1" "offset ?b < offset b1" "depth b1 = 0"
    by (auto simp: ends_def split: presult.splits)
  then show ?thesis
  proof cases
    case (2 v b1)
    then show ?thesis using assms b0 b skip_ws_offset(1,3)[of b1] fail
      by (auto simp: cJSON_ParseWithLengthOpts_def Let_def parse_ok_def moved_def buf_simps)
  qed (use assms b0 fail in \<open>auto simp: cJSON_ParseWithLengthOpts_def Let_def parse_ok_def\<close>)
qed

end
