(* ===== verification/Cjson_Grammar.thy ===== *)
theory Cjson_Grammar
  imports Cjson_Safety
begin

unbundle bit_operations_syntax

text \<open>
  The language that the JSON parser of \<^verbatim>\<open>extern/cJSON/cJSON.c\<close> reads: \<open>denotes\<close> is the grammar of JSON texts
  with white space, numbers and all escapes, as a relation between trees and texts. The parser reads every
  text of the grammar to the tree that it denotes.
\<close>

section \<open>UTF-8\<close>

text \<open>The encoding of a code point in arithmetic; the code's loop of shifts and masks computes it.\<close>

definition utf8_of :: "nat \<Rightarrow> string" where
  "utf8_of cp =
     (if cp < 0x80 then [char_of cp]
      else if cp < 0x800 then [char_of (0xC0 + cp div 64), char_of (0x80 + cp mod 64)]
      else if cp < 0x10000 then [char_of (0xE0 + cp div 4096), char_of (0x80 + cp div 64 mod 64), char_of (0x80 + cp mod 64)]
      else [char_of (0xF0 + cp div 262144), char_of (0x80 + cp div 4096 mod 64), char_of (0x80 + cp div 64 mod 64), char_of (0x80 + cp mod 64)])"

lemma or_push_bit: "x < 2 ^ k \<Longrightarrow> x OR push_bit k y = x + push_bit k (y::nat)"
proof (rule disjunctive_add[symmetric])
  fix n assume "x < 2 ^ k"
  then have "bit x n \<Longrightarrow> n < k" by (metis bit_take_bit_iff take_bit_nat_eq_self)
  then show "\<not> bit x n \<or> \<not> bit (push_bit k y) n" by (auto simp: bit_push_bit_iff)
qed

lemma low_bits: "(x OR 0x80) AND 0xBF = 0x80 + x mod (64::nat)"
proof -
  have e: "push_bit 7 1 = (128::nat)" "mask 6 OR 128 = (191::nat)" by (simp_all add: mask_eq_exp_minus_1)
  have "(x OR push_bit 7 1) AND (mask 6 OR push_bit 7 1) = take_bit 6 x OR push_bit 7 1"
    by (rule bit_eqI) (auto simp: bit_simps)
  also have "\<dots> = take_bit 6 x + push_bit 7 1"
    by (rule or_push_bit) (rule order_less_trans[OF take_bit_nat_less_exp], simp)
  finally show ?thesis unfolding e by (simp add: take_bit_eq_mod)
qed

lemma and_ones: "x < 256 \<Longrightarrow> x AND 0xFF = (x::nat)" "x < 128 \<Longrightarrow> x AND 0x7F = (x::nat)"
proof -
  have e: "mask 8 = (0xFF::nat)" "mask 7 = (0x7F::nat)" by (simp_all add: mask_eq_exp_minus_1)
  show "x < 256 \<Longrightarrow> x AND 0xFF = x" "x < 128 \<Longrightarrow> x AND 0x7F = x"
    using take_bit_eq_mask[of 8 x] take_bit_eq_mask[of 7 x] unfolding e by (simp_all add: take_bit_nat_eq_self)
qed

lemma lead_byte:
  "x < 32 \<Longrightarrow> (x OR 0xC0) AND 0xFF = 0xC0 + (x::nat)" "x < 16 \<Longrightarrow> (x OR 0xE0) AND 0xFF = 0xE0 + x"
  "x < 8 \<Longrightarrow> (x OR 0xF0) AND 0xFF = 0xF0 + x"
  using or_push_bit[of x 6 3] or_push_bit[of x 5 7] or_push_bit[of x 4 15] by (simp_all add: push_bit_eq_mult and_ones)

lemma drop_bit_6: "drop_bit 6 x = x div (64::nat)"
  by (simp add: drop_bit_eq_div)

lemma utf8_loops:
  "utf8_loop 0 cp [] = (cp, [])"
  "utf8_loop (Suc 0) cp [] = (cp div 64, [char_of (0x80 + cp mod 64)])"
  "utf8_loop 2 cp [] = (cp div 4096, [char_of (0x80 + cp div 64 mod 64), char_of (0x80 + cp mod 64)])"
  "utf8_loop 3 cp [] = (cp div 262144, [char_of (0x80 + cp div 4096 mod 64), char_of (0x80 + cp div 64 mod 64), char_of (0x80 + cp mod 64)])"
  unfolding numeral_2_eq_2 numeral_3_eq_3 by (simp_all add: low_bits drop_bit_6 flip: div_mult2_eq)

lemma utf8_bytes_eq:
  assumes "cp \<le> 0x10FFFF"
  shows "utf8_bytes cp = Some (utf8_of cp)"
proof -
  have "cp < 0x800 \<Longrightarrow> cp div 64 < 32" "cp < 0x10000 \<Longrightarrow> cp div 4096 < 16" "cp div 262144 < 8" using assms by simp_all
  then show ?thesis using assms
    by (simp add: utf8_bytes_def utf8_of_def Let_def utf8_loops and_ones lead_byte del: utf8_loop.simps)
qed

section \<open>Escapes\<close>

definition hex_value :: "string \<Rightarrow> nat" where
  "hex_value hs = foldl (\<lambda>v h. 16 * v + the (hex_digit h)) 0 hs"

definition hex4 :: "string \<Rightarrow> bool" where
  "hex4 hs \<longleftrightarrow> length hs = 4 \<and> (\<forall>h \<in> set hs. hex_digit h \<noteq> None)"

lemma hex4E:
  assumes "hex4 hs"
  obtains a b c d where "hs = [a, b, c, d]" "hex_digit a \<noteq> None" "hex_digit b \<noteq> None" "hex_digit c \<noteq> None" "hex_digit d \<noteq> None"
  using assms by (auto simp: hex4_def length_Suc_conv eval_nat_numeral)

lemma parse_hex4_value: "hex4 hs \<Longrightarrow> parse_hex4 (hs @ r) = hex_value hs"
  by (erule hex4E) (auto simp: parse_hex4_def hex_value_def push_bit_eq_mult Let_def)

lemma hex_value_bound: "hex4 hs \<Longrightarrow> hex_value hs < 0x10000"
  using parse_hex4_bound[of "hs @ []"] parse_hex4_value[of hs "[]"] by simp

lemma hex_plain: "hex_digit h \<noteq> None \<Longrightarrow> h \<noteq> CHR 0x22 \<and> h \<noteq> CHR 0x5C"
  by (auto simp: hex_digit_def)

abbreviation surrogate :: "nat \<Rightarrow> bool" where
  "surrogate cp \<equiv> 0xD800 \<le> cp \<and> cp \<le> 0xDFFF"

lemma utf16_bmp:
  assumes "hex4 hs" and "\<not> surrogate (hex_value hs)" and "6 \<le> n"
  shows "utf16_literal_to_utf8 (CHR 0x5C # CHR ''u'' # hs @ r) n = Some (utf8_of (hex_value hs), 6)"
  using assms hex_value_bound[OF assms(1)]
  by (auto simp: utf16_literal_to_utf8_def parse_hex4_value utf8_bytes_eq Let_def)

lemma utf16_pair:
  assumes "hex4 hs" and "hex4 ls" and "0xD800 \<le> hex_value hs" "hex_value hs \<le> 0xDBFF" and "0xDC00 \<le> hex_value ls" "hex_value ls \<le> 0xDFFF" and "12 \<le> n"
  shows "utf16_literal_to_utf8 (CHR 0x5C # CHR ''u'' # hs @ CHR 0x5C # CHR ''u'' # ls @ r) n =
    Some (utf8_of (0x10000 + 1024 * (hex_value hs - 0xD800) + (hex_value ls - 0xDC00)), 12)"
proof -
  have e: "mask 10 = (0x3FF::nat)" by (simp add: mask_eq_exp_minus_1)
  have m: "x AND 0x3FF = x mod 1024" for x :: nat using take_bit_eq_mask[of 10 x] unfolding e by (simp add: take_bit_eq_mod)
  have "(x + 54 * 1024) mod 1024 = x" "(x + 55 * 1024) mod 1024 = x" if "x < 1024" for x :: nat
    using that by (simp_all only: mod_mult_self1 mod_less)
  from this[of "hex_value hs - 0xD800"] this[of "hex_value ls - 0xDC00"]
  have h: "hex_value hs mod 1024 = hex_value hs - 0xD800" "hex_value ls mod 1024 = hex_value ls - 0xDC00"
    using assms(3-6) by simp_all
  have "hex_value ls - 0xDC00 < 2 ^ 10" using assms(6) by simp
  then have o: "push_bit 10 (hex_value hs - 0xD800) OR (hex_value ls - 0xDC00) = 1024 * (hex_value hs - 0xD800) + (hex_value ls - 0xDC00)"
    using or_push_bit[of "hex_value ls - 0xDC00" 10 "hex_value hs - 0xD800"] by (simp add: or.commute push_bit_eq_mult)
  have d: "drop 8 (CHR 0x5C # CHR ''u'' # hs @ CHR 0x5C # CHR ''u'' # ls @ r) = ls @ r"
    "(CHR 0x5C # CHR ''u'' # hs @ CHR 0x5C # CHR ''u'' # ls @ r) ! 6 = CHR 0x5C" "(CHR 0x5C # CHR ''u'' # hs @ CHR 0x5C # CHR ''u'' # ls @ r) ! 7 = CHR ''u''"
    using assms(1) by (auto elim: hex4E)
  have "0x10000 + 1024 * (hex_value hs - 0xD800) + (hex_value ls - 0xDC00) \<le> 0x10FFFF" using assms(4,6) by simp
  note b = utf8_bytes_eq[OF this]
  have n: "\<not> n - 6 < 6" using assms(7) by simp
  show ?thesis using assms d m h o b n
    by (simp add: utf16_literal_to_utf8_def parse_hex4_value utf8_bytes_eq Let_def)
qed

section \<open>The grammar\<close>

text \<open>White space between the tokens of a JSON text.\<close>

definition blank :: "string \<Rightarrow> bool" where
  "blank w \<longleftrightarrow> set w \<subseteq> {CHR '' '', CHR 0x09, CHR 0x0A, CHR 0x0D}"

text \<open>The text between the quotes of a string, with the bytes that it stands for: characters, escapes of two
  characters, and code points in hexadecimal, also as surrogate pairs. A NUL cannot be written.\<close>

inductive unit_text :: "string \<Rightarrow> string \<Rightarrow> bool" where
  raw_char: "c \<noteq> CHR 0x22 \<Longrightarrow> c \<noteq> CHR 0x5C \<Longrightarrow> c \<noteq> CHR 0x00 \<Longrightarrow> unit_text [c] [c]"
| short_escape: "escape_char x = Some y \<Longrightarrow> unit_text [CHR 0x5C, x] [y]"
| code_point: "hex4 hs \<Longrightarrow> \<not> surrogate (hex_value hs) \<Longrightarrow> 0 < hex_value hs \<Longrightarrow>
    unit_text (CHR 0x5C # CHR ''u'' # hs) (utf8_of (hex_value hs))"
| code_pair: "hex4 hs \<Longrightarrow> hex4 ls \<Longrightarrow> 0xD800 \<le> hex_value hs \<Longrightarrow> hex_value hs \<le> 0xDBFF \<Longrightarrow>
    0xDC00 \<le> hex_value ls \<Longrightarrow> hex_value ls \<le> 0xDFFF \<Longrightarrow>
    unit_text (CHR 0x5C # CHR ''u'' # hs @ CHR 0x5C # CHR ''u'' # ls)
      (utf8_of (0x10000 + 1024 * (hex_value hs - 0xD800) + (hex_value ls - 0xDC00)))"

inductive string_text :: "string \<Rightarrow> string \<Rightarrow> bool" where
  string_nil: "string_text [] []"
| string_unit: "unit_text u bytes \<Longrightarrow> string_text t s \<Longrightarrow> string_text (u @ t) (bytes @ s)"

text \<open>A text with white space around it, and a member of an object.\<close>

definition padded :: "(string \<Rightarrow> bool) \<Rightarrow> string \<Rightarrow> bool" where
  "padded P t \<longleftrightarrow> (\<exists>w1 t' w2. t = w1 @ t' @ w2 \<and> blank w1 \<and> blank w2 \<and> P t')"

definition member_text :: "(string \<Rightarrow> bool) \<Rightarrow> string \<Rightarrow> string \<Rightarrow> bool" where
  "member_text P name t \<longleftrightarrow> (\<exists>nt w tv. t = CHR 0x22 # nt @ CHR 0x22 # w @ CHR '':'' # tv \<and>
     blank w \<and> string_text nt name \<and> padded P tv)"

lemma padded_mono [mono]: "(\<And>t. P t \<longrightarrow> Q t) \<Longrightarrow> padded P t \<longrightarrow> padded Q t"
  unfolding padded_def by blast

lemma member_text_mono [mono]: "(\<And>t. P t \<longrightarrow> Q t) \<Longrightarrow> member_text P name t \<longrightarrow> member_text Q name t"
  unfolding member_text_def using padded_mono[of P Q] by blast

text \<open>The texts of a tree with at most \<open>n\<close> levels of nesting.\<close>

inductive denotes :: "nat \<Rightarrow> cJSON \<Rightarrow> string \<Rightarrow> bool" where
  text_null: "denotes n cJSON_NULL ''null''"
| text_false: "denotes n cJSON_False ''false''"
| text_true: "denotes n cJSON_True ''true''"
| text_number: "t \<noteq> [] \<Longrightarrow> hd t = CHR ''-'' \<or> isdigit (hd t) \<Longrightarrow> \<forall>c \<in> set t. is_number_char c \<Longrightarrow>
    strtod t = (d, length t) \<Longrightarrow> denotes n (cJSON_Number d (saturate_int d)) t"
| text_string: "string_text t s \<Longrightarrow> denotes n (cJSON_String s) (CHR 0x22 # t @ [CHR 0x22])"
| text_no_array: "blank w \<Longrightarrow> denotes (Suc n) (cJSON_Array []) (''['' @ w @ '']'')"
| text_array: "vs \<noteq> [] \<Longrightarrow> list_all2 (\<lambda>v. padded (denotes n v)) vs ts \<Longrightarrow>
    denotes (Suc n) (cJSON_Array vs) (''['' @ join_with '','' ts @ '']'')"
| text_no_object: "blank w \<Longrightarrow> denotes (Suc n) (cJSON_Object []) (''{'' @ w @ ''}'')"
| text_object: "ms \<noteq> [] \<Longrightarrow> list_all2 (\<lambda>m. padded (member_text (denotes n (snd m)) (fst m))) ms ts \<Longrightarrow>
    denotes (Suc n) (cJSON_Object ms) (''{'' @ join_with '','' ts @ ''}'')"

section \<open>Strings\<close>

lemma char_of_nul: "char_of n = CHR 0x00 \<longleftrightarrow> n mod 256 = (0::nat)"
proof
  assume "char_of n = CHR 0x00"
  then have "of_char (char_of n :: char) = (of_char (CHR 0x00) :: nat)" by simp
  then show "n mod 256 = 0" by simp
next
  assume "n mod 256 = 0"
  then have "char_of n = (char_of (n mod 256) :: char)" by simp
  then show "char_of n = CHR 0x00" using \<open>n mod 256 = 0\<close> by (simp add: char_of_def)
qed

lemma utf8_of_no_nul:
  assumes "0 < cp" and "cp \<le> 0x10FFFF"
  shows "CHR 0x00 \<notin> set (utf8_of cp)"
proof -
  have byte: "CHR 0x00 \<noteq> char_of (a + b)" if "0 < a" "a + b < 256" for a b :: nat
    using that char_of_nul[of "a + b"] by (metis add_gr_0 less_numeral_extra(3) mod_less)
  have tail: "CHR 0x00 \<noteq> char_of (0x80 + x mod 64)" for x :: nat
    by (rule byte) (simp, rule order_less_trans[OF add_strict_left_mono[OF mod_less_divisor]], simp_all)
  have "CHR 0x00 \<noteq> char_of (0xC0 + cp div 64)" if "cp < 0x800" by (rule byte) (use that in simp_all)
  moreover have "CHR 0x00 \<noteq> char_of (0xE0 + cp div 4096)" if "cp < 0x10000" by (rule byte) (use that in simp_all)
  moreover have "CHR 0x00 \<noteq> char_of (0xF0 + cp div 262144)" by (rule byte) (use assms(2) in simp_all)
  moreover have "CHR 0x00 \<noteq> char_of cp" if "cp < 0x80" using byte[of cp 0] that assms(1) by simp
  ultimately show ?thesis using tail by (simp add: utf8_of_def)
qed

lemma escape_char_no_nul: "escape_char x = Some y \<Longrightarrow> y \<noteq> CHR 0x00"
  by (auto simp: escape_char_def split: if_splits)

lemma unit_text_no_nul: "unit_text u bytes \<Longrightarrow> CHR 0x00 \<notin> set bytes"
proof (induction rule: unit_text.induct)
  case (code_point hs)
  then show ?case using hex_value_bound[of hs] by (intro utf8_of_no_nul) simp_all
next
  case (code_pair hs ls)
  then show ?case by (intro utf8_of_no_nul) simp_all
qed (auto dest: escape_char_no_nul)

lemma string_text_no_nul: "string_text t s \<Longrightarrow> CHR 0x00 \<notin> set s"
  by (induction rule: string_text.induct) (auto dest: unit_text_no_nul)

lemma utf8_of_length: "length (utf8_of cp) \<le> (if cp < 0x10000 then 3 else 4)"
  by (simp add: utf8_of_def)

lemma string_end_hex: "hex4 hs \<Longrightarrow> string_end (hs @ r) n k = string_end r (n + 4) k"
proof (erule hex4E)
  fix a b c d
  assume hs: "hs = [a, b, c, d]" and "hex_digit a \<noteq> None" "hex_digit b \<noteq> None" "hex_digit c \<noteq> None" "hex_digit d \<noteq> None"
  then show ?thesis using hex_plain[of a] hex_plain[of b] hex_plain[of c] hex_plain[of d] by (simp add: numeral_eq_Suc)
qed

lemma hex4_length: "hex4 hs \<Longrightarrow> length hs = 4"
  by (simp add: hex4_def)

text \<open>One unit, for the loop that measures a string and for the one that decodes it.\<close>

lemma unit_text_measured:
  assumes "unit_text u bytes"
  shows "\<exists>e. (\<forall>r n k. string_end (u @ r) n k = string_end r (n + length u) (k + e)) \<and> length bytes + e \<le> length u"
  using assms
proof (induction rule: unit_text.induct)
  case (code_point hs)
  have "length (utf8_of (hex_value hs)) \<le> 3" using utf8_of_length[of "hex_value hs"] hex_value_bound[OF code_point(1)] by simp
  with code_point show ?case by (intro exI[of _ 1]) (simp add: string_end_hex hex4_length add.commute)
next
  case (code_pair hs ls)
  have "length (utf8_of cp) \<le> 4" for cp using utf8_of_length[of cp] by (simp split: if_splits)
  with code_pair show ?case by (intro exI[of _ 2]) (simp add: string_end_hex hex4_length add.assoc add.commute le_trans[of _ 4])
qed (auto intro: exI[of _ 0] exI[of _ "Suc 0"])

lemma unit_text_decoded:
  assumes "unit_text u bytes" and "length out < cap" and "length out + length bytes \<le> cap"
  shows "decode_loop (u @ s) (length u + n) p cap out = decode_loop s n (p + length u) cap (out @ bytes)"
  using assms(1)
proof cases
  case (raw_char c)
  then show ?thesis using decode_loop_steps(1)[OF assms(2)] by simp
next
  case (short_escape x y)
  then show ?thesis using decode_loop_steps(2)[OF assms(2)] by simp
next
  case (code_point hs)
  note len = hex4_length[OF code_point(3)]
  have "utf16_literal_to_utf8 (CHR 0x5C # CHR ''u'' # hs @ s) (Suc (5 + n)) = Some (bytes, 6)"
    using utf16_bmp[OF code_point(3,4), of "Suc (5 + n)" s] code_point(2) by simp
  from decode_loop_steps(4)[OF assms(2) this] show ?thesis using code_point(1) assms(3) len by (simp add: add.commute)
next
  case (code_pair hs ls)
  note len = hex4_length[OF code_pair(3)] hex4_length[OF code_pair(4)]
  have "utf16_literal_to_utf8 (CHR 0x5C # CHR ''u'' # hs @ CHR 0x5C # CHR ''u'' # ls @ s) (Suc (11 + n)) = Some (bytes, 12)"
    using utf16_pair[OF code_pair(3-8), of "Suc (11 + n)" s] code_pair(2) by simp
  from decode_loop_steps(4)[OF assms(2) this] show ?thesis using code_pair(1) assms(3) len by (simp add: add.commute)
qed

lemma string_end_text:
  assumes "string_text t s"
  shows "\<exists>e. string_end (t @ CHR 0x22 # r) n k = Some (n + length t, k + e) \<and> length s + e \<le> length t"
  using assms
proof (induction arbitrary: n k rule: string_text.induct)
  case (string_unit u bytes t s)
  from unit_text_measured[OF string_unit(1)] obtain e1 where
    e1: "\<And>r n k. string_end (u @ r) n k = string_end r (n + length u) (k + e1)" "length bytes + e1 \<le> length u" by blast
  from string_unit.IH[of "n + length u" "k + e1"] obtain e2 where
    "string_end (t @ CHR 0x22 # r) (n + length u) (k + e1) = Some (n + length u + length t, k + e1 + e2)" "length s + e2 \<le> length t" by blast
  with e1 show ?case by (intro exI[of _ "e1 + e2"]) (simp add: add.assoc)
qed (simp add: exI[of _ 0])

lemma decode_loop_text:
  "string_text t s \<Longrightarrow> length out + length s < cap \<Longrightarrow> decode_loop (t @ r) (length t) p cap out = Decoded (out @ s)"
proof (induction arbitrary: p out rule: string_text.induct)
  case (string_unit u bytes t s)
  then show ?case using unit_text_decoded[OF string_unit(1), of out cap "t @ r" "length t" p] by simp
qed (simp add: decode_loop_0)

section \<open>Reading\<close>

definition hooks_ok :: "parse_buffer \<Rightarrow> bool" where
  "hooks_ok b \<longleftrightarrow> (\<forall>x \<in> set (hooks b). x)"

definition passes :: "nat \<Rightarrow> parse_buffer \<Rightarrow> parse_buffer \<Rightarrow> bool" where
  "passes n b b' \<longleftrightarrow> content b' = content b \<and> offset b' = offset b + n \<and> depth b' = depth b \<and> hooks_ok b'"

lemma at_advance: "buffer_at_offset (advance n b) = drop n (buffer_at_offset b)"
  by (simp add: buffer_at_offset_def buf_simps add.commute)

lemma at_passes: "passes n b b' \<Longrightarrow> buffer_at_offset b' = drop n (buffer_at_offset b)"
  by (simp add: passes_def buffer_at_offset_def add.commute)

lemma sees_at: "buffer_at_offset b = c # r \<Longrightarrow> sees b x \<longleftrightarrow> x = c" "buffer_at_offset b = c # r \<Longrightarrow> can_access_at_index b 0"
  by (auto simp: sees_def buffer_at_offset_def can_access_at_index_def dest: arg_cong[of _ _ length])

lemma access_at: "can_access_at_index b i \<longleftrightarrow> i < length (buffer_at_offset b)"
  by (auto simp: buf_simps buffer_at_offset_def)

lemma allocate_ok: "hooks_ok b \<Longrightarrow> \<exists>b'. allocate b = (True, b') \<and> passes 0 b b'"
  by (auto simp: allocate_def alloc_def hooks_ok_def passes_def split: list.splits)

lemma passes_advance: "passes n b b' \<Longrightarrow> passes (n + m) b (advance m b')"
  by (auto simp: passes_def buf_simps hooks_ok_def)

lemma passes_trans: "passes n b b' \<Longrightarrow> passes m b' b'' \<Longrightarrow> passes (n + m) b b''"
  by (simp add: passes_def)

lemma passes_self: "hooks_ok b \<Longrightarrow> passes n b (advance n b)"
  by (simp add: passes_def buf_simps hooks_ok_def)

lemma hooks_ok_passes: "passes n b b' \<Longrightarrow> hooks_ok b'"
  by (simp add: passes_def)

text \<open>White space in front of a starts_item is passed over.\<close>

lemma skip_ws_blank:
  assumes "buffer_at_offset b = w @ c # r" and "blank w" and "32 < (of_char c :: nat)"
  shows "buffer_skip_whitespace b = advance (length w) b"
proof -
  have "takeWhile (\<lambda>c. (of_char c :: nat) \<le> 32) (w @ c # r) = w"
    using assms(2,3) by (intro takeWhile_append_stop) (auto simp: blank_def)
  moreover have "offset b + length w < length (content b)"
    using arg_cong[OF assms(1), of length] by (simp add: buffer_at_offset_def)
  ultimately show ?thesis using assms(1) by (simp add: buffer_skip_whitespace_def Let_def buf_simps access_at)
qed

lemma parse_string_text:
  assumes "buffer_at_offset b = CHR 0x22 # t @ CHR 0x22 # r" and "string_text t s" and "hooks_ok b"
  shows "\<exists>b'. parse_string b = Some (Some s, b') \<and> passes (length t + 2) b b'"
proof -
  obtain b1 where b1: "allocate b = (True, b1)" "passes 0 b b1" using allocate_ok[OF assms(3)] by blast
  have "c_string s = s" using string_text_no_nul[OF assms(2)] by (auto simp: c_string_def takeWhile_eq_all_conv)
  moreover obtain e where e: "string_end (t @ CHR 0x22 # r) 0 0 = Some (length t, e)" "length s + e \<le> length t"
    using string_end_text[OF assms(2), of r 0 0] by auto
  moreover have "decode_loop (t @ CHR 0x22 # r) (length t) 0 (length t + 1 - e + 1) [] = Decoded s"
    using decode_loop_text[OF assms(2), of "[]" "length t + 1 - e + 1"] e(2) by simp
  ultimately have "parse_string b = Some (Some s, advance (length t + 2) b1)"
    using assms b1 sees_at(2)[OF assms(1)] by (simp add: parse_string_def)
  moreover have "passes (0 + (length t + 2)) b (advance (length t + 2) b1)" by (rule passes_advance[OF b1(2)])
  ultimately show ?thesis by simp
qed

section \<open>Values\<close>

text \<open>What follows a value: anything that cannot be part of a number.\<close>

definition stops :: "string \<Rightarrow> bool" where
  "stops r \<longleftrightarrow> r \<noteq> [] \<and> \<not> is_number_char (hd r)"

text \<open>The start of an item.\<close>

definition starts_item :: "string \<Rightarrow> bool" where
  "starts_item t \<longleftrightarrow> (\<exists>d r. t = d # r \<and> 32 < (of_char d :: nat) \<and> d \<notin> {CHR '']'', CHR ''}'', CHR 0xEF})"

lemma starts_item_Cons: "starts_item (d # r) \<longleftrightarrow> 32 < (of_char d :: nat) \<and> d \<notin> {CHR '']'', CHR ''}'', CHR 0xEF}"
  by (simp add: starts_item_def)

definition reads :: "nat \<Rightarrow> cJSON \<Rightarrow> string \<Rightarrow> bool" where
  "reads n v t \<longleftrightarrow> starts_item t \<and>
     (\<forall>b r k. buffer_at_offset b = t @ r \<longrightarrow> stops r \<longrightarrow> hooks_ok b \<longrightarrow> depth b + n \<le> CJSON_NESTING_LIMIT \<longrightarrow>
        3 * length t \<le> k \<longrightarrow> (\<exists>b'. parse_value k b = Done (Some v) b' \<and> passes (length t) b b'))"

lemma readsI:
  assumes "\<And>b r k. buffer_at_offset b = c # t @ r \<Longrightarrow> stops r \<Longrightarrow> hooks_ok b \<Longrightarrow> depth b + n \<le> CJSON_NESTING_LIMIT \<Longrightarrow>
      3 * length t + 2 \<le> k \<Longrightarrow> \<exists>b'. parse_value (Suc k) b = Done (Some v) b' \<and> passes (Suc (length t)) b b'"
    and "starts_item (c # t)"
  shows "reads n v (c # t)"
  unfolding reads_def
proof (intro conjI allI impI)
  show "starts_item (c # t)" by (rule assms(2))
  fix b :: parse_buffer and r k
  assume b: "buffer_at_offset b = (c # t) @ r" "stops r" "hooks_ok b" "depth b + n \<le> CJSON_NESTING_LIMIT" "3 * length (c # t) \<le> k"
  then obtain k' where "k = Suc k'" "3 * length t + 2 \<le> k'" by (cases k) auto
  with assms(1)[of b r k'] b show "\<exists>b'. parse_value k b = Done (Some v) b' \<and> passes (length (c # t)) b b'" by simp
qed

text \<open>The character behind a list of items or a value, and white space before it.\<close>

lemma stops_blank: "blank w \<Longrightarrow> c \<in> {CHR '','', CHR '']'', CHR ''}''} \<Longrightarrow> stops (w @ c # r)"
  by (cases w) (auto simp: stops_def blank_def is_number_char_def isdigit_def)

lemma value_behind:
  assumes "padded (reads n v) t" and "buffer_at_offset b = c # t @ d # r" and "d \<in> {CHR '','', CHR '']'', CHR ''}''}"
    and "hooks_ok b" and "depth b + n \<le> CJSON_NESTING_LIMIT" and "3 * length t \<le> k"
  shows "\<exists>b'. parse_value k (buffer_skip_whitespace (advance 1 b)) = Done (Some v) b' \<and>
    passes (length t + 1) b (buffer_skip_whitespace b') \<and> buffer_at_offset (buffer_skip_whitespace b') = d # r"
proof -
  obtain w1 t' w2 where t: "t = w1 @ t' @ w2" "blank w1" "blank w2" and rd: "reads n v t'" using assms(1) by (auto simp: padded_def)
  obtain x t'' where hd: "t' = x # t''" "32 < (of_char x :: nat)" using rd unfolding reads_def starts_item_def by blast
  have "buffer_at_offset (advance 1 b) = w1 @ x # t'' @ w2 @ d # r" using assms(2) t hd by (simp add: at_advance)
  from skip_ws_blank[OF this t(2) hd(2)] have skip: "buffer_skip_whitespace (advance 1 b) = advance (1 + length w1) b"
    by (simp add: advance_def)
  have at: "buffer_at_offset (advance (1 + length w1) b) = t' @ w2 @ d # r" using assms(2) t by (simp add: at_advance)
  have "depth (advance (1 + length w1) b) + n \<le> CJSON_NESTING_LIMIT" "hooks_ok (advance (1 + length w1) b)" "3 * length t' \<le> k"
    using assms(4-6) t(1) by (simp_all add: buf_simps hooks_ok_def)
  with rd at stops_blank[OF t(3) assms(3)] obtain b' where
    b': "parse_value k (advance (1 + length w1) b) = Done (Some v) b'" "passes (length t') (advance (1 + length w1) b) b'"
    unfolding reads_def by blast
  have at': "buffer_at_offset b' = w2 @ d # r" using at_passes[OF b'(2)] at by simp
  have "32 < (of_char d :: nat)" using assms(3) by auto
  from skip_ws_blank[OF at' t(3) this] have "buffer_skip_whitespace b' = advance (length w2) b'" .
  moreover have "passes (length t + 1) b (advance (length w2) b')"
    using b'(2) t(1) by (auto simp: passes_def buf_simps hooks_ok_def)
  ultimately show ?thesis unfolding skip using b'(1) at' by (auto simp: at_advance)
qed

definition closes :: "nat \<Rightarrow> parse_buffer \<Rightarrow> cJSON \<Rightarrow> presult \<Rightarrow> bool" where
  "closes n b v res \<longleftrightarrow> (\<exists>b'. res = Done (Some v) b' \<and> passes n (b\<lparr>depth := depth b - 1\<rparr>) b')"

lemma closes_later: "closes m b' v res \<Longrightarrow> passes n b b' \<Longrightarrow> closes (n + m) b v res"
  by (auto simp: closes_def passes_def)

lemma closes_end: "passes n b b' \<Longrightarrow> closes (n + 1) b v (Done (Some v) (advance 1 (b'\<lparr>depth := depth b' - 1\<rparr>)))"
  by (auto simp: closes_def passes_def buf_simps hooks_ok_def)

text \<open>The loops over the elements of an array and the members of an object share a contract: a step reads one
  item, with the white space around it, and then goes on behind a comma or builds the result at the closing
  bracket. From the contract follows that the loop reads a whole list of items.\<close>

locale item_loop =
  fixes loop :: "nat \<Rightarrow> parse_buffer \<Rightarrow> 'i list \<Rightarrow> presult"
    and item :: "nat \<Rightarrow> 'i \<Rightarrow> string \<Rightarrow> bool"
    and build :: "'i list \<Rightarrow> cJSON"
    and close :: char
  assumes close_law: "close \<in> {CHR '']'', CHR ''}''}"
    and step_law: "item n x t \<Longrightarrow> buffer_at_offset b = c # t @ d # r \<Longrightarrow> d \<in> {CHR '','', close} \<Longrightarrow> hooks_ok b \<Longrightarrow>
      depth b + n \<le> CJSON_NESTING_LIMIT \<Longrightarrow> 3 * length t \<le> k \<Longrightarrow>
      \<exists>b'. passes (length t + 1) b b' \<and> buffer_at_offset b' = d # r \<and>
        loop (Suc k) b items =
          (if d = CHR '','' then loop k b' (items @ [x])
           else Done (Some (build (items @ [x]))) (advance 1 (b'\<lparr>depth := depth b' - 1\<rparr>)))"
begin

lemma loop_reads:
  assumes "list_all2 (item n) xs ts" and "xs \<noteq> []" and "hooks_ok b" and "depth b + n \<le> CJSON_NESTING_LIMIT"
    and "buffer_at_offset b = c # join_with '','' ts @ close # r" and "3 * length (join_with '','' ts) < k"
  shows "closes (length (join_with '','' ts) + 2) b (build (items @ xs)) (loop k b items)"
  using assms
proof (induction xs ts arbitrary: b c k items rule: list_all2_induct)
  case (Cons x xs t ts)
  obtain k' where k: "k = Suc k'" using Cons.prems(5) by (cases k) auto
  have nc: "close \<noteq> CHR '',''" using close_law by auto
  have len: "length t \<le> length (join_with '','' (t # ts))" by (cases ts) auto
  then have fuel: "3 * length t \<le> k'" using Cons.prems(5) k by simp
  note step = step_law[OF Cons.hyps(1) _ _ Cons.prems(2,3) fuel, of c _ _ items]
  show ?case
  proof (cases "xs = []")
    case True
    then have ts: "ts = []" using Cons.hyps(2) by simp
    then obtain b' where
      "passes (length t + 1) b b'" "loop k b items = Done (Some (build (items @ [x]))) (advance 1 (b'\<lparr>depth := depth b' - 1\<rparr>))"
      using step[of close r] Cons.prems(4) nc k by auto
    then show ?thesis using closes_end True ts by simp
  next
    case False
    then obtain u us where ts: "ts = u # us" using Cons.hyps(2) by (cases ts) auto
    have at: "buffer_at_offset b = c # t @ CHR '','' # join_with '','' ts @ close # r" using Cons.prems(4) ts by simp
    from step[OF this] obtain b' where b': "passes (length t + 1) b b'" "buffer_at_offset b' = CHR '','' # join_with '','' ts @ close # r"
      and go: "loop k b items = loop k' b' (items @ [x])" using k by auto
    have l: "length (join_with '','' (t # ts)) = length t + 1 + length (join_with '','' ts)" using ts by simp
    have "closes (length (join_with '','' ts) + 2) b' (build ((items @ [x]) @ xs)) (loop k' b' (items @ [x]))"
      using Cons.prems(3,5) False k l b' by (intro Cons.IH[of b']) (auto simp: passes_def)
    from closes_later[OF this b'(1)] show ?thesis unfolding go l by (simp add: add.commute)
  qed
qed simp

end

interpretation array_items: item_loop array_loop "\<lambda>n v. padded (reads n v)" cJSON_Array "CHR '']''"
proof
  fix n x t b c d r k items
  assume x: "padded (reads n x) t" and at: "buffer_at_offset b = c # t @ d # r" and d: "d \<in> {CHR '','', CHR '']''}"
    and ok: "hooks_ok b" "depth b + n \<le> CJSON_NESTING_LIMIT" "3 * length t \<le> k"
  obtain b1 where b1: "allocate b = (True, b1)" "passes 0 b b1" using allocate_ok ok(1) by blast
  then have "buffer_at_offset b1 = c # t @ d # r" using at at_passes[OF b1(2)] by simp
  from value_behind[OF x this] d ok b1(2) obtain b2 where
    b2: "parse_value k (buffer_skip_whitespace (advance 1 b1)) = Done (Some x) b2"
      "passes (length t + 1) b1 (buffer_skip_whitespace b2)" "buffer_at_offset (buffer_skip_whitespace b2) = d # r"
    by (auto simp: passes_def)
  let ?b = "buffer_skip_whitespace b2"
  have "array_loop (Suc k) b items =
      (if d = CHR '','' then array_loop k ?b (items @ [x])
       else Done (Some (cJSON_Array (items @ [x]))) (advance 1 (?b\<lparr>depth := depth ?b - 1\<rparr>)))"
    using b1 b2 d sees_at(1)[OF b2(3)] by (auto simp: array_loop.simps Let_def)
  with passes_trans[OF b1(2) b2(2)] b2(3) show "\<exists>b'. passes (length t + 1) b b' \<and> buffer_at_offset b' = d # r \<and> array_loop (Suc k) b items =
      (if d = CHR '','' then array_loop k b' (items @ [x])
       else Done (Some (cJSON_Array (items @ [x]))) (advance 1 (b'\<lparr>depth := depth b' - 1\<rparr>)))" by auto
qed simp

text \<open>The name of a member, up to its colon.\<close>

lemma name_behind:
  assumes "buffer_at_offset b = c # w1 @ CHR 0x22 # nt @ CHR 0x22 # w2 @ CHR '':'' # r" and "blank w1" and "blank w2"
    and "string_text nt name" and "hooks_ok b"
  shows "\<exists>b'. parse_string (buffer_skip_whitespace (advance 1 b)) = Some (Some name, b') \<and>
    passes (length w1 + length nt + length w2 + 3) b (buffer_skip_whitespace b') \<and>
    buffer_at_offset (buffer_skip_whitespace b') = CHR '':'' # r"
proof -
  let ?b1 = "advance (1 + length w1) b"
  have "buffer_at_offset (advance 1 b) = w1 @ CHR 0x22 # nt @ CHR 0x22 # w2 @ CHR '':'' # r" using assms(1) by (simp add: at_advance)
  from skip_ws_blank[OF this assms(2)] have skip: "buffer_skip_whitespace (advance 1 b) = ?b1" by (simp add: advance_def)
  have at: "buffer_at_offset ?b1 = CHR 0x22 # nt @ CHR 0x22 # w2 @ CHR '':'' # r" using assms(1) by (simp add: at_advance)
  have "hooks_ok ?b1" using assms(5) by (simp add: hooks_ok_def buf_simps)
  from parse_string_text[OF at assms(4) this] obtain b' where
    b': "parse_string ?b1 = Some (Some name, b')" "passes (length nt + 2) ?b1 b'" by blast
  have at': "buffer_at_offset b' = w2 @ CHR '':'' # r" using at_passes[OF b'(2)] at by simp
  have "buffer_skip_whitespace b' = advance (length w2) b'" by (rule skip_ws_blank[OF at' assms(3)]) simp
  moreover have "passes (length w1 + length nt + length w2 + 3) b (advance (length w2) b')"
    using b'(2) by (auto simp: passes_def buf_simps hooks_ok_def)
  ultimately show ?thesis unfolding skip using b'(1) at' by (auto simp: at_advance)
qed

lemma padded_append: "padded P t \<Longrightarrow> blank w \<Longrightarrow> padded P (t @ w)"
proof -
  assume "padded P t" "blank w"
  then obtain w1 t' w2 where "t = w1 @ t' @ w2" "blank w1" "blank (w2 @ w)" "P t'" by (auto simp: padded_def blank_def)
  then show ?thesis unfolding padded_def by (intro exI[of _ w1] exI[of _ t'] exI[of _ "w2 @ w"]) simp
qed

interpretation object_items: item_loop object_loop "\<lambda>n m. padded (member_text (reads n (snd m)) (fst m))" cJSON_Object "CHR ''}''"
proof
  fix n m t b c d r k items
  assume m: "padded (member_text (reads n (snd m)) (fst m)) t" and at: "buffer_at_offset b = c # t @ d # r" and d: "d \<in> {CHR '','', CHR ''}''}"
    and ok: "hooks_ok b" "depth b + n \<le> CJSON_NESTING_LIMIT" "3 * length t \<le> k"
  obtain w1 nt w2 tv where t: "t = w1 @ CHR 0x22 # nt @ CHR 0x22 # w2 @ CHR '':'' # tv" "blank w1" "blank w2"
      "string_text nt (fst m)" "padded (reads n (snd m)) tv"
    using m padded_append by (fastforce simp: padded_def[of "member_text _ _"] member_text_def)
  obtain b1 where b1: "allocate b = (True, b1)" "passes 0 b b1" using allocate_ok ok(1) by blast
  have at1: "buffer_at_offset b1 = c # w1 @ CHR 0x22 # nt @ CHR 0x22 # w2 @ CHR '':'' # tv @ d # r"
    using at at_passes[OF b1(2)] t(1) by simp
  then have acc: "can_access_at_index b1 1" by (simp add: access_at)
  from name_behind[OF at1 t(2-4)] b1(2) obtain b2 where
    b2: "parse_string (buffer_skip_whitespace (advance 1 b1)) = Some (Some (fst m), b2)"
      "passes (length w1 + length nt + length w2 + 3) b1 (buffer_skip_whitespace b2)"
      "buffer_at_offset (buffer_skip_whitespace b2) = CHR '':'' # tv @ d # r" by (auto simp: passes_def)
  have "3 * length tv \<le> k" using ok(3) t(1) by simp
  with value_behind[OF t(5) b2(3)] d ok b1(2) b2(2) obtain b3 where
    b3: "parse_value k (buffer_skip_whitespace (advance 1 (buffer_skip_whitespace b2))) = Done (Some (snd m)) b3"
      "passes (length tv + 1) (buffer_skip_whitespace b2) (buffer_skip_whitespace b3)"
      "buffer_at_offset (buffer_skip_whitespace b3) = d # r"
    by (auto simp: passes_def)
  let ?b = "buffer_skip_whitespace b3"
  have "object_loop (Suc k) b items =
      (if d = CHR '','' then object_loop k ?b (items @ [m])
       else Done (Some (cJSON_Object (items @ [m]))) (advance 1 (?b\<lparr>depth := depth ?b - 1\<rparr>)))"
    using b1 b2 b3 acc d sees_at(1)[OF b2(3)] sees_at(1)[OF b3(3)] by (auto simp: object_loop.simps Let_def)
  moreover have "passes (length t + 1) b ?b" using b1(2) b2(2) b3(2) t(1) by (auto simp: passes_def)
  ultimately show "\<exists>b'. passes (length t + 1) b b' \<and> buffer_at_offset b' = d # r \<and> object_loop (Suc k) b items =
      (if d = CHR '','' then object_loop k b' (items @ [m])
       else Done (Some (cJSON_Object (items @ [m]))) (advance 1 (b'\<lparr>depth := depth b' - 1\<rparr>)))" using b3(3) by blast
qed simp

lemma dispatch:
  assumes "buffer_at_offset b = c # r" and "c \<noteq> CHR ''n''" and "c \<noteq> CHR ''f''" and "c \<noteq> CHR ''t''"
  shows "parse_value (Suc k) b =
     (if c = CHR 0x22 then (case parse_string b of None \<Rightarrow> Fault | Some (r, b) \<Rightarrow> Done (map_option cJSON_String r) b)
      else if c = CHR ''-'' \<or> isdigit c then (let (r, b) = parse_number b in Done r b)
      else if c = CHR ''['' then parse_array k b
      else if c = CHR ''{'' then parse_object k b
      else Done None b)"
  using assms sees_at[OF assms(1)] by (simp add: parse_value.simps)

lemma closes_depth: "closes n (b\<lparr>depth := depth b + 1\<rparr>) v res \<Longrightarrow> \<exists>b'. res = Done (Some v) b' \<and> passes n b b'"
  by (auto simp: closes_def passes_def)

lemma step_back_advance [simp]: "step_back (advance (Suc n) b) = advance n b"
  by (simp add: step_back_def advance_def)

text \<open>An opening bracket with white space behind it: the empty list, or the loop, which starts on the
  character before the first item.\<close>

lemma brackets_open:
  assumes "buffer_at_offset b = c # w @ d # r" and "blank w" and "32 < (of_char d :: nat)" and "depth b < CJSON_NESTING_LIMIT"
  shows "c = CHR ''['' \<Longrightarrow> parse_value (Suc (Suc k)) b =
      (if d = CHR '']'' then Done (Some (cJSON_Array [])) (advance (length w + 2) b)
       else array_loop k (advance (length w) (b\<lparr>depth := depth b + 1\<rparr>)) [])"
    and "c = CHR ''{'' \<Longrightarrow> parse_value (Suc (Suc k)) b =
      (if d = CHR ''}'' then Done (Some (cJSON_Object [])) (advance (length w + 2) b)
       else object_loop k (advance (length w) (b\<lparr>depth := depth b + 1\<rparr>)) [])"
proof -
  let ?b = "b\<lparr>depth := depth b + 1\<rparr>" and ?b1 = "advance (1 + length w) (b\<lparr>depth := depth b + 1\<rparr>)"
  have at: "buffer_at_offset ?b = c # w @ d # r" using assms(1) by (simp add: buffer_at_offset_def)
  then have "buffer_at_offset (advance 1 ?b) = w @ d # r" by (simp add: at_advance)
  from skip_ws_blank[OF this assms(2,3)] have skip: "buffer_skip_whitespace (advance 1 ?b) = ?b1" by (simp add: advance_def)
  have at1: "buffer_at_offset ?b1 = d # r" using at by (simp add: at_advance)
  have two: "advance 1 (?b1\<lparr>depth := depth b\<rparr>) = advance (length w + 2) b" by (simp add: advance_def)
  note facts = skip sees_at[OF at1] sees_at[OF at] at two
  show "c = CHR ''['' \<Longrightarrow> parse_value (Suc (Suc k)) b =
      (if d = CHR '']'' then Done (Some (cJSON_Array [])) (advance (length w + 2) b)
       else array_loop k (advance (length w) ?b) [])"
    using dispatch[OF assms(1)] assms(4) facts by (simp add: parse_array.simps Let_def isdigit_def buf_simps)
  show "c = CHR ''{'' \<Longrightarrow> parse_value (Suc (Suc k)) b =
      (if d = CHR ''}'' then Done (Some (cJSON_Object [])) (advance (length w + 2) b)
       else object_loop k (advance (length w) ?b) [])"
    using dispatch[OF assms(1)] assms(4) facts by (simp add: parse_object.simps Let_def isdigit_def buf_simps)
qed

text \<open>The white space before the first item of a list is passed over with the bracket.\<close>

lemma list_first:
  assumes "list_all2 (\<lambda>x. padded (P x)) xs ts" and "xs \<noteq> []" and "\<forall>x t. P x t \<longrightarrow> starts_item t"
  shows "\<exists>w d r us. blank w \<and> join_with '','' ts = w @ d # r \<and> join_with '','' us = d # r \<and> 32 < (of_char d :: nat) \<and>
    d \<noteq> CHR '']'' \<and> d \<noteq> CHR ''}'' \<and> list_all2 (\<lambda>x. padded (P x)) xs us"
proof -
  obtain x xs' t ts' where xs: "xs = x # xs'" "ts = t # ts'" using assms(1,2) by (cases xs; cases ts) auto
  then obtain w t' w2 where t: "t = w @ t' @ w2" "blank w" "blank w2" "P x t'" using assms(1) by (auto simp: padded_def)
  obtain d r where d: "t' = d # r" "32 < (of_char d :: nat)" "d \<noteq> CHR '']''" "d \<noteq> CHR ''}''" using assms(3) t(4) unfolding starts_item_def by blast
  have "padded (P x) (t' @ w2)" unfolding padded_def using t by (intro exI[of _ "[]"] exI[of _ t'] exI[of _ w2]) (simp add: blank_def)
  then have "list_all2 (\<lambda>x. padded (P x)) xs ((t' @ w2) # ts')" using assms(1) xs by simp
  moreover have "join_with '','' ts = w @ join_with '','' ((t' @ w2) # ts')" using xs t(1) by (cases ts') simp_all
  moreover have "\<exists>r'. join_with '','' ((t' @ w2) # ts') = d # r'" using d(1) by (cases ts') simp_all
  ultimately show ?thesis using t(2) d by metis
qed

lemma reads_starts: "reads n v t \<Longrightarrow> starts_item t"
  by (simp add: reads_def)

lemma member_starts: "member_text P name t \<Longrightarrow> starts_item t"
  unfolding member_text_def by (elim exE conjE) (simp add: starts_item_Cons)

context item_loop
begin

text \<open>A whole list between its brackets.\<close>

lemma bracket_reads:
  assumes "list_all2 (item n) xs us" and "xs \<noteq> []" and "hooks_ok b" and "depth b + Suc n \<le> CJSON_NESTING_LIMIT"
    and "buffer_at_offset b = c # w @ join_with '','' us @ close # r" and "3 * length (join_with '','' us) < k"
  shows "\<exists>b'. loop k (advance (length w) (b\<lparr>depth := depth b + 1\<rparr>)) [] = Done (Some (build xs)) b' \<and>
    passes (length w + length (join_with '','' us) + 2) b b'"
proof -
  let ?b = "b\<lparr>depth := depth b + 1\<rparr>" and ?b1 = "advance (length w) (b\<lparr>depth := depth b + 1\<rparr>)"
  have b1: "passes (length w) ?b ?b1" by (rule passes_self) (use assms(3) in \<open>simp add: hooks_ok_def\<close>)
  have "buffer_at_offset ?b1 = drop (length w) (c # w @ join_with '','' us @ close # r)"
    using assms(5) by (simp add: at_advance) (simp add: buffer_at_offset_def)
  moreover have "drop (length w) (c # w @ z) = (if w = [] then c else last w) # z" for z
    by (cases w rule: rev_cases) simp_all
  ultimately have at: "buffer_at_offset ?b1 = (if w = [] then c else last w) # join_with '','' us @ close # r" by simp
  have "closes (length (join_with '','' us) + 2) ?b1 (build ([] @ xs)) (loop k ?b1 [])"
    by (rule loop_reads[OF assms(1,2) hooks_ok_passes[OF b1] _ at assms(6)]) (use assms(4) in \<open>simp add: buf_simps\<close>)
  from closes_depth[OF closes_later[OF this b1]] show ?thesis by (simp add: add.assoc)
qed

end

lemma reads_array:
  assumes "vs \<noteq> []" and "list_all2 (\<lambda>v. padded (reads n v)) vs ts"
  shows "reads (Suc n) (cJSON_Array vs) (''['' @ join_with '','' ts @ '']'')"
proof -
  obtain w d rest us where
    f: "blank w" "join_with '','' ts = w @ d # rest" "join_with '','' us = d # rest" "32 < (of_char d :: nat)"
      "d \<noteq> CHR '']''" "list_all2 (\<lambda>v. padded (reads n v)) vs us"
    using list_first[OF assms(2,1)] reads_starts by blast
  show ?thesis unfolding append.simps
  proof (rule readsI)
    fix b r k
    assume b: "buffer_at_offset b = CHR ''['' # (join_with '','' ts @ '']'') @ r" "hooks_ok b" "depth b + Suc n \<le> CJSON_NESTING_LIMIT"
      "3 * length (join_with '','' ts @ '']'') + 2 \<le> k"
    obtain k' where k: "k = Suc k'" "3 * length (d # rest) < k'" using b(4) f(2) by (cases k) auto
    have at: "buffer_at_offset b = CHR ''['' # w @ join_with '','' us @ CHR '']'' # r" using b(1) f(2,3) by simp
    have "parse_value (Suc k) b = array_loop k' (advance (length w) (b\<lparr>depth := depth b + 1\<rparr>)) []"
      using brackets_open(1)[OF _ f(1,4), of b _ "rest @ CHR '']'' # r" k'] at f(3,5) b(3) k(1) by simp
    with array_items.bracket_reads[OF f(6) assms(1) b(2,3) at, of k'] k(2) f(2,3)
    show "\<exists>b'. parse_value (Suc k) b = Done (Some (cJSON_Array vs)) b' \<and> passes (Suc (length (join_with '','' ts @ '']''))) b b'"
      by auto
  qed (simp add: starts_item_Cons)
qed

lemma reads_object:
  assumes "ms \<noteq> []" and "list_all2 (\<lambda>m. padded (member_text (reads n (snd m)) (fst m))) ms ts"
  shows "reads (Suc n) (cJSON_Object ms) (''{'' @ join_with '','' ts @ ''}'')"
proof -
  obtain w d rest us where
    f: "blank w" "join_with '','' ts = w @ d # rest" "join_with '','' us = d # rest" "32 < (of_char d :: nat)"
      "d \<noteq> CHR ''}''" "list_all2 (\<lambda>m. padded (member_text (reads n (snd m)) (fst m))) ms us"
    using list_first[OF assms(2,1)] member_starts by blast
  show ?thesis unfolding append.simps
  proof (rule readsI)
    fix b r k
    assume b: "buffer_at_offset b = CHR ''{'' # (join_with '','' ts @ ''}'') @ r" "hooks_ok b" "depth b + Suc n \<le> CJSON_NESTING_LIMIT"
      "3 * length (join_with '','' ts @ ''}'') + 2 \<le> k"
    obtain k' where k: "k = Suc k'" "3 * length (d # rest) < k'" using b(4) f(2) by (cases k) auto
    have at: "buffer_at_offset b = CHR ''{'' # w @ join_with '','' us @ CHR ''}'' # r" using b(1) f(2,3) by simp
    have "parse_value (Suc k) b = object_loop k' (advance (length w) (b\<lparr>depth := depth b + 1\<rparr>)) []"
      using brackets_open(2)[OF _ f(1,4), of b _ "rest @ CHR ''}'' # r" k'] at f(3,5) b(3) k(1) by simp
    with object_items.bracket_reads[OF f(6) assms(1) b(2,3) at, of k'] k(2) f(2,3)
    show "\<exists>b'. parse_value (Suc k) b = Done (Some (cJSON_Object ms)) b' \<and> passes (Suc (length (join_with '','' ts @ ''}''))) b b'"
      by auto
  qed (simp add: starts_item_Cons)
qed

lemma reads_empty:
  assumes "blank w"
  shows "reads (Suc n) (cJSON_Array []) (''['' @ w @ '']'')" "reads (Suc n) (cJSON_Object []) (''{'' @ w @ ''}'')"
proof -
  show "reads (Suc n) (cJSON_Array []) (''['' @ w @ '']'')" unfolding append.simps
  proof (rule readsI)
    fix b r k assume b: "buffer_at_offset b = CHR ''['' # (w @ '']'') @ r" "hooks_ok b" "depth b + Suc n \<le> CJSON_NESTING_LIMIT" "3 * length (w @ '']'') + 2 \<le> k"
    then have "parse_value (Suc k) b = Done (Some (cJSON_Array [])) (advance (length w + 2) b)"
      using brackets_open(1)[OF _ assms, of b "CHR ''[''" "CHR '']''" r "k - 1"] by (cases k) simp_all
    then show "\<exists>b'. parse_value (Suc k) b = Done (Some (cJSON_Array [])) b' \<and> passes (Suc (length (w @ '']''))) b b'"
      using passes_self[OF b(2), of "length w + 2"] by simp
  qed (simp add: starts_item_Cons)
  show "reads (Suc n) (cJSON_Object []) (''{'' @ w @ ''}'')" unfolding append.simps
  proof (rule readsI)
    fix b r k assume b: "buffer_at_offset b = CHR ''{'' # (w @ ''}'') @ r" "hooks_ok b" "depth b + Suc n \<le> CJSON_NESTING_LIMIT" "3 * length (w @ ''}'') + 2 \<le> k"
    then have "parse_value (Suc k) b = Done (Some (cJSON_Object [])) (advance (length w + 2) b)"
      using brackets_open(2)[OF _ assms, of b "CHR ''{''" "CHR ''}''" r "k - 1"] by (cases k) simp_all
    then show "\<exists>b'. parse_value (Suc k) b = Done (Some (cJSON_Object [])) b' \<and> passes (Suc (length (w @ ''}''))) b b'"
      using passes_self[OF b(2), of "length w + 2"] by simp
  qed (simp add: starts_item_Cons)
qed

lemma read_at: "0 < n \<Longrightarrow> can_read b n \<longleftrightarrow> n \<le> length (buffer_at_offset b)"
  by (auto simp: can_read_def buffer_at_offset_def)

lemma reads_literal: "reads n cJSON_NULL ''null''" "reads n cJSON_False ''false''" "reads n cJSON_True ''true''"
  by (rule readsI; simp add: parse_value.simps read_at eval_nat_numeral passes_self starts_item_Cons)+

lemma reads_number:
  assumes "t \<noteq> []" and "hd t = CHR ''-'' \<or> isdigit (hd t)" and "\<forall>c \<in> set t. is_number_char c" and "strtod t = (d, length t)"
  shows "reads n (cJSON_Number d (saturate_int d)) t"
proof -
  obtain c t' where t: "t = c # t'" using assms(1) by (cases t) auto
  have c: "c = CHR ''-'' \<or> isdigit c" using assms(2) t by simp
  then have ne: "c \<noteq> CHR ''n''" "c \<noteq> CHR ''f''" "c \<noteq> CHR ''t''" "c \<noteq> CHR 0x22" "starts_item (c # t')" by (auto simp: isdigit_def starts_item_Cons)
  show ?thesis unfolding t
  proof (rule readsI)
    fix b r k assume b: "buffer_at_offset b = c # t' @ r" "stops r" "hooks_ok b"
    obtain b1 where b1: "allocate b = (True, b1)" "passes 0 b b1" using allocate_ok[OF b(3)] by blast
    have at: "buffer_at_offset b = t @ r" using b(1) t by simp
    have "takeWhile is_number_char (t @ r) = t" using assms(3) b(2) by (intro takeWhile_append_stop) (auto simp: stops_def)
    then have "parse_number b = (Some (cJSON_Number d (saturate_int d)), advance (length t) b1)"
      using b1 assms(1,4) by (simp add: parse_number_def at del: takeWhile_append)
    moreover have "parse_value (Suc k) b = (let (r, b) = parse_number b in Done r b)" using dispatch[OF b(1) ne(1-3)] c ne(4) by simp
    ultimately show "\<exists>b'. parse_value (Suc k) b = Done (Some (cJSON_Number d (saturate_int d))) b' \<and> passes (Suc (length t')) b b'"
      using passes_advance[OF b1(2), of "length t"] t by simp
  qed (rule ne(5))
qed

lemma reads_string:
  assumes "string_text t s"
  shows "reads n (cJSON_String s) (CHR 0x22 # t @ [CHR 0x22])"
proof (rule readsI)
  fix b r k assume b: "buffer_at_offset b = CHR 0x22 # (t @ [CHR 0x22]) @ r" "hooks_ok b"
  then show "\<exists>b'. parse_value (Suc k) b = Done (Some (cJSON_String s)) b' \<and> passes (Suc (length (t @ [CHR 0x22]))) b b'"
    using dispatch[OF b(1)] parse_string_text[of b t r s] assms by auto
qed (simp add: starts_item_Cons)

theorem denotes_reads: "denotes n v t \<Longrightarrow> reads n v t"
proof (induction rule: denotes.induct)
  case (text_array vs n ts)
  then show ?case by (intro reads_array) (auto elim!: list_all2_mono padded_mono[THEN mp, rotated])
next
  case (text_object ms n ts)
  then show ?case by (intro reads_object) (auto elim!: list_all2_mono padded_mono[THEN mp, rotated] member_text_mono[THEN mp, rotated])
next
  case (text_no_array w n)
  then show ?case by (rule reads_empty)
next
  case (text_no_object w n)
  then show ?case by (rule reads_empty)
qed (auto intro: reads_literal reads_number reads_string)

section \<open>Whole texts\<close>

text \<open>A text of the grammar with white space before it; the parser does not look at what follows it.\<close>

lemma cJSON_ParseWithLengthOpts_reads:
  assumes "denotes CJSON_NESTING_LIMIT v t" and "blank w" and "\<forall>x \<in> set hs. x" and "stops r"
  shows "\<exists>b. cJSON_ParseWithLengthOpts (w @ t @ r) False hs = Tree v b \<and> offset b = length w + length t"
proof -
  let ?val = "w @ t @ r"
  let ?b = "\<lparr>content = ?val, offset = 0, depth = 0, hooks = hs\<rparr>"
  note rd = denotes_reads[OF assms(1)]
  obtain b1 where b1: "allocate ?b = (True, b1)" "passes 0 ?b b1" using allocate_ok[of ?b] assms(3) by (auto simp: hooks_ok_def)
  have at: "buffer_at_offset b1 = ?val" using at_passes[OF b1(2)] by (simp add: buffer_at_offset_def)
  obtain c t' where t: "t = c # t'" "32 < (of_char c :: nat)" "c \<noteq> CHR 0xEF" using reads_starts[OF rd] by (auto simp: starts_item_def)
  have "hd ?val \<noteq> CHR 0xEF" using t(1,3) assms(2) by (cases w) (auto simp: blank_def)
  then have "skip_utf8_bom b1 = b1" using t by (cases ?val) (auto simp: skip_utf8_bom_def at)
  moreover have "buffer_skip_whitespace b1 = advance (length w) b1" using skip_ws_blank[OF _ assms(2) t(2)] at t(1) by simp
  moreover have "\<exists>b'. parse_value (3 * length ?val + 1) (advance (length w) b1) = Done (Some v) b' \<and> passes (length t) (advance (length w) b1) b'"
  proof -
    let ?b1 = "advance (length w) b1"
    have "buffer_at_offset ?b1 = t @ r" "hooks_ok ?b1" "depth ?b1 + CJSON_NESTING_LIMIT \<le> CJSON_NESTING_LIMIT" "3 * length t \<le> 3 * length ?val + 1"
      using at passes_advance[OF b1(2), of "length w"] b1(2) by (auto simp: at_advance buf_simps passes_def)
    then show ?thesis using rd assms(4) unfolding reads_def by blast
  qed
  ultimately show ?thesis using b1 t(1) by (auto simp: cJSON_ParseWithLengthOpts_def passes_def buf_simps)
qed

end
