(* ===== verification/Cjson_Read.thy ===== *)
theory Cjson_Read
  imports Cjson_Grammar
begin

text \<open>
  The texts that programs write: \<open>text_of\<close> is the text of a tree without white space, with escapes in its
  strings where JSON requires them. It is a text of the grammar, so the parser reads it back to the tree, when
  the numbers in it are of type \<^verbatim>\<open>int\<close>, the strings have no NUL and the nesting is within the limit of the
  parser.
\<close>

section \<open>Texts\<close>

definition hex_chr :: "nat \<Rightarrow> char" where
  "hex_chr d = ''0123456789abcdef'' ! d"

definition escape_of :: "char \<Rightarrow> string" where
  "escape_of c =
     (if c = CHR 0x22 \<or> c = CHR 0x5C then [CHR 0x5C, c]
      else if c = CHR 0x08 then [CHR 0x5C, CHR ''b''] else if c = CHR 0x0C then [CHR 0x5C, CHR ''f'']
      else if c = CHR 0x0A then [CHR 0x5C, CHR ''n''] else if c = CHR 0x0D then [CHR 0x5C, CHR ''r'']
      else if c = CHR 0x09 then [CHR 0x5C, CHR ''t'']
      else if (of_char c :: nat) < 32
        then [CHR 0x5C, CHR ''u'', CHR ''0'', CHR ''0'', hex_chr (of_char c div 16), hex_chr (of_char c mod 16)]
      else [c])"

definition escaped :: "string \<Rightarrow> string" where
  "escaped s = concat (map escape_of s)"

fun text_of :: "cJSON \<Rightarrow> string" where
  "text_of cJSON_NULL = ''null''"
| "text_of cJSON_False = ''false''"
| "text_of cJSON_True = ''true''"
| "text_of (cJSON_Number d i) = show_int i"
| "text_of (cJSON_String s) = CHR 0x22 # escaped s @ [CHR 0x22]"
| "text_of (cJSON_Raw s) = s"
| "text_of (cJSON_Array vs) = ''['' @ join_with '','' (map text_of vs) @ '']''"
| "text_of (cJSON_Object ms) =
     ''{'' @ join_with '','' (map (\<lambda>(name, v). CHR 0x22 # escaped name @ [CHR 0x22, CHR '':''] @ text_of v) ms) @ ''}''"

text \<open>A text that is its own JSON string.\<close>

definition plain_text :: "string \<Rightarrow> bool" where
  "plain_text s \<longleftrightarrow> (\<forall>c \<in> set s. escape_of c = [c] \<and> c \<noteq> CHR 0x00)"

text \<open>A tree that can be read back with \<open>n\<close> levels of nesting left.\<close>

fun readable :: "nat \<Rightarrow> cJSON \<Rightarrow> bool" where
  "readable n (cJSON_Number d i) \<longleftrightarrow> is_int32 i \<and> d = Finite (of_int i)"
| "readable n (cJSON_String s) \<longleftrightarrow> CHR 0x00 \<notin> set s"
| "readable n (cJSON_Raw s) \<longleftrightarrow> False"
| "readable n (cJSON_Array vs) \<longleftrightarrow> 0 < n \<and> (\<forall>v \<in> set vs. readable (n - 1) v)"
| "readable n (cJSON_Object ms) \<longleftrightarrow> 0 < n \<and> (\<forall>m \<in> set ms. CHR 0x00 \<notin> set (fst m) \<and> readable (n - 1) (snd m))"
| "readable n _ \<longleftrightarrow> True"

section \<open>Strings\<close>

lemma escaped_simps [simp]: "escaped [] = []" "escaped (c # s) = escape_of c @ escaped s"
  by (simp_all add: escaped_def)

lemma escaped_plain: "plain_text s \<Longrightarrow> escaped s = s"
  by (induction s) (auto simp: plain_text_def)

lemma plain_text_no_nul: "plain_text s \<Longrightarrow> CHR 0x00 \<notin> set s"
  by (auto simp: plain_text_def)

lemma hex_control:
  "n < 32 \<Longrightarrow> hex4 [CHR ''0'', CHR ''0'', hex_chr (n div 16), hex_chr (n mod 16)] \<and>
     hex_value [CHR ''0'', CHR ''0'', hex_chr (n div 16), hex_chr (n mod 16)] = n"
proof -
  have "\<forall>n \<in> set [0..<32]. hex4 [CHR ''0'', CHR ''0'', hex_chr (n div 16), hex_chr (n mod 16)] \<and>
     hex_value [CHR ''0'', CHR ''0'', hex_chr (n div 16), hex_chr (n mod 16)] = n" by code_simp
  then show "n < 32 \<Longrightarrow> ?thesis" by simp
qed

lemma escape_of_unit:
  assumes "c \<noteq> CHR 0x00"
  shows "unit_text (escape_of c) [c]"
proof -
  consider "c \<in> {CHR 0x22, CHR 0x5C, CHR 0x08, CHR 0x0C, CHR 0x0A, CHR 0x0D, CHR 0x09}"
    | "c \<notin> {CHR 0x22, CHR 0x5C, CHR 0x08, CHR 0x0C, CHR 0x0A, CHR 0x0D, CHR 0x09}" "(of_char c :: nat) < 32"
    | "c \<notin> {CHR 0x22, CHR 0x5C, CHR 0x08, CHR 0x0C, CHR 0x0A, CHR 0x0D, CHR 0x09}" "\<not> (of_char c :: nat) < 32" by blast
  then show ?thesis
  proof cases
    case 1
    then have "\<exists>x. escape_of c = [CHR 0x5C, x] \<and> escape_char x = Some c" by (auto simp: escape_of_def escape_char_def)
    then show ?thesis by (auto intro: unit_text.short_escape)
  next
    case 2
    note h = hex_control[OF 2(2)]
    have "(of_char c :: nat) \<noteq> 0" using assms char_of_nul[of "of_char c"] by auto
    then have "unit_text (CHR 0x5C # CHR ''u'' # [CHR ''0'', CHR ''0'', hex_chr (of_char c div 16), hex_chr (of_char c mod 16)]) (utf8_of (of_char c))"
      using unit_text.code_point[of "[CHR ''0'', CHR ''0'', hex_chr (of_char c div 16), hex_chr (of_char c mod 16)]"] h 2(2) by simp
    then show ?thesis using 2 by (simp add: escape_of_def utf8_of_def)
  next
    case 3
    then show ?thesis using assms by (auto simp: escape_of_def intro: unit_text.raw_char)
  qed
qed

lemma escaped_text: "CHR 0x00 \<notin> set s \<Longrightarrow> string_text (escaped s) s"
proof (induction s)
  case (Cons c s)
  then have "unit_text (escape_of c) [c]" by (intro escape_of_unit) auto
  from string_text.string_unit[OF this] Cons show ?case by simp
qed (simp add: string_text.string_nil)

section \<open>Numbers\<close>

lemma show_int_text:
  assumes "is_int32 i"
  shows "denotes n (cJSON_Number (Finite (of_int i)) i) (show_int i)"
proof -
  have "hd (show_int i) = CHR ''-'' \<or> isdigit (hd (show_int i))" using show_int_chars[of "hd (show_int i)" i] by auto
  moreover have "\<forall>c \<in> set (show_int i). is_number_char c" using show_int_chars by (auto simp: is_number_char_def)
  ultimately show ?thesis
    using denotes.text_number[of "show_int i" "Finite (of_int i)" n] strtod_show_int[OF assms] saturate_int_id[OF assms] by simp
qed

section \<open>Trees\<close>

lemma padded_self: "P t \<Longrightarrow> padded P t"
  unfolding padded_def by (intro exI[of _ "[]"] exI[of _ t]) (simp add: blank_def)

lemma member_self: "string_text nt name \<Longrightarrow> P t \<Longrightarrow> member_text P name (CHR 0x22 # nt @ CHR 0x22 # CHR '':'' # t)"
  unfolding member_text_def by (intro exI[of _ nt] exI[of _ "[]"] exI[of _ t]) (simp add: padded_self blank_def)

lemma text_of_denotes: "readable n v \<Longrightarrow> denotes n v (text_of v)"
proof (induction v arbitrary: n)
  case (cJSON_Array vs)
  obtain k where n: "n = Suc k" using cJSON_Array.prems by (cases n) auto
  then have "list_all2 (\<lambda>v. padded (denotes k v)) vs (map text_of vs)"
    using cJSON_Array by (auto simp: list.rel_map intro!: list.rel_refl_strong padded_self)
  then show ?case using n denotes.text_array[of vs k "map text_of vs"] denotes.text_no_array[of "[]" k] by (cases "vs = []") (auto simp: blank_def)
next
  case (cJSON_Object ms)
  let ?mt = "\<lambda>(name, v). CHR 0x22 # escaped name @ [CHR 0x22, CHR '':''] @ text_of v"
  obtain k where n: "n = Suc k" using cJSON_Object.prems by (cases n) auto
  then have "list_all2 (\<lambda>m. padded (member_text (denotes k (snd m)) (fst m))) ms (map ?mt ms)"
    using cJSON_Object by (auto simp: list.rel_map split_beta snds.simps intro!: list.rel_refl_strong padded_self member_self escaped_text)
  then show ?case using n denotes.text_object[of ms k "map ?mt ms"] denotes.text_no_object[of "[]" k] by (cases "ms = []") (auto simp: blank_def)
qed (auto intro: denotes.intros escaped_text show_int_text)

section \<open>Whole texts\<close>

lemma set_join_with: "set (join_with sep xs) \<subseteq> set sep \<union> (\<Union>x \<in> set xs. set x)"
  by (induction sep xs rule: join_with.induct) auto

lemma unit_text_source: "unit_text u bytes \<Longrightarrow> CHR 0x00 \<notin> set u"
proof (induction rule: unit_text.induct)
  case (short_escape x y)
  then show ?case by (auto simp: escape_char_def split: if_splits)
qed (auto simp: hex4_def hex_digit_def)

lemma string_text_source: "string_text t s \<Longrightarrow> CHR 0x00 \<notin> set t"
  by (induction rule: string_text.induct) (auto dest: unit_text_source)

lemma padded_source: "padded P t \<Longrightarrow> (\<And>u. P u \<Longrightarrow> CHR 0x00 \<notin> set u) \<Longrightarrow> CHR 0x00 \<notin> set t"
  by (auto simp: padded_def blank_def)

lemma list_source:
  "list_all2 (\<lambda>x. padded (P x)) xs ts \<Longrightarrow> \<forall>x t. P x t \<longrightarrow> CHR 0x00 \<notin> set t \<Longrightarrow> \<forall>t \<in> set ts. CHR 0x00 \<notin> set t"
  by (induction rule: list_all2_induct) (auto dest: padded_source)

lemma join_source: "(\<forall>t \<in> set ts. CHR 0x00 \<notin> set t) \<Longrightarrow> CHR 0x00 \<notin> set (join_with '','' ts)"
  using set_join_with[of "'',''" ts] by auto

text \<open>A text of the grammar has no NUL, so it is one C string.\<close>

lemma denotes_source: "denotes n v t \<Longrightarrow> CHR 0x00 \<notin> set t"
proof (induction rule: denotes.induct)
  case (text_array vs n ts)
  then show ?case using join_source[OF list_source[OF text_array(2)]] by auto
next
  case (text_object ms n ts)
  have "\<forall>m t. member_text (\<lambda>x. denotes n (snd m) x \<and> CHR 0x00 \<notin> set x) (fst m) t \<longrightarrow> CHR 0x00 \<notin> set t"
    by (auto simp: member_text_def blank_def dest: string_text_source padded_source)
  then show ?case using join_source[OF list_source[OF text_object(2)]] by auto
qed (auto simp: is_number_char_def isdigit_def blank_def dest: string_text_source)

text \<open>The parser on a text of the grammar, with white space around it.\<close>

lemma cJSON_Parse_denotes:
  assumes "denotes CJSON_NESTING_LIMIT v t" and "blank w" and "blank w'" and "\<forall>x \<in> set hs. x"
  shows "\<exists>b. cJSON_Parse (w @ t @ w') hs = Tree v b"
proof -
  have "CHR 0x00 \<notin> set (w @ t @ w')" using denotes_source[OF assms(1)] assms(2,3) by (auto simp: blank_def)
  then have "c_string (w @ t @ w') = w @ t @ w'" by (auto simp: c_string_def takeWhile_eq_all_conv)
  moreover have "stops (w' @ [CHR 0x00])" using assms(3) by (cases w') (auto simp: stops_def blank_def is_number_char_def isdigit_def)
  ultimately show ?thesis
    using cJSON_ParseWithLengthOpts_reads[OF assms(1,2,4)] by (fastforce simp: cJSON_Parse_def cJSON_ParseWithOpts_def)
qed

lemma cJSON_Parse_reads:
  assumes "readable CJSON_NESTING_LIMIT v" and "\<forall>x \<in> set hs. x"
  shows "\<exists>b. cJSON_Parse (text_of v) hs = Tree v b"
  using cJSON_Parse_denotes[OF text_of_denotes[OF assms(1)], of "[]" "[]" hs] assms(2) by (simp add: blank_def)

end
