(* ===== verification/Api_Client.thy ===== *)
theory Api_Client
  imports Cjson_Read
begin

text \<open>
  \<^verbatim>\<open>tui/src/api_client.c\<close>: the HTTP client of the terminal program. libcurl and the allocator are
  parameters, collected in the record \<open>'w net\<close> over any type \<open>'w\<close> of worlds: one transfer, the
  allocations of one parse, the allocation of the product array. A transfer answers with the status code and
  the chunks that libcurl hands to the write callback, each with the outcome of the callback's
  \<^verbatim>\<open>realloc\<close>. Answers are parsed by the model of cJSON.
\<close>

section \<open>Data\<close>

record tui_product =
  tp_slot_id :: int
  tp_item_id :: int
  tp_price_gr :: int
  tp_stock_qty :: int
  tp_name :: string

datatype api_status_t = API_OK | API_ERR_NETWORK | API_ERR_HTTP | API_ERR_PARSE

record api_client_t =
  ac_base_url :: string
  ac_user_id :: int
  ac_admin_token :: string
  ac_curl :: bool

record http_call =
  hc_method :: string
  hc_url :: string
  hc_body :: "string option"
  hc_headers :: "string list"

record 'w net =
  perform :: "http_call \<Rightarrow> 'w \<Rightarrow> (int \<times> (string \<times> bool) list) option \<times> 'w"
  json_allocs :: "'w \<Rightarrow> allocs \<times> 'w"
  calloc_ok :: "'w \<Rightarrow> bool \<times> 'w"

section \<open>Requests\<close>

fun write_cb :: "string \<Rightarrow> (string \<times> bool) list \<Rightarrow> string option" where
  "write_cb data [] = Some data"
| "write_cb data ((chunk, ok) # rest) = (if \<not> ok then None else write_cb (data @ chunk) rest)"

definition do_request ::
    "'w net \<Rightarrow> api_client_t \<Rightarrow> string \<Rightarrow> string \<Rightarrow> string option \<Rightarrow> bool \<Rightarrow> 'w \<Rightarrow>
     (api_status_t \<times> string \<times> int) \<times> 'w" where
  "do_request net c method path body use_admin w =
     (let url = fill_buf 512 (ac_base_url c @ path);
          post = (if method = ''GET'' then None
                  else if method = ''POST'' then Some (case body of Some b \<Rightarrow> b | None \<Rightarrow> [])
                  else body);
          auth = (if use_admin then fill_buf 200 (''Authorization: Bearer '' @ ac_admin_token c)
                  else fill_buf 200 (''Authorization: Bearer '' @ show_int (ac_user_id c)));
          hdrs = [auth] @ (if body \<noteq> None then [''Content-Type: application/json''] else []);
          (answer, w1) = perform net \<lparr>hc_method = method, hc_url = url, hc_body = post, hc_headers = hdrs\<rparr> w
      in case answer of
           None \<Rightarrow> ((API_ERR_NETWORK, [], 0), w1)
         | Some (status, chunks) \<Rightarrow>
             (case write_cb [] chunks of
                None \<Rightarrow> ((API_ERR_NETWORK, [], 0), w1)
              | Some data \<Rightarrow> ((API_OK, data, status), w1)))"

definition api_client_init :: "bool \<Rightarrow> string \<Rightarrow> int \<Rightarrow> string \<Rightarrow> api_status_t \<times> api_client_t" where
  "api_client_init curl base_url uid admin_token =
     (if curl then API_OK else API_ERR_NETWORK,
      \<lparr>ac_base_url = fill_buf 256 base_url, ac_user_id = uid, ac_admin_token = fill_buf 128 admin_token, ac_curl = curl\<rparr>)"

text \<open>Whether the handle is given back, and the client afterwards.\<close>

definition api_client_cleanup :: "api_client_t \<Rightarrow> bool \<times> api_client_t" where
  "api_client_cleanup c = (if ac_curl c then (True, c\<lparr>ac_curl := False\<rparr>) else (False, c))"

section \<open>Reading JSON\<close>

text \<open>\<^verbatim>\<open>cJSON_Parse\<close> as the client uses it; \<open>None\<close> is a null pointer.\<close>

definition parse_json :: "'w net \<Rightarrow> string \<Rightarrow> 'w \<Rightarrow> cJSON option \<times> 'w" where
  "parse_json net data w =
     (let (hs, w1) = json_allocs net w
      in (case cJSON_Parse data hs of Tree tree b \<Rightarrow> Some tree | _ \<Rightarrow> None, w1))"

definition json_int :: "cJSON option \<Rightarrow> int" where
  "json_int j = (case j of None \<Rightarrow> 0 | Some v \<Rightarrow> if cJSON_IsNumber v then valueint v else 0)"

definition json_product :: "cJSON \<Rightarrow> tui_product" where
  "json_product el =
     \<lparr>tp_slot_id = json_int (cJSON_GetObjectItem el ''slot_id''),
      tp_item_id = json_int (cJSON_GetObjectItem el ''item_id''),
      tp_price_gr = json_int (cJSON_GetObjectItem el ''price_gr''),
      tp_stock_qty = json_int (cJSON_GetObjectItem el ''stock_qty''),
      tp_name = (case cJSON_GetObjectItem el ''name'' of
                   None \<Rightarrow> []
                 | Some v \<Rightarrow> if cJSON_IsString v then fill_buf 64 (valuestring v) else [])\<rparr>"

text \<open>The array is allocated for the number of elements, which is taken to be in the range of \<^verbatim>\<open>int\<close>.\<close>

definition api_get_stock :: "'w net \<Rightarrow> api_client_t \<Rightarrow> 'w \<Rightarrow> (api_status_t \<times> tui_product list) \<times> 'w" where
  "api_get_stock net c w =
     (let ((st, data, status), w1) = do_request net c ''GET'' ''/stock'' None False w in
      if st \<noteq> API_OK then ((st, []), w1)
      else if 400 \<le> status then ((API_ERR_HTTP, []), w1)
      else let (tree, w2) = parse_json net data w1 in
           case tree of
             None \<Rightarrow> ((API_ERR_PARSE, []), w2)
           | Some tree \<Rightarrow>
               (if \<not> cJSON_IsArray tree then ((API_ERR_PARSE, []), w2)
                else let (ok, w3) = calloc_ok net w2 in
                     if \<not> ok then ((API_ERR_PARSE, []), w3)
                     else ((API_OK, map (json_product \<circ> snd) (child tree)), w3)))"

text \<open>An answer with one number in it; \<open>None\<close> where the out-parameter is not written.\<close>

definition number_call ::
    "'w net \<Rightarrow> api_client_t \<Rightarrow> string \<Rightarrow> string \<Rightarrow> string \<Rightarrow> 'w \<Rightarrow> (api_status_t \<times> int option) \<times> 'w" where
  "number_call net c method path field w =
     (let ((st, data, status), w1) = do_request net c method path None False w in
      if st \<noteq> API_OK then ((st, None), w1)
      else if 400 \<le> status then ((API_ERR_HTTP, None), w1)
      else let (tree, w2) = parse_json net data w1 in
           case tree of
             None \<Rightarrow> ((API_ERR_PARSE, None), w2)
           | Some tree \<Rightarrow>
               (case cJSON_GetObjectItem tree field of
                  None \<Rightarrow> ((API_ERR_PARSE, None), w2)
                | Some v \<Rightarrow> if cJSON_IsNumber v then ((API_OK, Some (valueint v)), w2) else ((API_ERR_PARSE, None), w2)))"

definition api_get_balance :: "'w net \<Rightarrow> api_client_t \<Rightarrow> 'w \<Rightarrow> (api_status_t \<times> int option) \<times> 'w" where
  "api_get_balance net c = number_call net c ''GET'' ''/balance'' ''balance_gr''"

definition api_refund :: "'w net \<Rightarrow> api_client_t \<Rightarrow> 'w \<Rightarrow> (api_status_t \<times> int option) \<times> 'w" where
  "api_refund net c = number_call net c ''DELETE'' ''/balance'' ''refund_gr''"

section \<open>Calls that change the machine\<close>

definition status_call ::
    "'w net \<Rightarrow> api_client_t \<Rightarrow> string \<Rightarrow> string \<Rightarrow> string \<Rightarrow> bool \<Rightarrow> 'w \<Rightarrow> api_status_t \<times> 'w" where
  "status_call net c method path body use_admin w =
     (let ((st, data, status), w1) = do_request net c method path (Some body) use_admin w in
      if st \<noteq> API_OK then (st, w1)
      else if 400 \<le> status then (API_ERR_HTTP, w1) else (API_OK, w1))"

definition deposit_body :: "int \<Rightarrow> string" where
  \<open>deposit_body n = fill_buf 64 (''{"amount_gr":'' @ show_int n @ ''}'')\<close>

definition purchase_body :: "int \<Rightarrow> string" where
  \<open>purchase_body n = fill_buf 64 (''{"slot_id":'' @ show_int n @ ''}'')\<close>

definition restock_body :: "int \<Rightarrow> string" where
  \<open>restock_body n = fill_buf 64 (''{"qty":'' @ show_int n @ ''}'')\<close>

definition price_body :: "int \<Rightarrow> string" where
  \<open>price_body n = fill_buf 64 (''{"price_gr":'' @ show_int n @ ''}'')\<close>

definition restock_path :: "int \<Rightarrow> string" where
  "restock_path slot = fill_buf 64 (''/stock/'' @ show_int slot)"

definition price_path :: "int \<Rightarrow> string" where
  "price_path item = fill_buf 64 (''/items/'' @ show_int item)"

definition api_deposit :: "'w net \<Rightarrow> api_client_t \<Rightarrow> int \<Rightarrow> 'w \<Rightarrow> api_status_t \<times> 'w" where
  "api_deposit net c amount_gr = status_call net c ''POST'' ''/balance'' (deposit_body amount_gr) False"

definition api_purchase :: "'w net \<Rightarrow> api_client_t \<Rightarrow> int \<Rightarrow> 'w \<Rightarrow> api_status_t \<times> 'w" where
  "api_purchase net c slot = status_call net c ''POST'' ''/orders'' (purchase_body slot) False"

definition api_restock :: "'w net \<Rightarrow> api_client_t \<Rightarrow> int \<Rightarrow> int \<Rightarrow> 'w \<Rightarrow> api_status_t \<times> 'w" where
  "api_restock net c slot qty = status_call net c ''PATCH'' (restock_path slot) (restock_body qty) True"

definition api_set_price :: "'w net \<Rightarrow> api_client_t \<Rightarrow> int \<Rightarrow> int \<Rightarrow> 'w \<Rightarrow> api_status_t \<times> 'w" where
  "api_set_price net c item price = status_call net c ''PATCH'' (price_path item) (price_body price) True"

section \<open>Lemmas\<close>

text \<open>The bodies and paths are what the server's \<^verbatim>\<open>sscanf\<close> formats read back.\<close>

lemma body_fits:
  assumes "is_int32 n"
  shows \<open>deposit_body n = ''{"amount_gr":'' @ show_int n @ ''}''\<close> \<open>purchase_body n = ''{"slot_id":'' @ show_int n @ ''}''\<close>
    \<open>restock_body n = ''{"qty":'' @ show_int n @ ''}''\<close> \<open>price_body n = ''{"price_gr":'' @ show_int n @ ''}''\<close>
    "restock_path n = ''/stock/'' @ show_int n" "price_path n = ''/items/'' @ show_int n"
  using show_int_length[OF assms]
  by (simp_all add: deposit_body_def purchase_body_def restock_body_def price_body_def restock_path_def
      price_path_def fill_buf_id)

lemma scan_lits: "scan (map FLit cs @ ds) (cs @ r) = scan ds r"
  by (induction cs) auto

lemma sscanf1_lits:
  assumes "parse_fmt None fmt = map FLit cs @ FInt # map FLit es" and "is_int32 n" and "r = [] \<or> \<not> isdigit (hd r)"
  shows "sscanf1_int fmt (cs @ show_int n @ r) = Some n"
proof -
  have "scan (map FLit es) x = []" for es x
    by (induction es arbitrary: x) (auto split: list.splits)
  moreover have "scan_long (show_int n @ r) = Some (n, r)"
    using assms by (intro scan_long_show_int is_int32_is_int64)
  ultimately show ?thesis
    using assms by (simp add: sscanf1_int_def sscanf_def scan_lits wrap32_id)
qed

lemma scan_bodies:
  assumes "is_int32 n"
  shows \<open>sscanf1_int ''{"amount_gr":%d}'' (deposit_body n) = Some n\<close>
    \<open>sscanf1_int ''{"slot_id":%d}'' (purchase_body n) = Some n\<close>
    \<open>sscanf1_int ''{"qty":%d}'' (restock_body n) = Some n\<close>
    \<open>sscanf1_int ''{"price_gr":%d}'' (price_body n) = Some n\<close>
    "sscanf1_int ''/stock/%d'' (restock_path n) = Some n"
    "sscanf1_int ''/items/%d'' (price_path n) = Some n"
proof -
  note fmt = sscanf1_lits[OF _ assms]
  have close: "''}'' = [] \<or> \<not> isdigit (hd ''}'')" by (simp add: isdigit_def)
  have f: \<open>parse_fmt None ''{"amount_gr":%d}'' = map FLit ''{"amount_gr":'' @ FInt # map FLit ''}''\<close>
    \<open>parse_fmt None ''{"slot_id":%d}'' = map FLit ''{"slot_id":'' @ FInt # map FLit ''}''\<close>
    \<open>parse_fmt None ''{"qty":%d}'' = map FLit ''{"qty":'' @ FInt # map FLit ''}''\<close>
    \<open>parse_fmt None ''{"price_gr":%d}'' = map FLit ''{"price_gr":'' @ FInt # map FLit ''}''\<close>
    "parse_fmt None ''/stock/%d'' = map FLit ''/stock/'' @ FInt # map FLit []"
    "parse_fmt None ''/items/%d'' = map FLit ''/items/'' @ FInt # map FLit []"
    by code_simp+
  show \<open>sscanf1_int ''{"amount_gr":%d}'' (deposit_body n) = Some n\<close>
    unfolding body_fits[OF assms] by (rule fmt[OF f(1) close])
  show \<open>sscanf1_int ''{"slot_id":%d}'' (purchase_body n) = Some n\<close>
    unfolding body_fits[OF assms] by (rule fmt[OF f(2) close])
  show \<open>sscanf1_int ''{"qty":%d}'' (restock_body n) = Some n\<close>
    unfolding body_fits[OF assms] by (rule fmt[OF f(3) close])
  show \<open>sscanf1_int ''{"price_gr":%d}'' (price_body n) = Some n\<close>
    unfolding body_fits[OF assms] by (rule fmt[OF f(4) close])
  show "sscanf1_int ''/stock/%d'' (restock_path n) = Some n"
    using fmt[OF f(5), of "[]"] by (simp add: body_fits[OF assms])
  show "sscanf1_int ''/items/%d'' (price_path n) = Some n"
    using fmt[OF f(6), of "[]"] by (simp add: body_fits[OF assms])
qed

end
