(* ===== verification/Wire.thy ===== *)
theory Wire
  imports Router Api_Client
begin

text \<open>
  Client and server together: what the terminal client puts on the wire (\<^verbatim>\<open>tui/src/api_client.c\<close>, sent by
  libcurl as an HTTP/1.1 request with headers of its own around the client's) and what the server's
  connection handler makes of it.
\<close>

text \<open>The headers that libcurl adds before and after the token: lines that the server passes over, without
  NUL bytes, and short enough for the receive buffer.\<close>

definition wire_headers :: "string list \<Rightarrow> string list \<Rightarrow> bool" where
  "wire_headers hs1 hs2 \<longleftrightarrow>
     (\<forall>h \<in> set (hs1 @ hs2). plain_header h \<and> CHR 0x00 \<notin> set h) \<and>
     length (concat (map (\<lambda>h. h @ crlf) (hs1 @ hs2))) \<le> 1500"

text \<open>A path, token and body that fit the server's buffers.\<close>

definition wire_fits :: "string \<Rightarrow> string \<Rightarrow> string \<Rightarrow> bool" where
  "wire_fits path token body \<longleftrightarrow>
     path \<noteq> [] \<and> length path < MAX_PATH_LEN \<and> (\<forall>c \<in> set path. \<not> isspace c) \<and>
     CHR 0x0D \<notin> set token \<and> length token < BEARER_SIZE \<and> length body \<le> 64 \<and>
     CHR 0x00 \<notin> set (path @ token @ body)"

lemma recv_print:
  assumes "wire_headers hs1 hs2" and "wire_fits path token body"
  shows "recv_text (print_request m path hs1 token hs2 body) = print_request m path hs1 token hs2 body"
proof -
  let ?hs = "\<lambda>hs. concat (map (\<lambda>h. h @ crlf) hs)"
  have "length (method_str m) \<le> 6" "CHR 0x00 \<notin> set (method_str m)" by (cases m; simp add: method_str_def)+
  moreover have "CHR 0x00 \<notin> set (?hs hs1)" "CHR 0x00 \<notin> set (?hs hs2)"
    using assms(1) by (auto simp: wire_headers_def)
  ultimately have "length (print_request m path hs1 token hs2 body) \<le> BUF_SIZE - 1"
      "CHR 0x00 \<notin> set (print_request m path hs1 token hs2 body)"
    using assms by (auto simp: print_request_def wire_headers_def wire_fits_def BUF_SIZE_def MAX_PATH_LEN_def
        BEARER_SIZE_def auth_header_def)
  then show ?thesis by (auto simp: recv_text_def takeWhile_eq_all_conv)
qed

text \<open>The connection handler dispatches the request that was written.\<close>

lemma client_request:
  assumes "wire_headers hs1 hs2" and "wire_fits path token body"
  shows "handle_client tree fuel saved (Some cl) (print_request m path hs1 token hs2 body) =
    call (dispatch tree fuel saved \<lparr>req_method = Some m, req_path = path, req_body = body,
        req_auth = auth_parse token (admin_token (c_ctx cl))\<rparr> (c_internal cl))
      (\<lambda>out. Ret [SockSend out, SockClose])"
proof -
  have "parse_request (print_request m path hs1 token hs2 body) (admin_token (c_ctx cl)) =
      \<lparr>req_method = Some m, req_path = path, req_body = body, req_auth = auth_parse token (admin_token (c_ctx cl))\<rparr>"
    using assms by (intro parse_print_request) (auto simp: wire_headers_def wire_fits_def MAX_BODY_LEN_def)
  moreover have "print_request m path hs1 token hs2 body \<noteq> []" by (simp add: print_request_def)
  ultimately show ?thesis by (simp add: handle_client_def recv_print[OF assms])
qed

lemma show_int_plain: "\<not> isspace c \<and> c \<noteq> CHR 0x00 \<and> c \<noteq> CHR 0x0D \<and> c \<noteq> CHR ''/''" if "c \<in> set (show_int n)"
  using show_int_chars[OF that] by (auto simp: isspace_def isdigit_def)

lemma wire_fits_client:
  assumes "is_int32 n" and "is_int32 k" and "length token < BEARER_SIZE"
    and "CHR 0x0D \<notin> set token" and "CHR 0x00 \<notin> set token"
  shows "wire_fits ''/orders'' token (purchase_body n)" "wire_fits ''/balance'' token (deposit_body n)"
    "wire_fits (restock_path n) token (restock_body k)" "wire_fits (price_path n) token (price_body k)"
  using assms show_int_length[OF assms(1)] show_int_length[OF assms(2)] show_int_plain
  by (auto simp: wire_fits_def body_fits MAX_PATH_LEN_def isspace_def)

lemma wire_routes:
  assumes "is_int32 n"
  shows "segments (CHR ''/'') (restock_path n) = [''stock'', show_int n]"
    "segments (CHR ''/'') (price_path n) = [''items'', show_int n]"
  using segments_join_path[of "[''stock'', show_int n]" "CHR ''/''"] segments_join_path[of "[''items'', show_int n]" "CHR ''/''"]
    show_int_plain[of "CHR ''/''" n] assms by (auto simp: body_fits)

lemmas handler_tables = no_handler_def stock_handler_t_def stock_slot_handler_t_def balance_handler_t_def
  orders_handler_t_def items_handler_t_def debug_handler_t_def user_lookup_handler_t_def

text \<open>A handler of the form \<open>call service (\<lambda>rc. if rc \<noteq> 0 then bad else good)\<close>, seen from the connection.\<close>

lemma call_reply:
  "call (call p (\<lambda>rc. if rc \<noteq> 0 then Ret bad else Ret good)) (\<lambda>out. Ret [SockSend out, SockClose]) =
   call p (\<lambda>rc. Ret [SockSend (if rc \<noteq> (0::int) then bad else good), SockClose])"
  unfolding call_assoc by (rule arg_cong[of _ _ "call p"]) auto

lemma client_purchase:
  assumes "wire_headers hs1 hs2" and "is_int32 n" and "0 < uid" and "uid \<le> INT_MAX" and "show_int uid \<noteq> admin_token (c_ctx cl)"
  shows \<open>handle_client router_tree fuel saved (Some cl) (print_request POST ''/orders'' hs1 (show_int uid) hs2 (purchase_body n)) =
    call (orders_purchase uid n) (\<lambda>rc. Ret [SockSend (if rc \<noteq> 0 then send_json_orders 500 ''{"error":"purchase failed"}''
      else send_json_orders 200 ''{"ok":true}''), SockClose])\<close>
proof -
  have "wire_fits ''/orders'' (show_int uid) (purchase_body n)"
    using assms show_int_length_nonneg[of uid] show_int_plain by (intro wire_fits_client(1)) (auto simp: BEARER_SIZE_def)
  from client_request[OF assms(1) this] show ?thesis
    using assms by (simp add: dispatch_def search_router route_segments route_spec_def orders_handler_t_def no_handler_def
        auth_parse_user handle_post_purchase_def scan_bodies call_reply)
qed

lemma client_deposit:
  assumes "wire_headers hs1 hs2" and "is_int32 n" and "0 < uid" and "uid \<le> INT_MAX" and "show_int uid \<noteq> admin_token (c_ctx cl)"
  shows \<open>handle_client router_tree fuel saved (Some cl) (print_request POST ''/balance'' hs1 (show_int uid) hs2 (deposit_body n)) =
    call (balance_deposit uid n) (\<lambda>rc. Ret [SockSend (if rc \<noteq> 0 then send_json_balance 500 ''{"error":"internal error"}''
      else send_json_balance 200 ''{"ok":true}''), SockClose])\<close>
proof -
  have "wire_fits ''/balance'' (show_int uid) (deposit_body n)"
    using assms show_int_length_nonneg[of uid] show_int_plain by (intro wire_fits_client(2)) (auto simp: BEARER_SIZE_def)
  from client_request[OF assms(1) this] show ?thesis
    using assms by (simp add: dispatch_def search_router route_segments route_spec_def balance_handler_t_def no_handler_def
        auth_parse_user handle_post_deposit_def scan_bodies call_reply)
qed

text \<open>The admin calls, with the admin token that both programs were given.\<close>

lemma client_admin:
  assumes "wire_headers hs1 hs2" and "is_int32 n" and "is_int32 k"
    and "admin_token (c_ctx cl) = adm" and "adm \<noteq> []" and "length adm < BEARER_SIZE"
    and "CHR 0x0D \<notin> set adm" and "CHR 0x00 \<notin> set adm"
  shows \<open>handle_client router_tree fuel saved (Some cl) (print_request PATCH (restock_path n) hs1 adm hs2 (restock_body k)) =
      call (product_restock n k) (\<lambda>rc. Ret [SockSend (if rc \<noteq> 0 then send_json_admin 500 ''{"error":"restock failed"}''
        else send_json_admin 200 ''{"ok":true}''), SockClose])\<close>
    and \<open>handle_client router_tree fuel saved (Some cl) (print_request PATCH (price_path n) hs1 adm hs2 (price_body k)) =
      call (product_update_price n k) (\<lambda>rc. Ret [SockSend (if rc \<noteq> 0 then send_json_admin 500 ''{"error":"update failed"}''
        else send_json_admin 200 ''{"ok":true}''), SockClose])\<close>
proof -
  have adm: "role (auth_parse adm adm) = AUTH_ADMIN" using assms(5) by (simp add: auth_parse_admin)
  note fits = wire_fits_client(3,4)[OF assms(2,3,6-8)]
  show \<open>handle_client router_tree fuel saved (Some cl) (print_request PATCH (restock_path n) hs1 adm hs2 (restock_body k)) =
      call (product_restock n k) (\<lambda>rc. Ret [SockSend (if rc \<noteq> 0 then send_json_admin 500 ''{"error":"restock failed"}''
        else send_json_admin 200 ''{"ok":true}''), SockClose])\<close>
    using client_request[OF assms(1) fits(1), of router_tree fuel saved cl PATCH] assms(2-4) adm
    by (simp add: dispatch_def search_router wire_routes route_spec_def stock_slot_handler_t_def no_handler_def
        handle_post_restock_def scan_bodies call_reply)
  show \<open>handle_client router_tree fuel saved (Some cl) (print_request PATCH (price_path n) hs1 adm hs2 (price_body k)) =
      call (product_update_price n k) (\<lambda>rc. Ret [SockSend (if rc \<noteq> 0 then send_json_admin 500 ''{"error":"update failed"}''
        else send_json_admin 200 ''{"ok":true}''), SockClose])\<close>
    using client_request[OF assms(1) fits(2), of router_tree fuel saved cl PATCH] assms(2-4) adm
    by (simp add: dispatch_def search_router wire_routes route_spec_def items_handler_t_def no_handler_def
        handle_post_update_price_def scan_bodies call_reply)
qed

end
