(* ===== verification/Work_Queue.thy ===== *)
theory Work_Queue
  imports Prelude
begin

text \<open>
  The job queue of \<^verbatim>\<open>server/src/threadpool/threadpool.c\<close>: a singly linked list in the heap with a pointer to
  its first and its last node. Addresses are natural numbers; \<^verbatim>\<open>malloc\<close> is a parameter of each call
  (the address it returns, or \<open>None\<close>). Following a null or dangling pointer is the result \<open>None\<close>.

  The locale \<open>fifo_queue\<close> is the contract of a queue towards the pool; the linked list is its
  interpretation.
\<close>

section \<open>Nodes and queues\<close>

record 'a tpool_work =
  w_job :: 'a
  w_next :: "nat option"

record 'a work_queue =
  heap :: "nat \<rightharpoonup> 'a tpool_work"
  work_first :: "nat option"
  work_last :: "nat option"

definition empty_queue :: "'a work_queue" where
  "empty_queue = \<lparr>heap = Map.empty, work_first = None, work_last = None\<rparr>"

text \<open>The null function pointer is the job \<open>None\<close>. A failing \<^verbatim>\<open>malloc\<close> is reported and then
  dereferenced. The inner option is the pointer that the function returns.\<close>

definition tpool_work_create :: "nat option \<Rightarrow> 'a option \<Rightarrow> 'a work_queue \<Rightarrow> (nat option \<times> 'a work_queue) option" where
  "tpool_work_create malloc job q =
     (case job of
        None \<Rightarrow> Some (None, q)
      | Some j \<Rightarrow>
          (case malloc of
             None \<Rightarrow> None
           | Some a \<Rightarrow> Some (Some a, q\<lparr>heap := (heap q)(a \<mapsto> \<lparr>w_job = j, w_next = None\<rparr>)\<rparr>)))"

definition tpool_work_destroy :: "nat option \<Rightarrow> 'a work_queue \<Rightarrow> 'a work_queue" where
  "tpool_work_destroy work q =
     (case work of None \<Rightarrow> q | Some a \<Rightarrow> q\<lparr>heap := (heap q)(a := None)\<rparr>)"

text \<open>The critical section of \<^verbatim>\<open>tpool_add_work\<close> that links the new node.\<close>

definition link_work :: "nat \<Rightarrow> 'a work_queue \<Rightarrow> 'a work_queue option" where
  "link_work a q =
     (if work_first q = None then Some (q\<lparr>work_first := Some a, work_last := Some a\<rparr>)
      else case work_last q of
             None \<Rightarrow> None
           | Some l \<Rightarrow>
               (case heap q l of
                  None \<Rightarrow> None
                | Some w \<Rightarrow> Some (q\<lparr>heap := (heap q)(l \<mapsto> w\<lparr>w_next := Some a\<rparr>), work_last := Some a\<rparr>)))"

definition tpool_work_get :: "'a work_queue \<Rightarrow> (nat option \<times> 'a work_queue) option" where
  "tpool_work_get q =
     (case work_first q of
        None \<Rightarrow> Some (None, q)
      | Some a \<Rightarrow>
          (case heap q a of
             None \<Rightarrow> None
           | Some w \<Rightarrow>
               (if w_next w = None then Some (Some a, q\<lparr>work_first := None, work_last := None\<rparr>)
                else Some (Some a, q\<lparr>work_first := w_next w\<rparr>))))"

text \<open>The loop of \<^verbatim>\<open>tpool_destroy\<close> that frees the queued nodes; it follows \<^verbatim>\<open>next\<close> until it is null, so
  it could run forever on a cyclic list: the fuel bounds the number of nodes.\<close>

primrec destroy_loop :: "nat \<Rightarrow> nat option \<Rightarrow> 'a work_queue \<Rightarrow> 'a work_queue option" where
  "destroy_loop 0 work q = (if work = None then Some q else None)"
| "destroy_loop (Suc n) work q =
     (case work of
        None \<Rightarrow> Some q
      | Some a \<Rightarrow>
          (case heap q a of
             None \<Rightarrow> None
           | Some w \<Rightarrow> destroy_loop n (w_next w) (tpool_work_destroy (Some a) q)))"

text \<open>Emptying the queue as \<^verbatim>\<open>tpool_destroy\<close> does: the loop, then \<^verbatim>\<open>work_first = NULL\<close>.\<close>

definition clear_queue :: "nat \<Rightarrow> 'a work_queue \<Rightarrow> 'a work_queue option" where
  "clear_queue n q = map_option (\<lambda>q'. q'\<lparr>work_first := None\<rparr>) (destroy_loop n (work_first q) q)"

section \<open>Abstraction\<close>

text \<open>The jobs that are met on the way from a pointer to the end of the list.\<close>

primrec walk_jobs :: "nat \<Rightarrow> (nat \<rightharpoonup> 'a tpool_work) \<Rightarrow> nat option \<Rightarrow> 'a list" where
  "walk_jobs 0 h p = []"
| "walk_jobs (Suc n) h p =
     (case p of
        None \<Rightarrow> []
      | Some a \<Rightarrow> (case h a of None \<Rightarrow> [] | Some w \<Rightarrow> w_job w # walk_jobs n h (w_next w)))"

text \<open>The addresses from a pointer to the end of the list.\<close>

fun chain :: "(nat \<rightharpoonup> 'a tpool_work) \<Rightarrow> nat option \<Rightarrow> nat list \<Rightarrow> bool" where
  "chain h p [] \<longleftrightarrow> p = None"
| "chain h p (a # as) \<longleftrightarrow> p = Some a \<and> (case h a of None \<Rightarrow> False | Some w \<Rightarrow> chain h (w_next w) as)"

definition queue_rep :: "'a work_queue \<Rightarrow> (nat \<times> 'a) list \<Rightarrow> bool" where
  "queue_rep q xs \<longleftrightarrow>
     chain (heap q) (work_first q) (map fst xs) \<and> distinct (map fst xs) \<and>
     (\<forall>x \<in> set xs. map_option w_job (heap q (fst x)) = Some (snd x)) \<and>
     (xs \<noteq> [] \<longrightarrow> work_last q = Some (fst (last xs)))"

definition queue_jobs :: "'a work_queue \<Rightarrow> nat \<rightharpoonup> 'a" where
  "queue_jobs q a = map_option w_job (heap q a)"

section \<open>The interface\<close>

text \<open>\<open>rep q xs\<close>: the queue \<open>q\<close> holds the nodes \<open>xs\<close>, the oldest first. \<open>jobs q\<close> are the allocated
  nodes with their jobs, those in the queue and those that a worker has taken out.\<close>

locale fifo_queue =
  fixes rep :: "'q \<Rightarrow> (nat \<times> 'a) list \<Rightarrow> bool"
    and jobs :: "'q \<Rightarrow> nat \<rightharpoonup> 'a"
    and empty :: 'q
    and create :: "nat option \<Rightarrow> 'a option \<Rightarrow> 'q \<Rightarrow> (nat option \<times> 'q) option"
    and link :: "nat \<Rightarrow> 'q \<Rightarrow> 'q option"
    and get :: "'q \<Rightarrow> (nat option \<times> 'q) option"
    and free :: "nat option \<Rightarrow> 'q \<Rightarrow> 'q"
    and clear :: "nat \<Rightarrow> 'q \<Rightarrow> 'q option"
  assumes rep_empty: "rep empty []" "jobs empty = Map.empty"
    and rep_jobs: "rep q xs \<Longrightarrow> (a, j) \<in> set xs \<Longrightarrow> jobs q a = Some j"
    and rep_distinct: "rep q xs \<Longrightarrow> distinct (map fst xs)"
    and rep_add: "rep q xs \<Longrightarrow> jobs q a = None \<Longrightarrow>
      \<exists>q1 q2. create (Some a) (Some j) q = Some (Some a, q1) \<and> link a q1 = Some q2 \<and>
        rep q2 (xs @ [(a, j)]) \<and> jobs q2 = (jobs q)(a \<mapsto> j)"
    and rep_get_Nil: "rep q [] \<Longrightarrow> get q = Some (None, q)"
    and rep_get: "rep q ((a, j) # xs) \<Longrightarrow> \<exists>q'. get q = Some (Some a, q') \<and> rep q' xs \<and> jobs q' = jobs q"
    and rep_free: "rep q xs \<Longrightarrow> a \<notin> fst ` set xs \<Longrightarrow> rep (free (Some a) q) xs \<and> jobs (free (Some a) q) = (jobs q)(a := None)"
    and rep_clear: "rep q xs \<Longrightarrow> length xs \<le> n \<Longrightarrow>
      \<exists>q'. clear n q = Some q' \<and> rep q' [] \<and> jobs q' = jobs q |` (- fst ` set xs)"
begin

text \<open>A whole sequence of insertions and removals serves the jobs in the order of insertion.\<close>

primrec add_all :: "(nat \<times> 'a) list \<Rightarrow> 'q \<Rightarrow> 'q option" where
  "add_all [] q = Some q"
| "add_all (x # xs) q =
     (case create (Some (fst x)) (Some (snd x)) q of
        Some (Some a, q1) \<Rightarrow> (case link a q1 of Some q2 \<Rightarrow> add_all xs q2 | None \<Rightarrow> None)
      | _ \<Rightarrow> None)"

primrec get_all :: "nat \<Rightarrow> 'q \<Rightarrow> (nat list \<times> 'q) option" where
  "get_all 0 q = Some ([], q)"
| "get_all (Suc n) q =
     (case get q of
        Some (Some a, q1) \<Rightarrow> map_option (\<lambda>(as, q2). (a # as, q2)) (get_all n q1)
      | _ \<Rightarrow> None)"

lemma add_all_rep:
  "rep q xs \<Longrightarrow> distinct (map fst ys) \<Longrightarrow> (\<forall>y \<in> set ys. jobs q (fst y) = None) \<Longrightarrow>
   \<exists>q'. add_all ys q = Some q' \<and> rep q' (xs @ ys)"
proof (induction ys arbitrary: q xs)
  case (Cons y ys)
  obtain a j where y: "y = (a, j)" by (cases y)
  with Cons.prems obtain q1 q2 where q: "create (Some a) (Some j) q = Some (Some a, q1)" "link a q1 = Some q2"
      "rep q2 (xs @ [(a, j)])" "jobs q2 = (jobs q)(a \<mapsto> j)"
    using rep_add[of q xs a j] by auto
  with Cons.prems y have "\<exists>q'. add_all ys q2 = Some q' \<and> rep q' ((xs @ [(a, j)]) @ ys)"
    by (intro Cons.IH) auto
  with q y show ?case by simp
qed simp

lemma get_all_rep: "rep q (xs @ ys) \<Longrightarrow> \<exists>q'. get_all (length xs) q = Some (map fst xs, q') \<and> rep q' ys"
proof (induction xs arbitrary: q)
  case (Cons x xs)
  obtain a j where x: "x = (a, j)" by (cases x)
  with Cons.prems obtain q1 where q1: "get q = Some (Some a, q1)" "rep q1 (xs @ ys)"
    using rep_get[of q a j "xs @ ys"] by auto
  from Cons.IH[OF q1(2)] q1(1) x show ?case by auto
qed simp

lemma fifo:
  assumes "distinct (map fst xs)"
  shows "\<exists>q q'. add_all xs empty = Some q \<and> get_all (length xs) q = Some (map fst xs, q') \<and> rep q' []"
proof -
  obtain q where q: "add_all xs empty = Some q" "rep q xs"
    using add_all_rep[OF rep_empty(1) assms] rep_empty(2) by auto
  with get_all_rep[of q xs "[]"] show ?thesis by auto
qed

end

section \<open>Lemmas: the linked list\<close>

lemma chain_other: "a \<notin> set as \<Longrightarrow> chain (h(a := w)) p as = chain h p as"
  by (induction h p as rule: chain.induct) (auto split: option.splits)

lemma chain_mem: "chain h p as \<Longrightarrow> set as \<subseteq> dom h"
  by (induction h p as rule: chain.induct) (auto split: option.splits)

lemma chain_snoc:
  "chain h p (as @ [l]) \<Longrightarrow> h l = Some w \<Longrightarrow> a \<notin> set (as @ [l]) \<Longrightarrow> distinct (as @ [l]) \<Longrightarrow>
   h a = Some \<lparr>w_job = j, w_next = None\<rparr> \<Longrightarrow>
   chain (h(l \<mapsto> w\<lparr>w_next := Some a\<rparr>)) p (as @ [l, a])"
  by (induction as arbitrary: p) (auto split: option.splits)

lemma queue_rep_add:
  assumes "queue_rep q xs" and "queue_jobs q a = None"
  shows "\<exists>q1 q2. tpool_work_create (Some a) (Some j) q = Some (Some a, q1) \<and> link_work a q1 = Some q2 \<and>
    queue_rep q2 (xs @ [(a, j)]) \<and> queue_jobs q2 = (queue_jobs q)(a \<mapsto> j)"
proof -
  let ?q1 = "q\<lparr>heap := (heap q)(a \<mapsto> \<lparr>w_job = j, w_next = None\<rparr>)\<rparr>"
  have fresh: "a \<notin> fst ` set xs" using assms chain_mem[of "heap q" "work_first q" "map fst xs"] by (auto simp: queue_rep_def queue_jobs_def)
  show ?thesis
  proof (cases xs rule: rev_cases)
    case Nil
    with assms show ?thesis by (auto simp: queue_rep_def tpool_work_create_def link_work_def queue_jobs_def)
  next
    case (snoc ys y)
    obtain l k where y: "y = (l, k)" by (cases y)
    obtain b where last: "work_last q = Some l" "work_first q = Some b"
      using assms(1) snoc y by (cases ys) (auto simp: queue_rep_def)
    obtain w where w: "heap q l = Some w" "w_job w = k"
      using assms(1) snoc y by (auto simp: queue_rep_def)
    have ne: "l \<noteq> a" using fresh snoc y by auto
    have "chain (heap ?q1) (work_first q) (map fst ys @ [l])"
      using assms(1) snoc y fresh by (simp add: queue_rep_def chain_other)
    then have "chain ((heap ?q1)(l \<mapsto> w\<lparr>w_next := Some a\<rparr>)) (work_first q) (map fst ys @ [l, a])"
      using assms(1) snoc y w fresh ne by (intro chain_snoc) (auto simp: queue_rep_def)
    moreover have "link_work a ?q1 = Some (?q1\<lparr>heap := (heap ?q1)(l \<mapsto> w\<lparr>w_next := Some a\<rparr>), work_last := Some a\<rparr>)"
      using last w ne by (simp add: link_work_def)
    ultimately show ?thesis
      using assms(1) snoc y w fresh ne
      by (auto simp: queue_rep_def tpool_work_create_def queue_jobs_def fun_eq_iff)
  qed
qed

lemma queue_rep_get:
  assumes "queue_rep q ((a, j) # xs)"
  shows "\<exists>q'. tpool_work_get q = Some (Some a, q') \<and> queue_rep q' xs \<and> queue_jobs q' = queue_jobs q"
proof -
  obtain w where w: "work_first q = Some a" "heap q a = Some w" "chain (heap q) (w_next w) (map fst xs)"
    using assms by (auto simp: queue_rep_def split: option.splits)
  show ?thesis
  proof (cases xs)
    case Nil
    with w assms show ?thesis by (auto simp: tpool_work_get_def queue_rep_def queue_jobs_def)
  next
    case (Cons x ys)
    with w assms show ?thesis by (auto simp: tpool_work_get_def queue_rep_def queue_jobs_def)
  qed
qed

lemma heap_destroy:
  "heap (tpool_work_destroy (Some a) q) = (heap q)(a := None)"
  "work_first (tpool_work_destroy (Some a) q) = work_first q" "work_last (tpool_work_destroy (Some a) q) = work_last q"
  by (simp_all add: tpool_work_destroy_def)

lemma queue_jobs_destroy: "queue_jobs (tpool_work_destroy (Some a) q) = (queue_jobs q)(a := None)"
  by (simp add: queue_jobs_def heap_destroy fun_eq_iff)

lemma queue_jobs_first [simp]: "queue_jobs (q\<lparr>work_first := p\<rparr>) = queue_jobs q"
  by (simp add: queue_jobs_def fun_eq_iff)

lemma queue_rep_free:
  assumes "queue_rep q xs" and "a \<notin> fst ` set xs"
  shows "queue_rep (tpool_work_destroy (Some a) q) xs \<and> queue_jobs (tpool_work_destroy (Some a) q) = (queue_jobs q)(a := None)"
proof -
  have "chain ((heap q)(a := None)) (work_first q) (map fst xs)"
    using assms by (subst chain_other) (auto simp: queue_rep_def)
  moreover have "\<forall>x \<in> set xs. fst x \<noteq> a" using assms(2) by auto
  ultimately show ?thesis using assms(1) by (simp add: queue_rep_def heap_destroy queue_jobs_def fun_eq_iff)
qed

lemma destroy_loop_chain:
  "chain (heap q) p as \<Longrightarrow> distinct as \<Longrightarrow> length as \<le> n \<Longrightarrow>
   \<exists>q'. destroy_loop n p q = Some q' \<and> queue_jobs q' = queue_jobs q |` (- set as)"
proof (induction n arbitrary: q p as)
  case (Suc n)
  show ?case
  proof (cases as)
    case (Cons a bs)
    with Suc.prems obtain w where w: "p = Some a" "heap q a = Some w" "chain (heap q) (w_next w) bs"
      by (auto split: option.splits)
    have "\<exists>q'. destroy_loop n (w_next w) (tpool_work_destroy (Some a) q) = Some q' \<and>
        queue_jobs q' = queue_jobs (tpool_work_destroy (Some a) q) |` (- set bs)"
      using Suc.prems Cons w chain_other[of a bs "heap q" None "w_next w"]
      by (intro Suc.IH) (simp_all add: heap_destroy del: fun_upd_apply)
    with Cons w show ?thesis by (auto simp: queue_jobs_destroy restrict_map_def fun_eq_iff)
  qed (use Suc.prems in auto)
qed auto

lemma queue_rep_clear:
  "queue_rep q xs \<Longrightarrow> length xs \<le> n \<Longrightarrow>
   \<exists>q'. clear_queue n q = Some q' \<and> queue_rep q' [] \<and> queue_jobs q' = queue_jobs q |` (- fst ` set xs)"
  using destroy_loop_chain[of q "work_first q" "map fst xs" n]
  by (auto simp: queue_rep_def clear_queue_def)

lemma destroy_loop_enough:
  "chain (heap q) p as \<Longrightarrow> distinct as \<Longrightarrow> destroy_loop n p q = Some q' \<Longrightarrow> length as \<le> n"
proof (induction n arbitrary: q p as)
  case 0
  then show ?case by (cases as) auto
next
  case (Suc n)
  show ?case
  proof (cases as)
    case (Cons a bs)
    with Suc.prems obtain w where w: "p = Some a" "heap q a = Some w" "chain (heap q) (w_next w) bs"
      by (auto split: option.splits)
    have "length bs \<le> n"
    proof (rule Suc.IH)
      show "chain (heap (tpool_work_destroy (Some a) q)) (w_next w) bs"
        using Suc.prems(2) Cons w chain_other[of a bs "heap q" None "w_next w"]
        by (simp add: heap_destroy del: fun_upd_apply)
    qed (use Suc.prems Cons w in auto)
    with Cons show ?thesis by simp
  qed simp
qed

lemma queue_rep_clear_enough: "queue_rep q xs \<Longrightarrow> clear_queue n q = Some q' \<Longrightarrow> length xs \<le> n"
  using destroy_loop_enough[of q "work_first q" "map fst xs" n]
  by (auto simp: queue_rep_def clear_queue_def)

lemma walk_jobs_chain:
  "chain h p (map fst xs) \<Longrightarrow> \<forall>x \<in> set xs. map_option w_job (h (fst x)) = Some (snd x) \<Longrightarrow> length xs \<le> n \<Longrightarrow>
   walk_jobs n h p = map snd xs"
proof (induction n arbitrary: p xs)
  case (Suc n)
  show ?case
  proof (cases xs)
    case (Cons x ys)
    with Suc.prems show ?thesis by (auto simp: Suc.IH[of _ ys] split: option.splits)
  qed (use Suc.prems in simp)
qed simp

lemma walk_jobs_rep: "queue_rep q xs \<Longrightarrow> length xs \<le> n \<Longrightarrow> walk_jobs n (heap q) (work_first q) = map snd xs"
  by (rule walk_jobs_chain) (simp_all add: queue_rep_def)

lemma queue_rep_first: "queue_rep q xs \<Longrightarrow> work_first q = None \<longleftrightarrow> xs = []"
  by (cases xs) (auto simp: queue_rep_def split: option.splits)

lemma queue_rep_get_Nil: "queue_rep q [] \<Longrightarrow> tpool_work_get q = Some (None, q)"
  by (simp add: queue_rep_def tpool_work_get_def)

interpretation work: fifo_queue queue_rep queue_jobs empty_queue tpool_work_create link_work
  tpool_work_get tpool_work_destroy clear_queue
  by (unfold_locales; (rule queue_rep_add queue_rep_get queue_rep_get_Nil queue_rep_free queue_rep_clear;
      assumption)?) (auto simp: queue_rep_def queue_jobs_def empty_queue_def fun_eq_iff)

end
