(* ===== verification/Threadpool.thy ===== *)
theory Threadpool
  imports Work_Queue
begin

text \<open>
  \<^verbatim>\<open>server/src/threadpool/threadpool.c\<close> as a state machine. All shared data are accessed between
  \<^verbatim>\<open>pthread_mutex_lock\<close> and the unlock or \<^verbatim>\<open>pthread_cond_wait\<close> that releases the mutex, so one step is
  one such critical section. A worker is about to lock (\<open>Ready\<close>), asleep on \<^verbatim>\<open>work_cond\<close>
  (\<open>Waiting\<close>), running the job of a node outside the mutex, or gone. The thread that owns the pool is
  outside the pool's functions (\<open>Idle\<close>), about to test the condition of \<^verbatim>\<open>tpool_wait\<close>
  (\<open>Checking\<close>), asleep on \<^verbatim>\<open>working_cond\<close> (\<open>Blocked\<close>), or has freed the pool; the flag says whether
  it is inside \<^verbatim>\<open>tpool_destroy\<close>. Both condition variables may wake up spuriously. The last four fields
  of the state are its history: jobs submitted, started, completed and thrown away.
\<close>

section \<open>State\<close>

datatype worker = Ready | Waiting | Running nat | Exited

datatype caller = Idle | Checking bool | Blocked bool | Destroyed

record 'a tpool =
  queue :: "'a work_queue"
  working_cnt :: nat
  thread_cnt :: nat
  stop :: bool

record 'a pool =
  tm :: "'a tpool"
  workers :: "worker list"
  caller :: caller
  submitted :: "'a list"
  started :: "'a list"
  completed :: "'a list"
  discarded :: "'a list"

section \<open>Operations\<close>

definition broadcast_work :: "worker list \<Rightarrow> worker list" where
  "broadcast_work ws = map (\<lambda>w. if w = Waiting then Ready else w) ws"

definition signal_working :: "caller \<Rightarrow> caller" where
  "signal_working c = (case c of Blocked d \<Rightarrow> Checking d | _ \<Rightarrow> c)"

text \<open>\<^verbatim>\<open>tpool_add_work\<close>; the result \<open>None\<close> is a crash.\<close>

definition tpool_add_work :: "nat option \<Rightarrow> 'a option \<Rightarrow> 'a pool \<Rightarrow> (bool \<times> 'a pool) option" where
  "tpool_add_work malloc job s =
     (case tpool_work_create malloc job (queue (tm s)) of
        None \<Rightarrow> None
      | Some (None, q) \<Rightarrow> Some (False, s)
      | Some (Some a, q) \<Rightarrow>
          (case link_work a q of
             None \<Rightarrow> None
           | Some q' \<Rightarrow>
               Some (True, s\<lparr>tm := (tm s)\<lparr>queue := q'\<rparr>, workers := broadcast_work (workers s),
                             submitted := submitted s @ [the job]\<rparr>)))"

text \<open>The condition under which \<^verbatim>\<open>tpool_wait\<close> sleeps, and one pass of its loop. Leaving the loop inside
  \<^verbatim>\<open>tpool_destroy\<close> goes on to free the pool.\<close>

definition wait_cond :: "'a tpool \<Rightarrow> bool" where
  "wait_cond t \<longleftrightarrow>
     work_first (queue t) \<noteq> None \<or> (\<not> stop t \<and> working_cnt t \<noteq> 0) \<or> (stop t \<and> thread_cnt t \<noteq> 0)"

definition tpool_wait_check :: "bool \<Rightarrow> 'a pool \<Rightarrow> 'a pool" where
  "tpool_wait_check destroying s =
     s\<lparr>caller := (if wait_cond (tm s) then Blocked destroying else if destroying then Destroyed else Idle)\<rparr>"

text \<open>\<^verbatim>\<open>tpool_destroy\<close> up to its call of \<^verbatim>\<open>tpool_wait\<close>. The queued nodes are freed, their jobs never run.\<close>

definition tpool_destroy :: "nat \<Rightarrow> 'a pool \<Rightarrow> 'a pool option" where
  "tpool_destroy fuel s =
     (case clear_queue fuel (queue (tm s)) of
        None \<Rightarrow> None
      | Some q \<Rightarrow>
          Some (s\<lparr>tm := (tm s)\<lparr>queue := q, stop := True\<rparr>, workers := broadcast_work (workers s),
                  caller := Checking True,
                  discarded := walk_jobs fuel (heap (queue (tm s))) (work_first (queue (tm s)))\<rparr>))"

definition fresh_pool :: "nat \<Rightarrow> 'a pool" where
  "fresh_pool n =
     \<lparr>tm = \<lparr>queue = empty_queue, working_cnt = 0, thread_cnt = n, stop = False\<rparr>,
      workers = replicate n Ready, caller = Idle,
      submitted = [], started = [], completed = [], discarded = []\<rparr>"

text \<open>\<open>ok\<close>: memory, mutex and condition variables were available. \<open>created\<close>: how many calls of
  \<^verbatim>\<open>pthread_create\<close> succeed. With a thread missing the pool is destroyed at once.\<close>

definition tpool_create :: "bool \<Rightarrow> nat \<Rightarrow> nat \<Rightarrow> 'a pool option" where
  "tpool_create ok created num =
     (let num = (if num = 0 then 2 else num) in
      if \<not> ok then None
      else if num \<le> created then Some (fresh_pool num)
      else tpool_destroy 0 (fresh_pool created))"

text \<open>A worker from \<^verbatim>\<open>pthread_mutex_lock\<close> (or its return from \<^verbatim>\<open>pthread_cond_wait\<close>) on.\<close>

definition worker_enter :: "nat \<Rightarrow> 'a pool \<Rightarrow> 'a pool option" where
  "worker_enter i s =
     (let t = tm s in
      if work_first (queue t) = None \<and> \<not> stop t
      then Some (s\<lparr>workers := (workers s)[i := Waiting]\<rparr>)
      else if stop t
      then Some (s\<lparr>tm := t\<lparr>thread_cnt := thread_cnt t - 1\<rparr>, workers := (workers s)[i := Exited],
                   caller := signal_working (caller s)\<rparr>)
      else case tpool_work_get (queue t) of
             Some (Some a, q) \<Rightarrow>
               Some (s\<lparr>tm := t\<lparr>queue := q, working_cnt := working_cnt t + 1\<rparr>,
                       workers := (workers s)[i := Running a],
                       started := started s @ [the (queue_jobs q a)]\<rparr>)
           | _ \<Rightarrow> None)"

text \<open>The job is done: free its node, lock and leave the set of working threads.\<close>

definition worker_finish :: "nat \<Rightarrow> nat \<Rightarrow> 'a pool \<Rightarrow> 'a pool" where
  "worker_finish i a s =
     (let q = tpool_work_destroy (Some a) (queue (tm s));
          t = (tm s)\<lparr>queue := q, working_cnt := working_cnt (tm s) - 1\<rparr>
      in s\<lparr>tm := t, workers := (workers s)[i := Ready],
           caller := (if \<not> stop t \<and> working_cnt t = 0 \<and> work_first q = None
                      then signal_working (caller s) else caller s),
           completed := completed s @ [the (queue_jobs (queue (tm s)) a)]\<rparr>)"

section \<open>The state machine\<close>

datatype 'a event =
    Add nat 'a | Destroy nat | Wait | Check | Enter nat | Finish nat | WakeWorker nat | WakeCaller

text \<open>\<^verbatim>\<open>malloc\<close> returns an address that is not in use.\<close>

inductive pool_step :: "'a pool \<Rightarrow> 'a event \<Rightarrow> 'a pool \<Rightarrow> bool" where
  Add: "caller s = Idle \<Longrightarrow> queue_jobs (queue (tm s)) a = None \<Longrightarrow>
    tpool_add_work (Some a) (Some j) s = Some (r, s') \<Longrightarrow> pool_step s (Add a j) s'"
| Destroy: "caller s = Idle \<Longrightarrow> tpool_destroy n s = Some s' \<Longrightarrow> pool_step s (Destroy n) s'"
| Wait: "caller s = Idle \<Longrightarrow> pool_step s Wait (s\<lparr>caller := Checking False\<rparr>)"
| Check: "caller s = Checking d \<Longrightarrow> pool_step s Check (tpool_wait_check d s)"
| Enter: "i < length (workers s) \<Longrightarrow> workers s ! i = Ready \<Longrightarrow> worker_enter i s = Some s' \<Longrightarrow>
    pool_step s (Enter i) s'"
| Finish: "i < length (workers s) \<Longrightarrow> workers s ! i = Running a \<Longrightarrow> pool_step s (Finish i) (worker_finish i a s)"
| WakeWorker: "i < length (workers s) \<Longrightarrow> workers s ! i = Waiting \<Longrightarrow>
    pool_step s (WakeWorker i) (s\<lparr>workers := (workers s)[i := Ready]\<rparr>)"
| WakeCaller: "caller s = Blocked d \<Longrightarrow> pool_step s WakeCaller (s\<lparr>caller := Checking d\<rparr>)"

inductive_simps pool_step_simps:
  "pool_step s (Enter i) s'" "pool_step s (Finish i) s'" "pool_step s Check s'"

inductive reachable :: "nat \<Rightarrow> 'a pool \<Rightarrow> bool" for n where
  created: "tpool_create True c n = Some s \<Longrightarrow> reachable n s"
| stepped: "reachable n s \<Longrightarrow> pool_step s e s' \<Longrightarrow> reachable n s'"

section \<open>The invariant\<close>

definition running_of :: "worker list \<Rightarrow> nat list" where
  "running_of ws = List.map_filter (\<lambda>w. case w of Running a \<Rightarrow> Some a | _ \<Rightarrow> None) ws"

definition alive_of :: "worker list \<Rightarrow> nat" where
  "alive_of ws = length (filter (\<lambda>w. w \<noteq> Exited) ws)"

abbreviation running :: "'a pool \<Rightarrow> nat list" where
  "running s \<equiv> running_of (workers s)"

definition jobs_at :: "'a work_queue \<Rightarrow> nat list \<Rightarrow> 'a list" where
  "jobs_at q as = map (\<lambda>a. the (queue_jobs q a)) as"

text \<open>The nodes: those queued and those running are different and hold the jobs of the history.\<close>

definition nodes_inv :: "'a pool \<Rightarrow> (nat \<times> 'a) list \<Rightarrow> bool" where
  "nodes_inv s xs \<longleftrightarrow>
     queue_rep (queue (tm s)) xs \<and> distinct (running s) \<and> set (running s) \<inter> fst ` set xs = {} \<and>
     (\<forall>a \<in> set (running s). queue_jobs (queue (tm s)) a \<noteq> None) \<and>
     submitted s = started s @ map snd xs @ discarded s \<and>
     mset (started s) = mset (completed s) + mset (jobs_at (queue (tm s)) (running s))"

text \<open>The counters count, and nobody sleeps through what it waits for.\<close>

definition sync_inv :: "'a pool \<Rightarrow> bool" where
  "sync_inv s \<longleftrightarrow>
     working_cnt (tm s) = length (running s) \<and> thread_cnt (tm s) = alive_of (workers s) \<and>
     (stop (tm s) \<longleftrightarrow> caller s \<in> {Checking True, Blocked True, Destroyed}) \<and>
     (Waiting \<in> set (workers s) \<longrightarrow> work_first (queue (tm s)) = None \<and> \<not> stop (tm s)) \<and>
     (Exited \<in> set (workers s) \<longrightarrow> stop (tm s)) \<and>
     (\<forall>d. caller s = Blocked d \<longrightarrow> wait_cond (tm s)) \<and>
     (caller s = Destroyed \<longrightarrow> thread_cnt (tm s) = 0) \<and>
     (stop (tm s) \<longrightarrow> work_first (queue (tm s)) = None) \<and>
     (discarded s \<noteq> [] \<longrightarrow> stop (tm s))"

definition pool_inv :: "'a pool \<Rightarrow> bool" where
  "pool_inv s \<longleftrightarrow> sync_inv s \<and> (\<exists>xs. nodes_inv s xs)"

section \<open>Lemmas: worker lists\<close>

lemma running_of_simps [simp]:
  "running_of [] = []" "running_of (Ready # ws) = running_of ws" "running_of (Waiting # ws) = running_of ws"
  "running_of (Exited # ws) = running_of ws" "running_of (Running a # ws) = a # running_of ws"
  "running_of (ws @ vs) = running_of ws @ running_of vs"
  by (simp_all add: running_of_def map_filter_def)

lemma alive_of_simps [simp]:
  "alive_of [] = 0" "alive_of (Ready # ws) = Suc (alive_of ws)" "alive_of (Waiting # ws) = Suc (alive_of ws)"
  "alive_of (Running a # ws) = Suc (alive_of ws)" "alive_of (Exited # ws) = alive_of ws"
  "alive_of (ws @ vs) = alive_of ws + alive_of vs"
  by (simp_all add: alive_of_def)

lemma broadcast_work_simps [simp]:
  "running_of (broadcast_work ws) = running_of ws" "alive_of (broadcast_work ws) = alive_of ws"
  "Waiting \<notin> set (broadcast_work ws)" "Exited \<in> set (broadcast_work ws) \<longleftrightarrow> Exited \<in> set ws"
proof -
  show "running_of (broadcast_work ws) = running_of ws"
    by (induction ws) (auto simp: broadcast_work_def running_of_def map_filter_simps split: worker.splits)
  show "alive_of (broadcast_work ws) = alive_of ws"
    by (induction ws) (auto simp: broadcast_work_def alive_of_def)
qed (auto simp: broadcast_work_def image_iff)

lemma workers_at:
  assumes "i < length ws" and "ws ! i = w"
  obtains l r where "ws = l @ w # r" and "\<And>v. ws[i := v] = l @ v # r"
  using assms that[of "take i ws" "drop (Suc i) ws"]
  by (metis id_take_nth_drop upd_conv_take_nth_drop)

lemma signal_working_cases:
  "signal_working c = Blocked d \<longleftrightarrow> False" "signal_working c = Idle \<longleftrightarrow> c = Idle" "signal_working c = Destroyed \<longleftrightarrow> c = Destroyed"
  "signal_working c = Checking d \<longleftrightarrow> c = Checking d \<or> c = Blocked d"
  by (cases c; simp add: signal_working_def)+

lemma jobs_at_simps [simp]:
  "jobs_at q [] = []" "jobs_at q (a # as) = the (queue_jobs q a) # jobs_at q as" "jobs_at q (as @ bs) = jobs_at q as @ jobs_at q bs"
  by (simp_all add: jobs_at_def)

lemma jobs_at_cong: "(\<And>a. a \<in> set as \<Longrightarrow> queue_jobs q' a = queue_jobs q a) \<Longrightarrow> jobs_at q' as = jobs_at q as"
  by (simp add: jobs_at_def)

section \<open>Lemmas: every step keeps the invariant\<close>

lemma nodes_invE:
  assumes "nodes_inv s xs"
  shows "queue_rep (queue (tm s)) xs" "distinct (running s)" "set (running s) \<inter> fst ` set xs = {}"
    "\<And>a. a \<in> set (running s) \<Longrightarrow> queue_jobs (queue (tm s)) a \<noteq> None"
    "submitted s = started s @ map snd xs @ discarded s"
    "mset (started s) = mset (completed s) + mset (jobs_at (queue (tm s)) (running s))"
  using assms by (auto simp: nodes_inv_def)

lemma inv_fresh: "pool_inv (fresh_pool n)"
proof -
  have "running_of (replicate n Ready) = []" "alive_of (replicate n Ready) = n" by (induction n) auto
  then have "sync_inv (fresh_pool n)" "nodes_inv (fresh_pool n) []"
    by (auto simp: sync_inv_def nodes_inv_def fresh_pool_def empty_queue_def queue_rep_def)
  then show ?thesis by (auto simp: pool_inv_def)
qed

lemma add_work_ok:
  assumes "nodes_inv s xs" and "queue_jobs (queue (tm s)) a = None"
  obtains q where "queue_rep q (xs @ [(a, j)])" "queue_jobs q = (queue_jobs (queue (tm s)))(a \<mapsto> j)"
    "tpool_add_work (Some a) (Some j) s = Some (True, s\<lparr>tm := (tm s)\<lparr>queue := q\<rparr>,
       workers := broadcast_work (workers s), submitted := submitted s @ [j]\<rparr>)"
  using work.rep_add[OF nodes_invE(1)[OF assms(1)] assms(2), of j] that
  by (auto simp: tpool_add_work_def)

lemma inv_add:
  assumes "pool_inv s" and "caller s = Idle" and "queue_jobs (queue (tm s)) a = None"
    and "tpool_add_work (Some a) (Some j) s = Some (r, s')"
  shows "pool_inv s'"
proof -
  obtain xs where xs: "nodes_inv s xs" using assms(1) by (auto simp: pool_inv_def)
  note n = nodes_invE[OF xs]
  obtain q where q: "queue_rep q (xs @ [(a, j)])" "queue_jobs q = (queue_jobs (queue (tm s)))(a \<mapsto> j)"
    and s': "s' = s\<lparr>tm := (tm s)\<lparr>queue := q\<rparr>, workers := broadcast_work (workers s), submitted := submitted s @ [j]\<rparr>"
    using add_work_ok[OF xs assms(3), of j] assms(4) by (metis option.inject prod.inject)
  have a: "a \<notin> set (running s)" using n(4) assms(3) by blast
  have sync: "sync_inv s" using assms(1) by (simp add: pool_inv_def)
  then have "\<not> stop (tm s)" "discarded s = []" using assms(2) by (auto simp: sync_inv_def)
  have "jobs_at q (running s) = jobs_at (queue (tm s)) (running s)"
    using a q(2) by (intro jobs_at_cong) auto
  then have "nodes_inv s' (xs @ [(a, j)])"
    using n a q \<open>discarded s = []\<close> unfolding nodes_inv_def s' by auto
  moreover have "sync_inv s'"
    using sync assms(2) \<open>\<not> stop (tm s)\<close> by (auto simp: sync_inv_def s')
  ultimately show ?thesis by (auto simp: pool_inv_def)
qed

lemma destroy_ok:
  assumes "nodes_inv s xs" and "length xs \<le> n"
  obtains q where "queue_rep q []" "queue_jobs q = queue_jobs (queue (tm s)) |` (- fst ` set xs)"
    "tpool_destroy n s = Some (s\<lparr>tm := (tm s)\<lparr>queue := q, stop := True\<rparr>, workers := broadcast_work (workers s),
       caller := Checking True, discarded := map snd xs\<rparr>)"
  using work.rep_clear[OF nodes_invE(1)[OF assms(1)] assms(2)] walk_jobs_rep[OF nodes_invE(1)[OF assms(1)] assms(2)] that
  by (auto simp: tpool_destroy_def)

lemma inv_destroy:
  assumes "pool_inv s" and "caller s = Idle" and "tpool_destroy n s = Some s'"
  shows "pool_inv s'"
proof -
  obtain xs where xs: "nodes_inv s xs" using assms(1) by (auto simp: pool_inv_def)
  note nd = nodes_invE[OF xs]
  have "length xs \<le> n"
    using assms(3) queue_rep_clear_enough[OF nd(1)] by (auto simp: tpool_destroy_def split: option.splits)
  then obtain q where q: "queue_rep q []" "queue_jobs q = queue_jobs (queue (tm s)) |` (- fst ` set xs)"
    and s': "s' = s\<lparr>tm := (tm s)\<lparr>queue := q, stop := True\<rparr>, workers := broadcast_work (workers s),
       caller := Checking True, discarded := map snd xs\<rparr>"
    using destroy_ok[OF xs] assms(3) by (metis option.inject)
  have sync: "sync_inv s" using assms(1) by (simp add: pool_inv_def)
  then have "discarded s = []" using assms(2) by (auto simp: sync_inv_def)
  have keep: "queue_jobs q b = queue_jobs (queue (tm s)) b" if "b \<in> set (running s)" for b
    using that nd(3) q(2) by (auto simp: restrict_map_def)
  then have "jobs_at q (running s) = jobs_at (queue (tm s)) (running s)"
    by (intro jobs_at_cong) auto
  then have "nodes_inv s' []"
    using nd keep q(1) \<open>discarded s = []\<close> unfolding nodes_inv_def s' by auto
  moreover have "sync_inv s'"
    using sync queue_rep_first[OF q(1)] by (auto simp: sync_inv_def s')
  ultimately show ?thesis by (auto simp: pool_inv_def)
qed

lemma inv_check:
  assumes "pool_inv s" and "caller s = Checking d"
  shows "pool_inv (tpool_wait_check d s)"
proof -
  have "sync_inv (tpool_wait_check d s)"
    using assms by (auto simp: pool_inv_def sync_inv_def tpool_wait_check_def wait_cond_def)
  moreover have "nodes_inv (tpool_wait_check d s) xs = nodes_inv s xs" for xs
    by (simp add: nodes_inv_def tpool_wait_check_def)
  ultimately show ?thesis using assms(1) by (simp add: pool_inv_def)
qed

text \<open>Only the list of workers and the caller change: the nodes stay as they are.\<close>

lemma nodes_inv_same:
  assumes "nodes_inv s xs" and "running s' = running s" and "queue (tm s') = queue (tm s)"
    and "submitted s' = submitted s" and "started s' = started s" and "completed s' = completed s"
    and "discarded s' = discarded s"
  shows "nodes_inv s' xs"
  using assms by (simp add: nodes_inv_def)

lemma inv_wake_worker:
  assumes "pool_inv s" and "i < length (workers s)" and "workers s ! i = Waiting"
  shows "pool_inv (s\<lparr>workers := (workers s)[i := Ready]\<rparr>)"
proof -
  obtain l r where w: "workers s = l @ Waiting # r" "\<And>v. (workers s)[i := v] = l @ v # r"
    using workers_at[OF assms(2,3)] by metis
  then have "sync_inv (s\<lparr>workers := (workers s)[i := Ready]\<rparr>)"
    using assms(1) by (auto simp: pool_inv_def sync_inv_def)
  moreover have "nodes_inv s xs \<Longrightarrow> nodes_inv (s\<lparr>workers := (workers s)[i := Ready]\<rparr>) xs" for xs
    using w by (elim nodes_inv_same) simp_all
  ultimately show ?thesis using assms(1) by (auto simp: pool_inv_def)
qed

lemma inv_caller:
  assumes "pool_inv s" and "caller s = Idle \<and> c = Checking False \<or> caller s = Blocked d \<and> c = Checking d"
  shows "pool_inv (s\<lparr>caller := c\<rparr>)"
proof -
  have "sync_inv (s\<lparr>caller := c\<rparr>)" using assms by (auto simp: pool_inv_def sync_inv_def)
  moreover have "nodes_inv s xs \<Longrightarrow> nodes_inv (s\<lparr>caller := c\<rparr>) xs" for xs by (elim nodes_inv_same) simp_all
  ultimately show ?thesis using assms(1) by (auto simp: pool_inv_def)
qed

text \<open>The three ways through the entry of a worker.\<close>

lemma worker_enter_cases:
  assumes "nodes_inv s xs"
  obtains "work_first (queue (tm s)) = None" "\<not> stop (tm s)" "worker_enter i s = Some (s\<lparr>workers := (workers s)[i := Waiting]\<rparr>)"
  | "stop (tm s)" "worker_enter i s = Some (s\<lparr>tm := (tm s)\<lparr>thread_cnt := thread_cnt (tm s) - 1\<rparr>,
       workers := (workers s)[i := Exited], caller := signal_working (caller s)\<rparr>)"
  | a j ys q where "\<not> stop (tm s)" "xs = (a, j) # ys" "queue_rep q ys" "queue_jobs q = queue_jobs (queue (tm s))"
      "queue_jobs q a = Some j"
      "worker_enter i s = Some (s\<lparr>tm := (tm s)\<lparr>queue := q, working_cnt := working_cnt (tm s) + 1\<rparr>,
         workers := (workers s)[i := Running a], started := started s @ [j]\<rparr>)"
proof (cases "stop (tm s)")
  case True
  then show thesis using that(2) by (simp add: worker_enter_def Let_def)
next
  case False
  note rep = nodes_invE(1)[OF assms]
  show thesis
  proof (cases xs)
    case Nil
    with False rep show thesis using that(1) by (simp add: worker_enter_def Let_def queue_rep_first)
  next
    case (Cons x ys)
    obtain a j where x: "x = (a, j)" by (cases x)
    with Cons rep obtain q where q: "tpool_work_get (queue (tm s)) = Some (Some a, q)" "queue_rep q ys"
        "queue_jobs q = queue_jobs (queue (tm s))"
      using work.rep_get[of "queue (tm s)" a j ys] by auto
    have "queue_jobs (queue (tm s)) a = Some j" using work.rep_jobs[OF rep] Cons x by simp
    with q Cons x False rep show thesis
      using that(3)[of a j ys q] by (simp add: worker_enter_def Let_def queue_rep_first)
  qed
qed

lemma inv_enter:
  assumes "pool_inv s" and "i < length (workers s)" and "workers s ! i = Ready" and "worker_enter i s = Some s'"
  shows "pool_inv s'"
proof -
  obtain xs where xs: "nodes_inv s xs" and sync: "sync_inv s" using assms(1) by (auto simp: pool_inv_def)
  obtain l r where w: "workers s = l @ Ready # r" "\<And>v. (workers s)[i := v] = l @ v # r"
    using workers_at[OF assms(2,3)] by metis
  note n = nodes_invE[OF xs]
  from xs show ?thesis
  proof (cases rule: worker_enter_cases[where i = i])
    case 1
    with assms(4) have s': "s' = s\<lparr>workers := l @ Waiting # r\<rparr>" using w by simp
    then have "sync_inv s'" using sync 1 w by (auto simp: sync_inv_def)
    moreover have "nodes_inv s' xs" using xs s' w by (elim nodes_inv_same) simp_all
    ultimately show ?thesis by (auto simp: pool_inv_def)
  next
    case 2
    with assms(4) have s': "s' = s\<lparr>tm := (tm s)\<lparr>thread_cnt := thread_cnt (tm s) - 1\<rparr>, workers := l @ Exited # r,
        caller := signal_working (caller s)\<rparr>" using w by simp
    then have "sync_inv s'" using sync 2 w by (auto simp: sync_inv_def signal_working_cases)
    moreover have "nodes_inv s' xs" using xs s' w by (elim nodes_inv_same) simp_all
    ultimately show ?thesis by (auto simp: pool_inv_def)
  next
    case (3 a j ys q)
    with assms(4) have s': "s' = s\<lparr>tm := (tm s)\<lparr>queue := q, working_cnt := working_cnt (tm s) + 1\<rparr>,
         workers := l @ Running a # r, started := started s @ [j]\<rparr>" using w by simp
    have "distinct (map fst xs)" using work.rep_distinct[OF n(1)] .
    moreover have "jobs_at q as = jobs_at (queue (tm s)) as" for as using 3 by (intro jobs_at_cong) simp
    ultimately have "nodes_inv s' ys"
      using n 3 w unfolding nodes_inv_def s' by (auto simp: 3)
    moreover have "work_first (queue (tm s)) \<noteq> None" using queue_rep_first[OF n(1)] 3(2) by simp
    then have "sync_inv s'" using sync 3 w by (auto simp: sync_inv_def s' wait_cond_def)
    ultimately show ?thesis by (auto simp: pool_inv_def)
  qed
qed

lemma inv_finish:
  assumes "pool_inv s" and "i < length (workers s)" and "workers s ! i = Running a"
  shows "pool_inv (worker_finish i a s)"
proof -
  obtain xs where xs: "nodes_inv s xs" and sync: "sync_inv s" using assms(1) by (auto simp: pool_inv_def)
  obtain l r where w: "workers s = l @ Running a # r" "\<And>v. (workers s)[i := v] = l @ v # r"
    using workers_at[OF assms(2,3)] by metis
  note n = nodes_invE[OF xs]
  let ?q = "tpool_work_destroy (Some a) (queue (tm s))"
  have a: "a \<notin> fst ` set xs" "a \<notin> set (running_of l)" "a \<notin> set (running_of r)" using n(2,3) w by auto
  have q: "queue_rep ?q xs" "queue_jobs ?q = (queue_jobs (queue (tm s)))(a := None)"
    using work.rep_free[OF n(1) a(1)] by auto
  have "jobs_at ?q (running_of l) = jobs_at (queue (tm s)) (running_of l)"
       "jobs_at ?q (running_of r) = jobs_at (queue (tm s)) (running_of r)"
    using a(2,3) q(2) by (intro jobs_at_cong; auto)+
  then have "nodes_inv (worker_finish i a s) xs"
    using n q w a unfolding nodes_inv_def worker_finish_def Let_def by auto
  moreover have "sync_inv (worker_finish i a s)"
    using sync w by (auto simp: sync_inv_def worker_finish_def Let_def signal_working_cases wait_cond_def heap_destroy)
  ultimately show ?thesis by (auto simp: pool_inv_def)
qed

lemma inv_step: "pool_step s e s' \<Longrightarrow> pool_inv s \<Longrightarrow> pool_inv s'"
  by (induction rule: pool_step.induct)
     (auto intro: inv_add inv_destroy inv_check inv_enter inv_finish inv_wake_worker inv_caller)

lemma inv_created: "tpool_create True c n = Some s \<Longrightarrow> pool_inv s"
proof -
  have "tpool_destroy 0 (fresh_pool c) = Some s \<Longrightarrow> pool_inv s"
    by (rule inv_destroy[OF inv_fresh]) (simp_all add: fresh_pool_def)
  then show "tpool_create True c n = Some s \<Longrightarrow> pool_inv s"
    by (auto simp: tpool_create_def Let_def inv_fresh split: if_splits)
qed

lemma inv_reachable: "reachable n s \<Longrightarrow> pool_inv s"
  by (induction rule: reachable.induct) (auto intro: inv_created inv_step)

section \<open>Progress\<close>

text \<open>The steps that the pool and a waiting caller take by themselves: no new call, no spurious wake-up.\<close>

fun own_event :: "'a event \<Rightarrow> bool" where
  "own_event (Enter i) = True"
| "own_event (Finish i) = True"
| "own_event Check = True"
| "own_event _ = False"

fun worker_weight :: "worker \<Rightarrow> nat" where
  "worker_weight Ready = 2"
| "worker_weight (Running a) = 4"
| "worker_weight Waiting = 0"
| "worker_weight Exited = 0"

definition caller_weight :: "caller \<Rightarrow> nat" where
  "caller_weight c = (case c of Checking d \<Rightarrow> 1 | _ \<Rightarrow> 0)"

definition pool_measure :: "'a pool \<Rightarrow> nat" where
  "pool_measure s =
     6 * (length (submitted s) - length (started s) - length (discarded s)) +
     sum_list (map worker_weight (workers s)) + caller_weight (caller s)"

lemma signal_weight: "caller_weight (signal_working c) \<le> caller_weight c + 1"
  by (cases c) (simp_all add: caller_weight_def signal_working_def)

lemma enter_measure:
  assumes "pool_inv s" and "i < length (workers s)" and "workers s ! i = Ready" and "worker_enter i s = Some s'"
  shows "pool_measure s' < pool_measure s"
proof -
  obtain xs where xs: "nodes_inv s xs" using assms(1) by (auto simp: pool_inv_def)
  obtain l r where w: "workers s = l @ Ready # r" "\<And>v. (workers s)[i := v] = l @ v # r"
    using workers_at[OF assms(2,3)] by metis
  note sub = nodes_invE(5)[OF xs]
  from xs show ?thesis
  proof (cases rule: worker_enter_cases[where i = i])
    case 1
    with assms(4) w show ?thesis by (auto simp: pool_measure_def)
  next
    case 2
    with assms(4) w signal_weight[of "caller s"] show ?thesis by (auto simp: pool_measure_def)
  next
    case (3 a j ys q)
    with assms(4) w sub show ?thesis by (auto simp: pool_measure_def)
  qed
qed

lemma finish_measure:
  assumes "i < length (workers s)" and "workers s ! i = Running a"
  shows "pool_measure (worker_finish i a s) < pool_measure s"
proof -
  obtain l r where w: "workers s = l @ Running a # r" "\<And>v. (workers s)[i := v] = l @ v # r"
    using workers_at[OF assms] by metis
  then show ?thesis
    using signal_weight[of "caller s"] by (simp add: pool_measure_def worker_finish_def Let_def)
qed

lemma check_measure: "caller s = Checking d \<Longrightarrow> pool_measure (tpool_wait_check d s) < pool_measure s"
  by (simp add: pool_measure_def tpool_wait_check_def caller_weight_def)

lemma own_step_measure:
  "pool_step s e s' \<Longrightarrow> pool_inv s \<Longrightarrow> own_event e \<Longrightarrow> pool_measure s' < pool_measure s"
  by (cases rule: pool_step.cases) (auto intro: enter_measure finish_measure check_measure)

text \<open>Without new calls and spurious wake-ups the pool comes to rest.\<close>

lemma own_steps_terminate: "wf {(s', s). pool_inv s \<and> (\<exists>e. own_event e \<and> pool_step s e s')}"
  by (rule wf_subset[OF wf_measure[of pool_measure]]) (auto intro: own_step_measure)

lemma workers_step: "pool_step s e s' \<Longrightarrow> length (workers s') = length (workers s) \<and> (stop (tm s) \<longrightarrow> stop (tm s'))"
  by (induction rule: pool_step.induct)
     (auto simp: tpool_add_work_def tpool_destroy_def tpool_wait_check_def worker_enter_def worker_finish_def
       broadcast_work_def Let_def split: option.splits prod.splits if_splits)

lemma workers_reachable: "reachable n s \<Longrightarrow> stop (tm s) \<or> workers s \<noteq> []"
proof (induction rule: reachable.induct)
  case (created c s)
  then show ?case
    by (auto simp: tpool_create_def tpool_destroy_def fresh_pool_def Let_def split: if_splits option.splits)
next
  case (stepped s e s')
  then show ?case using workers_step[OF stepped.hyps(2)] by auto
qed

text \<open>A worker that is ready or running can always take its step, without a crash.\<close>

lemma enter_enabled:
  assumes "pool_inv s"
  shows "worker_enter i s \<noteq> None"
proof -
  obtain xs where "nodes_inv s xs" using assms by (auto simp: pool_inv_def)
  then show ?thesis by (cases rule: worker_enter_cases[where i = i]) auto
qed

text \<open>At rest, nothing is left to do: nobody runs a job or holds one, and no call is stuck.\<close>

lemma at_rest:
  assumes inv: "pool_inv s" and ws: "stop (tm s) \<or> workers s \<noteq> []"
    and rest: "\<And>e s'. own_event e \<Longrightarrow> \<not> pool_step s e s'"
  shows "running s = []" and "work_first (queue (tm s)) = None" and "caller s = Idle \<or> caller s = Destroyed"
    and "stop (tm s) \<Longrightarrow> set (workers s) \<subseteq> {Exited}"
proof -
  have no: "w = Waiting \<or> w = Exited" if "w \<in> set (workers s)" for w
  proof -
    from that obtain i where i: "i < length (workers s)" "workers s ! i = w" by (auto simp: in_set_conv_nth)
    show ?thesis
    proof (cases w)
      case Ready
      with i enter_enabled[OF inv, of i] obtain s' where "pool_step s (Enter i) s'"
        by (auto intro: pool_step.Enter)
      with rest[of "Enter i"] show ?thesis by simp
    next
      case (Running a)
      with i have "pool_step s (Finish i) (worker_finish i a s)" by (auto intro: pool_step.Finish)
      with rest[of "Finish i"] show ?thesis by simp
    qed auto
  qed
  have run: "running_of ws = []" if "set ws \<subseteq> set (workers s)" for ws
    using that
  proof (induction ws)
    case (Cons w ws)
    from Cons.prems no[of w] have "w = Waiting \<or> w = Exited" by simp
    with Cons show ?case by auto
  qed simp
  then show r: "running s = []" by simp
  have sync: "sync_inv s" using inv by (simp add: pool_inv_def)
  show "work_first (queue (tm s)) = None"
  proof (cases "stop (tm s)")
    case False
    with ws no sync have "Waiting \<in> set (workers s)" by (cases "workers s") (auto simp: sync_inv_def)
    with sync show ?thesis by (simp add: sync_inv_def)
  qed (use sync in \<open>simp add: sync_inv_def\<close>)
  note first = this
  show ex: "stop (tm s) \<Longrightarrow> set (workers s) \<subseteq> {Exited}"
    using no sync by (auto simp: sync_inv_def)
  then have "stop (tm s) \<Longrightarrow> alive_of (workers s) = 0"
    by (auto simp: alive_of_def filter_empty_conv)
  then have "\<not> wait_cond (tm s)"
    using first r sync by (auto simp: wait_cond_def sync_inv_def)
  moreover have "caller s \<noteq> Checking d" for d
    using rest[of Check "tpool_wait_check d s"] by (auto intro: pool_step.Check)
  ultimately show "caller s = Idle \<or> caller s = Destroyed"
    using sync by (cases "caller s") (auto simp: sync_inv_def)
qed

text \<open>The account of the jobs.\<close>

lemma jobs_account:
  assumes "pool_inv s" and "running s = []" and "work_first (queue (tm s)) = None"
  shows "mset (submitted s) = mset (completed s) + mset (discarded s)"
proof -
  obtain xs where xs: "nodes_inv s xs" using assms(1) by (auto simp: pool_inv_def)
  note n = nodes_invE[OF xs]
  have "xs = []" using assms(3) queue_rep_first[OF n(1)] by simp
  with n(5,6) assms(2) show ?thesis by simp
qed

text \<open>Once the pool is freed, all workers have ended.\<close>

lemma inv_destroyed:
  assumes "pool_inv s" and "caller s = Destroyed"
  shows "set (workers s) \<subseteq> {Exited} \<and> running s = []"
proof -
  have "alive_of (workers s) = 0" using assms by (simp add: pool_inv_def sync_inv_def)
  then have "set (workers s) \<subseteq> {Exited}" by (auto simp: alive_of_def filter_empty_conv)
  moreover have "set ws \<subseteq> {Exited} \<Longrightarrow> running_of ws = []" for ws by (induction ws) auto
  ultimately show ?thesis by blast
qed

end
