(* ===== verification/Server.thy ===== *)
theory Server
  imports Cstring
begin

text \<open>
  \<^verbatim>\<open>server/src/server.c\<close>: the configuration from environment and command line, the listening sockets,
  and the main thread from start to shutdown. The environment, the argument vector and the results of
  the system calls are arguments; diagnostics on \<^verbatim>\<open>stderr\<close> are left out.
\<close>

section \<open>Configuration\<close>

definition PATH_MAX :: nat where "PATH_MAX = 4096"
definition TOKEN_SIZE :: nat where "TOKEN_SIZE = 128"

record config_t =
  cfg_admin_token :: string
  cfg_db_path :: string
  cfg_port :: int
  cfg_internal_port :: int
  cfg_num_workers :: int
  cfg_backlog :: int

definition valid_port :: "int \<Rightarrow> bool" where
  "valid_port v \<longleftrightarrow> 0 < v \<and> v \<le> 65535"

definition env_str :: "string option \<Rightarrow> string \<Rightarrow> nat \<Rightarrow> string" where
  "env_str value dflt sz = fill_buf sz (case value of Some s \<Rightarrow> s | None \<Rightarrow> dflt)"

definition env_int :: "string option \<Rightarrow> (int \<Rightarrow> bool) \<Rightarrow> int \<Rightarrow> int" where
  "env_int value ok dflt =
     (case value of
        None \<Rightarrow> dflt
      | Some s \<Rightarrow> (let v = atoi s in if ok v then v else dflt))"

text \<open>One pass of the loop over the arguments: a flag and the argument that follows it.\<close>

definition apply_arg :: "string \<Rightarrow> string \<Rightarrow> config_t \<Rightarrow> config_t" where
  "apply_arg flag value cfg =
     (if flag = ''--admin-token'' then cfg\<lparr>cfg_admin_token := fill_buf TOKEN_SIZE value\<rparr>
      else if flag = ''--db'' then cfg\<lparr>cfg_db_path := fill_buf PATH_MAX value\<rparr>
      else if flag = ''--port'' then
        (let v = atoi value in if valid_port v then cfg\<lparr>cfg_port := v\<rparr> else cfg)
      else if flag = ''--internal-port'' then
        (let v = atoi value in if valid_port v then cfg\<lparr>cfg_internal_port := v\<rparr> else cfg)
      else if flag = ''--num-workers'' then
        (let v = atoi value in if 0 < v then cfg\<lparr>cfg_num_workers := v\<rparr> else cfg)
      else if flag = ''--backlog'' then
        (let v = atoi value in if 0 < v then cfg\<lparr>cfg_backlog := v\<rparr> else cfg)
      else cfg)"

text \<open>\<^verbatim>\<open>for (i = 1; i < argc - 1; i++)\<close>: the index moves by one, so a value is looked at as a flag too.\<close>

fun arg_loop :: "string list \<Rightarrow> config_t \<Rightarrow> config_t" where
  "arg_loop (a # b # rest) cfg = arg_loop (b # rest) (apply_arg a b cfg)"
| "arg_loop _ cfg = cfg"

definition load_config :: "string list \<Rightarrow> (string \<Rightarrow> string option) \<Rightarrow> config_t" where
  "load_config argv getenv =
     arg_loop (tl argv)
       \<lparr>cfg_admin_token = env_str (getenv ''SSHNACK_ADMIN_TOKEN'') ''admin'' TOKEN_SIZE,
        cfg_db_path = env_str (getenv ''SSHNACK_DB_PATH'') ''data/sshnack.db'' PATH_MAX,
        cfg_port = env_int (getenv ''SSHNACK_PORT'') valid_port 8080,
        cfg_internal_port = env_int (getenv ''SSHNACK_INTERNAL_PORT'') valid_port 8081,
        cfg_num_workers = env_int (getenv ''SSHNACK_NUM_WORKERS'') (\<lambda>v. 0 < v) 4,
        cfg_backlog = env_int (getenv ''SSHNACK_BACKLOG'') (\<lambda>v. 0 < v) 10\<rparr>"

section \<open>Sockets\<close>

text \<open>The answers of the system calls that \<^verbatim>\<open>create_socket\<close> makes.\<close>

record sock_calls =
  sc_socket :: int
  sc_setsockopt :: int
  sc_inet_pton :: int
  sc_bind :: int
  sc_listen :: int

definition htons :: "int \<Rightarrow> int" where
  "htons port = port mod 65536"

text \<open>The returned value, the descriptors that stay open, and the port that was bound, if any.\<close>

definition create_socket :: "sock_calls \<Rightarrow> int \<Rightarrow> int \<times> int list \<times> int option" where
  "create_socket sc port =
     (let sock = sc_socket sc in
      if sock < 0 then (-1, [], None)
      else if sc_setsockopt sc < 0 then (-1, [sock], None)
      else if sc_inet_pton sc \<noteq> 1 then (-1, [sock], None)
      else if sc_bind sc < 0 then (-1, [sock], None)
      else if sc_listen sc < 0 then (-1, [sock], Some (htons port))
      else (sock, [sock], Some (htons port)))"

section \<open>The accept loop\<close>

text \<open>What one descriptor gives in one round of the loop: nothing, a failed \<^verbatim>\<open>accept\<close>, or a client
  socket with the outcomes of \<^verbatim>\<open>malloc\<close> and \<^verbatim>\<open>tpool_add_work\<close>.\<close>

datatype accept_result = NotReady | AcceptFailed | Accepted int bool bool

record poll_round =
  keep_running :: bool
  poll_ret :: int
  on_public :: accept_result
  on_internal :: accept_result

text \<open>A client socket is handed to the pool with its port flag, closed, or dropped while still open.\<close>

datatype main_event = Submit int bool | CloseClient int | LostClient int

definition accept_one :: "bool \<Rightarrow> accept_result \<Rightarrow> main_event list" where
  "accept_one internal r =
     (case r of
        NotReady \<Rightarrow> []
      | AcceptFailed \<Rightarrow> []
      | Accepted sock malloc_ok added \<Rightarrow>
          (if \<not> malloc_ok then [CloseClient sock]
           else if added then [Submit sock internal]
           else [LostClient sock]))"

fun accept_loop :: "poll_round list \<Rightarrow> main_event list" where
  "accept_loop [] = []"
| "accept_loop (r # rs) =
     (if \<not> keep_running r then []
      else if poll_ret r < 0 then []
      else accept_one False (on_public r) @ accept_one True (on_internal r) @ accept_loop rs)"

section \<open>\<open>main\<close>\<close>

datatype shutdown_event = ClosePublic | CloseInternal | TpoolDestroy | DestroyApi | DbClose

text \<open>The exit status, what happened to the clients, and the shutdown. \<open>db_ok\<close>, \<open>pool_ok\<close>: the
  database was opened, the thread pool was created.\<close>

definition server_main ::
    "string list \<Rightarrow> (string \<Rightarrow> string option) \<Rightarrow> bool \<Rightarrow> bool \<Rightarrow> sock_calls \<Rightarrow> sock_calls \<Rightarrow> poll_round list \<Rightarrow>
     int \<times> main_event list \<times> shutdown_event list" where
  "server_main argv getenv db_ok pool_ok pub intern rounds =
     (let config = load_config argv getenv in
      if \<not> db_ok then (-1, [], [])
      else if \<not> pool_ok then (-1, [], [])
      else let public_sock = fst (create_socket pub (cfg_port config));
               internal_sock = fst (create_socket intern (cfg_internal_port config))
           in if public_sock < 0 \<or> internal_sock < 0 then (-1, [], [])
              else (0, accept_loop rounds, [ClosePublic, CloseInternal, TpoolDestroy, DestroyApi, DbClose]))"

section \<open>Specifications\<close>

definition config_ok :: "config_t \<Rightarrow> bool" where
  "config_ok cfg \<longleftrightarrow>
     length (cfg_admin_token cfg) < TOKEN_SIZE \<and> length (cfg_db_path cfg) < PATH_MAX \<and>
     valid_port (cfg_port cfg) \<and> valid_port (cfg_internal_port cfg) \<and>
     0 < cfg_num_workers cfg \<and> cfg_num_workers cfg \<le> INT_MAX \<and> 0 < cfg_backlog cfg \<and> cfg_backlog cfg \<le> INT_MAX"

text \<open>The client sockets that a script of rounds accepts before it ends the loop.\<close>

fun accepted :: "poll_round list \<Rightarrow> (int \<times> bool) list" where
  "accepted [] = []"
| "accepted (r # rs) =
     (if \<not> keep_running r \<or> poll_ret r < 0 then []
      else (case on_public r of Accepted s _ _ \<Rightarrow> [(s, False)] | _ \<Rightarrow> []) @
           (case on_internal r of Accepted s _ _ \<Rightarrow> [(s, True)] | _ \<Rightarrow> []) @ accepted rs)"

definition sock_of :: "main_event \<Rightarrow> int" where
  "sock_of e = (case e of Submit s i \<Rightarrow> s | CloseClient s \<Rightarrow> s | LostClient s \<Rightarrow> s)"

section \<open>Lemmas\<close>

lemma fill_buf_bounds: "length (fill_buf TOKEN_SIZE s) < TOKEN_SIZE" "length (fill_buf PATH_MAX s) < PATH_MAX"
  by (simp_all add: length_fill_buf TOKEN_SIZE_def PATH_MAX_def)

lemma atoi_max: "atoi s \<le> INT_MAX"
  using atoi_range[of s] by (simp add: is_int32_def)

lemma apply_arg_ok: "config_ok cfg \<Longrightarrow> config_ok (apply_arg a b cfg)"
  by (simp add: apply_arg_def config_ok_def Let_def fill_buf_bounds atoi_max)

lemma arg_loop_ok: "config_ok cfg \<Longrightarrow> config_ok (arg_loop args cfg)"
  by (induction args cfg rule: arg_loop.induct) (auto intro: apply_arg_ok)

lemma env_int_ok: "ok dflt \<Longrightarrow> ok (env_int value ok dflt)"
  by (simp add: env_int_def Let_def split: option.splits)

lemma load_config_ok: "config_ok (load_config argv getenv)"
proof -
  have workers: "0 < env_int v (\<lambda>v. 0 < v) d \<and> env_int v (\<lambda>v. 0 < v) d \<le> INT_MAX" if "0 < d" "d \<le> INT_MAX" for v d
    using that atoi_max by (auto simp: env_int_def Let_def split: option.splits)
  have port: "valid_port (env_int v valid_port d)" if "valid_port d" for v d
    using that by (rule env_int_ok)
  show ?thesis
    unfolding load_config_def
    by (rule arg_loop_ok) (simp add: config_ok_def env_str_def fill_buf_bounds workers port valid_port_def[of 8080] valid_port_def[of 8081])
qed

lemma accept_loop_all: "map sock_of (accept_loop rs) = map fst (accepted rs)"
  by (induction rs) (auto simp: accept_one_def sock_of_def split: accept_result.splits)

lemma accept_loop_flag: "Submit s i \<in> set (accept_loop rs) \<Longrightarrow> (s, i) \<in> set (accepted rs)"
  by (induction rs) (auto simp: accept_one_def split: accept_result.splits if_splits)

lemma htons_valid: "valid_port p \<Longrightarrow> htons p = p"
  by (simp add: valid_port_def htons_def)

end
