(* ===== verification/Tui_App.thy ===== *)
theory Tui_App
  imports Api_Client
begin

text \<open>
  \<^verbatim>\<open>tui/src/app.c\<close>: the state of the terminal program and what a key press does to it, and the
  configuration and main loop of \<^verbatim>\<open>tui/src/tui.c\<close>. The server is reached through the client functions of
  theory Api_Client, over their parameter. Key codes are those of ncurses. The number of products is
  the length of the list.
\<close>

section \<open>Data\<close>

datatype input_mode_t = MODE_BROWSE | MODE_PROMPT

datatype prompt_action_t = PROMPT_NONE | PROMPT_DEPOSIT | PROMPT_RESTOCK | PROMPT_PRICE

definition MSG_LEN :: nat where "MSG_LEN = 128"
definition PROMPT_LABEL_LEN :: nat where "PROMPT_LABEL_LEN = 48"
definition PROMPT_BUF_LEN :: nat where "PROMPT_BUF_LEN = 16"
definition KONAMI_LEN :: nat where "KONAMI_LEN = 10"

abbreviation KEY_DOWN :: int where "KEY_DOWN \<equiv> 258"
abbreviation KEY_UP :: int where "KEY_UP \<equiv> 259"
abbreviation KEY_LEFT :: int where "KEY_LEFT \<equiv> 260"
abbreviation KEY_RIGHT :: int where "KEY_RIGHT \<equiv> 261"
abbreviation KEY_BACKSPACE :: int where "KEY_BACKSPACE \<equiv> 263"
abbreviation KEY_ENTER :: int where "KEY_ENTER \<equiv> 343"

definition key_of :: "char \<Rightarrow> int" where "key_of c = of_char c"

record app_t =
  client :: api_client_t
  products :: "tui_product list"
  balance_gr :: int
  selected :: int
  admin :: bool
  running_app :: bool
  server_down :: bool
  mode :: input_mode_t
  pending :: prompt_action_t
  prompt_label :: string
  prompt_buf :: string
  message :: string
  konami :: "int list"
  konami_pos :: nat

abbreviation count :: "app_t \<Rightarrow> int" where "count a \<equiv> int (length (products a))"

definition KONAMI_SEQ :: "int list" where
  "KONAMI_SEQ = [KEY_UP, KEY_UP, KEY_DOWN, KEY_DOWN, KEY_LEFT, KEY_RIGHT, KEY_LEFT, KEY_RIGHT,
     key_of CHR ''b'', key_of CHR ''a'']"

section \<open>Helpers\<close>

definition app_slot_rowcol :: "int \<Rightarrow> int \<times> int" where
  "app_slot_rowcol slot = (c_div slot 10, c_mod slot 10)"

text \<open>\<^verbatim>\<open>%02d\<close>\<close>

definition show_int02 :: "int \<Rightarrow> string" where
  "show_int02 n = (if 0 \<le> n \<and> n < 10 then CHR ''0'' # show_int n else show_int n)"

definition app_fmt_money :: "int \<Rightarrow> nat \<Rightarrow> string" where
  "app_fmt_money gr n = fill_buf n (show_int (c_div gr 100) @ ''.'' @ show_int02 (c_mod gr 100))"

definition say :: "string \<Rightarrow> app_t \<Rightarrow> app_t" where
  "say s a = a\<lparr>message := fill_buf MSG_LEN s\<rparr>"

definition set_status :: "api_status_t \<Rightarrow> string \<Rightarrow> app_t \<Rightarrow> app_t" where
  "set_status st what a =
     (case st of
        API_ERR_NETWORK \<Rightarrow> say ''Cannot reach server'' (a\<lparr>server_down := True\<rparr>)
      | API_ERR_HTTP \<Rightarrow> say (what @ '': server rejected request'') a
      | API_ERR_PARSE \<Rightarrow> say (what @ '': unexpected server response'') a
      | API_OK \<Rightarrow> a)"

definition app_refresh :: "'w net \<Rightarrow> app_t \<Rightarrow> 'w \<Rightarrow> app_t \<times> 'w" where
  "app_refresh net a w =
     (let a = a\<lparr>server_down := False\<rparr>;
          ((st, prods), w1) = api_get_stock net (client a) w;
          a = (if st = API_OK
               then let a = a\<lparr>products := prods\<rparr> in
                    if count a \<le> selected a
                    then a\<lparr>selected := (if 0 < count a then count a - 1 else 0)\<rparr> else a
               else set_status st ''stock'' a);
          ((st, bal), w2) = api_get_balance net (client a) w1;
          a = (if st = API_OK then a\<lparr>balance_gr := the bal\<rparr> else set_status st ''balance'' a)
      in (a, w2))"

definition app_init :: "'w net \<Rightarrow> api_client_t \<Rightarrow> 'w \<Rightarrow> app_t \<times> 'w" where
  "app_init net c w =
     (let a = \<lparr>client = c, products = [], balance_gr = 0, selected = 0, admin = False, running_app = True,
               server_down = False, mode = MODE_BROWSE, pending = PROMPT_NONE, prompt_label = [],
               prompt_buf = [], message = [], konami = replicate KONAMI_LEN 0, konami_pos = 0\<rparr>;
          (a, w1) = app_refresh net a w
      in (a\<lparr>message := []\<rparr>, w1))"

definition app_free :: "app_t \<Rightarrow> app_t" where
  "app_free a = a\<lparr>products := []\<rparr>"

definition feed_konami :: "int \<Rightarrow> app_t \<Rightarrow> app_t" where
  "feed_konami key a =
     (let a = (if konami_pos a < KONAMI_LEN
               then a\<lparr>konami := (konami a)[konami_pos a := key], konami_pos := konami_pos a + 1\<rparr>
               else a\<lparr>konami := tl (konami a) @ [key]\<rparr>)
      in if konami_pos a = KONAMI_LEN \<and> konami a = KONAMI_SEQ
         then let a = a\<lparr>admin := \<not> admin a\<rparr>
              in (say (if admin a then ''ADMIN unlocked'' else ''ADMIN locked'') a)\<lparr>konami_pos := 0\<rparr>
         else a)"

section \<open>Moving the selection\<close>

definition move_horizontal :: "int \<Rightarrow> app_t \<Rightarrow> app_t" where
  "move_horizontal dir a =
     (if count a = 0 then a else a\<lparr>selected := c_mod (selected a + dir + count a) (count a)\<rparr>)"

text \<open>The loop of \<^verbatim>\<open>find_in_row\<close>: index, remaining products, best index and best distance so far.\<close>

fun find_loop :: "int \<Rightarrow> tui_product list \<Rightarrow> int \<Rightarrow> int \<Rightarrow> int \<Rightarrow> int \<Rightarrow> int" where
  "find_loop i [] target col best best_dist = best"
| "find_loop i (p # ps) target col best best_dist =
     (let (r, c) = app_slot_rowcol (tp_slot_id p) in
      if r = target
      then let d = (if col < c then c - col else col - c) in
           if d < best_dist then find_loop (i + 1) ps target col i d
           else find_loop (i + 1) ps target col best best_dist
      else find_loop (i + 1) ps target col best best_dist)"

definition find_in_row :: "app_t \<Rightarrow> int \<Rightarrow> int \<Rightarrow> int" where
  "find_in_row a target col = find_loop 0 (products a) target col (-1) INT_MAX"

datatype vdir = Up | Down

definition dir_val :: "vdir \<Rightarrow> int" where
  "dir_val d = (case d of Up \<Rightarrow> -1 | Down \<Rightarrow> 1)"

text \<open>\<^verbatim>\<open>while (target >= minr && target <= maxr)\<close>: walk over the rows until one has a product.\<close>

function row_loop :: "app_t \<Rightarrow> vdir \<Rightarrow> int \<Rightarrow> int \<Rightarrow> int \<Rightarrow> int \<Rightarrow> int" where
  "row_loop a d minr maxr col target =
     (if minr \<le> target \<and> target \<le> maxr
      then let idx = find_in_row a target col in
           if 0 \<le> idx then idx else row_loop a d minr maxr col (target + dir_val d)
      else -1)"
  by pat_completeness auto
termination
  by (relation "measure (\<lambda>(a, d, minr, maxr, col, target).
        nat (case d of Up \<Rightarrow> target - minr + 1 | Down \<Rightarrow> maxr - target + 1))")
     (auto simp: dir_val_def split: vdir.splits)

declare row_loop.simps [simp del]

abbreviation row_of :: "tui_product \<Rightarrow> int" where
  "row_of p \<equiv> fst (app_slot_rowcol (tp_slot_id p))"

definition move_vertical :: "vdir \<Rightarrow> app_t \<Rightarrow> app_t" where
  "move_vertical d a =
     (if count a = 0 then a else
      let (r, c) = app_slot_rowcol (tp_slot_id (products a ! nat (selected a)));
          minr = foldl (\<lambda>m p. if row_of p < m then row_of p else m) INT_MAX (products a);
          maxr = foldl (\<lambda>m p. if m < row_of p then row_of p else m) INT_MIN (products a);
          idx = row_loop a d minr maxr c (r + dir_val d);
          idx = (if idx < 0 then row_loop a d minr maxr c (if d = Down then minr else maxr) else idx)
      in if 0 \<le> idx then a\<lparr>selected := idx\<rparr> else a)"

section \<open>Prompts\<close>

definition open_prompt :: "prompt_action_t \<Rightarrow> string \<Rightarrow> app_t \<Rightarrow> app_t" where
  "open_prompt action label a =
     (if count a = 0 \<and> action \<noteq> PROMPT_DEPOSIT then say ''No slot selected'' a
      else a\<lparr>mode := MODE_PROMPT, pending := action,
             prompt_label := fill_buf PROMPT_LABEL_LEN label, prompt_buf := []\<rparr>)"

text \<open>The first loop of \<^verbatim>\<open>parse_zl_to_gr\<close>: \<open>None\<close> is \<^verbatim>\<open>return -1\<close>, otherwise the zlotys, whether a digit
  was seen, and the text from the point on.\<close>

fun zl_loop :: "int \<Rightarrow> bool \<Rightarrow> string \<Rightarrow> (int \<times> bool \<times> string) option" where
  "zl_loop zl seen [] = Some (zl, seen, [])"
| "zl_loop zl seen (c # cs) =
     (if c = CHR ''.'' then Some (zl, seen, c # cs)
      else if \<not> isdigit c then None
      else let zl = zl * 10 + int (digit_val c) in
           if 99999999 < zl then None else zl_loop zl True cs)"

fun gr_loop :: "int \<Rightarrow> nat \<Rightarrow> string \<Rightarrow> (int \<times> nat) option" where
  "gr_loop gr frac_digits [] = Some (gr, frac_digits)"
| "gr_loop gr frac_digits (c # cs) =
     (if \<not> isdigit c then None
      else if frac_digits < 2 then gr_loop (gr * 10 + int (digit_val c)) (frac_digits + 1) cs
      else None)"

definition parse_zl_to_gr :: "string \<Rightarrow> int" where
  "parse_zl_to_gr s =
     (case zl_loop 0 False s of
        None \<Rightarrow> -1
      | Some (zl, seen_digit, rest) \<Rightarrow>
          (case (if rest \<noteq> [] \<and> hd rest = CHR ''.''
                 then map_option (\<lambda>(gr, frac_digits). if frac_digits = 1 then gr * 10 else gr) (gr_loop 0 0 (tl rest))
                 else Some 0) of
             None \<Rightarrow> -1
           | Some gr \<Rightarrow>
               (if \<not> seen_digit then -1
                else let result = zl * 100 + gr in
                     if INT_MAX < result then -1 else result)))"

fun pos_loop :: "int \<Rightarrow> string \<Rightarrow> int option" where
  "pos_loop v [] = Some v"
| "pos_loop v (c # cs) =
     (if \<not> isdigit c then None
      else let v = v * 10 + int (digit_val c) in
           if INT_MAX < v then None else pos_loop v cs)"

definition parse_pos_int :: "string \<Rightarrow> int" where
  "parse_pos_int s =
     (if s = [] then -1
      else case pos_loop 0 s of None \<Rightarrow> -1 | Some v \<Rightarrow> if 0 < v then v else -1)"

definition no_server :: "app_t \<Rightarrow> app_t" where
  "no_server a = say ''Cannot reach server'' (a\<lparr>server_down := True\<rparr>)"

section \<open>Actions\<close>

definition do_buy :: "'w net \<Rightarrow> app_t \<Rightarrow> 'w \<Rightarrow> app_t \<times> 'w" where
  "do_buy net a w =
     (if count a = 0 then (a, w)
      else let p = products a ! nat (selected a) in
           if tp_stock_qty p \<le> 0 then (say ''Sold out'' a, w)
           else if balance_gr a < tp_price_gr p
           then (say (''Insufficient balance (need '' @ app_fmt_money (tp_price_gr p) 16 @ '' zl)'') a, w)
           else let (st, w1) = api_purchase net (client a) (tp_slot_id p) w in
                if st = API_OK then app_refresh net (say (''Dispensing '' @ tp_name p @ ''!'') a) w1
                else if st = API_ERR_NETWORK then (no_server a, w1)
                else app_refresh net (say ''Purchase failed'' a) w1)"

definition do_cashout :: "'w net \<Rightarrow> app_t \<Rightarrow> 'w \<Rightarrow> app_t \<times> 'w" where
  "do_cashout net a w =
     (let ((st, refund), w1) = api_refund net (client a) w in
      if st = API_OK
      then app_refresh net (say (''Cashed out '' @ app_fmt_money (the refund) 16 @ '' zl'') a) w1
      else if st = API_ERR_NETWORK then (no_server a, w1)
      else (say ''Cash out failed'' a, w1))"

text \<open>The three branches of \<^verbatim>\<open>confirm_prompt\<close> and what they have in common at the end.\<close>

definition confirm_deposit :: "'w net \<Rightarrow> app_t \<Rightarrow> 'w \<Rightarrow> app_t \<times> 'w" where
  "confirm_deposit net a w =
     (let gr = parse_zl_to_gr (prompt_buf a) in
      if gr \<le> 0 then (say ''Invalid amount'' a, w)
      else let (st, w1) = api_deposit net (client a) gr w in
           if st = API_OK then (say (''Deposited '' @ app_fmt_money gr 16 @ '' zl'') a, w1)
           else if st = API_ERR_NETWORK then (no_server a, w1)
           else (say ''Deposit failed'' a, w1))"

definition confirm_restock :: "'w net \<Rightarrow> tui_product \<Rightarrow> app_t \<Rightarrow> 'w \<Rightarrow> app_t \<times> 'w" where
  "confirm_restock net p a w =
     (let q = parse_pos_int (prompt_buf a) in
      if q < 0 then (say ''Invalid quantity'' a, w)
      else let (st, w1) = api_restock net (client a) (tp_slot_id p) q w in
           if st = API_OK
           then (say (''Restocked slot '' @ show_int (tp_slot_id p) @ '' (+'' @ show_int q @ '')'') a, w1)
           else if st = API_ERR_NETWORK then (no_server a, w1)
           else (say ''Restock failed'' a, w1))"

definition confirm_price :: "'w net \<Rightarrow> tui_product \<Rightarrow> app_t \<Rightarrow> 'w \<Rightarrow> app_t \<times> 'w" where
  "confirm_price net p a w =
     (let gr = parse_zl_to_gr (prompt_buf a) in
      if gr \<le> 0 then (say ''Invalid price'' a, w)
      else let (st, w1) = api_set_price net (client a) (tp_item_id p) gr w in
           if st = API_OK then (say (''Updated price of '' @ tp_name p) a, w1)
           else if st = API_ERR_NETWORK then (no_server a, w1)
           else (say ''Price update failed'' a, w1))"

definition confirm_prompt :: "'w net \<Rightarrow> app_t \<Rightarrow> 'w \<Rightarrow> app_t \<times> 'w" where
  "confirm_prompt net a w =
     (let p = (if 0 < count a then Some (products a ! nat (selected a)) else None);
          (a, w) =
            (if pending a = PROMPT_DEPOSIT then confirm_deposit net a w
             else case (pending a, p) of
                    (PROMPT_RESTOCK, Some p) \<Rightarrow> confirm_restock net p a w
                  | (PROMPT_PRICE, Some p) \<Rightarrow> confirm_price net p a w
                  | _ \<Rightarrow> (a, w));
          a = a\<lparr>mode := MODE_BROWSE, pending := PROMPT_NONE, prompt_buf := []\<rparr>
      in if \<not> server_down a then app_refresh net a w else (a, w))"

section \<open>Keys\<close>

definition is_enter :: "int \<Rightarrow> bool" where
  "is_enter key \<longleftrightarrow> key = 10 \<or> key = 13 \<or> key = KEY_ENTER"

definition prompt_key :: "'w net \<Rightarrow> int \<Rightarrow> app_t \<Rightarrow> 'w \<Rightarrow> app_t \<times> 'w" where
  "prompt_key net key a w =
     (if key = 27 then
        (say ''Cancelled'' (a\<lparr>mode := MODE_BROWSE, pending := PROMPT_NONE, prompt_buf := []\<rparr>), w)
      else if is_enter key then confirm_prompt net a w
      else if key = KEY_BACKSPACE \<or> key = 127 \<or> key = 8 then (a\<lparr>prompt_buf := butlast (prompt_buf a)\<rparr>, w)
      else if ((48 \<le> key \<and> key \<le> 57) \<or> key = 46) \<and> length (prompt_buf a) < PROMPT_BUF_LEN - 1
      then (a\<lparr>prompt_buf := prompt_buf a @ [char_of (nat key)]\<rparr>, w)
      else (a, w))"

definition browse_key :: "'w net \<Rightarrow> int \<Rightarrow> app_t \<Rightarrow> 'w \<Rightarrow> app_t \<times> 'w" where
  "browse_key net key a w =
     (if key = KEY_LEFT then (move_horizontal (-1) a, w)
      else if key = KEY_RIGHT then (move_horizontal 1 a, w)
      else if key = KEY_UP then (move_vertical Up a, w)
      else if key = KEY_DOWN then (move_vertical Down a, w)
      else if is_enter key \<or> key = key_of CHR '' '' then do_buy net a w
      else if key = key_of CHR ''d'' then (open_prompt PROMPT_DEPOSIT ''Deposit amount (zl):'' a, w)
      else if key = key_of CHR ''c'' then do_cashout net a w
      else if key = key_of CHR ''r'' then (let (a, w1) = app_refresh net a w in (say ''Refreshed'' a, w1))
      else if key = key_of CHR ''q'' then (a\<lparr>running_app := False\<rparr>, w)
      else if key = key_of CHR ''s'' then
        (if admin a then open_prompt PROMPT_RESTOCK ''Restock qty:'' a else a, w)
      else if key = key_of CHR ''p'' then
        (if admin a then open_prompt PROMPT_PRICE ''New price (zl):'' a else a, w)
      else if key = 27 then (if admin a then say ''ADMIN locked'' (a\<lparr>admin := False\<rparr>) else a, w)
      else (a, w))"

definition app_handle_key :: "'w net \<Rightarrow> int \<Rightarrow> app_t \<Rightarrow> 'w \<Rightarrow> app_t \<times> 'w" where
  "app_handle_key net key a w =
     (let a = feed_konami key a in
      if server_down a then
        (if key = key_of CHR ''r'' \<or> key = key_of CHR ''R'' then app_refresh net a w
         else if key = key_of CHR ''q'' \<or> key = key_of CHR ''Q'' then (a\<lparr>running_app := False\<rparr>, w)
         else (a, w))
      else if mode a = MODE_PROMPT then prompt_key net key a w
      else browse_key net key a w)"

section \<open>\<open>tui.c\<close>\<close>

record tui_config =
  tc_base_url :: string
  tc_user_id :: int
  tc_admin_token :: string

text \<open>An argument that follows \<^verbatim>\<open>--user\<close> is consumed with it.\<close>

fun tui_args :: "string list \<Rightarrow> tui_config \<Rightarrow> tui_config" where
  "tui_args [] cfg = cfg"
| "tui_args [a] cfg = cfg"
| "tui_args (a # b # rest) cfg =
     (if a = ''--user''
      then tui_args rest (let v = atoi b in if 0 < v then cfg\<lparr>tc_user_id := v\<rparr> else cfg)
      else tui_args (b # rest) cfg)"

definition set_env :: "string option \<Rightarrow> string \<Rightarrow> string" where
  "set_env value dflt = (case value of Some s \<Rightarrow> if s \<noteq> [] then s else dflt | None \<Rightarrow> dflt)"

definition tui_load_config :: "string list \<Rightarrow> (string \<Rightarrow> string option) \<Rightarrow> tui_config" where
  "tui_load_config argv getenv =
     tui_args (tl argv)
       \<lparr>tc_base_url = fill_buf 256 (set_env (getenv ''SSHNACK_SERVER_URL'') ''http://127.0.0.1:8080''),
        tc_user_id = (case getenv ''SSHNACK_USER_ID'' of
                        Some s \<Rightarrow> (if s \<noteq> [] \<and> 0 < atoi s then atoi s else 67) | None \<Rightarrow> 67),
        tc_admin_token = fill_buf 128 (set_env (getenv ''SSHNACK_ADMIN_TOKEN'') ''admin'')\<rparr>"

text \<open>The main loop on a sequence of keys, until the program is told to stop.\<close>

fun tui_loop :: "'w net \<Rightarrow> int list \<Rightarrow> app_t \<Rightarrow> 'w \<Rightarrow> app_t \<times> 'w" where
  "tui_loop net [] a w = (a, w)"
| "tui_loop net (key # ks) a w =
     (if \<not> running_app a then (a, w)
      else let (a, w) = app_handle_key net key a w in tui_loop net ks a w)"

section \<open>Specifications\<close>

text \<open>The selection points at a product whenever there is one, and every buffer holds its text.\<close>

definition app_ok :: "app_t \<Rightarrow> bool" where
  "app_ok a \<longleftrightarrow>
     0 \<le> selected a \<and> (products a \<noteq> [] \<longrightarrow> selected a < count a) \<and>
     length (prompt_buf a) < PROMPT_BUF_LEN \<and> length (prompt_label a) < PROMPT_LABEL_LEN \<and>
     length (message a) < MSG_LEN \<and> length (konami a) = KONAMI_LEN \<and> konami_pos a \<le> KONAMI_LEN \<and>
     (mode a = MODE_PROMPT \<longleftrightarrow> pending a \<noteq> PROMPT_NONE)"

definition col_dist :: "int \<Rightarrow> tui_product \<Rightarrow> int" where
  "col_dist col p = \<bar>snd (app_slot_rowcol (tp_slot_id p)) - col\<bar>"

text \<open>The product with index \<open>k\<close> is in the row, and none in the row is nearer to the column.\<close>

definition best_in_row :: "tui_product list \<Rightarrow> int \<Rightarrow> int \<Rightarrow> nat \<Rightarrow> bool" where
  "best_in_row ps row col k \<longleftrightarrow>
     k < length ps \<and> row_of (ps ! k) = row \<and>
     (\<forall>p \<in> set ps. row_of p = row \<longrightarrow> col_dist col (ps ! k) \<le> col_dist col p)"

text \<open>The row a vertical move goes to: the next occupied one, or the first one from the other end.\<close>

definition next_row :: "vdir \<Rightarrow> int \<Rightarrow> int set \<Rightarrow> int" where
  "next_row d r R =
     (case d of
        Down \<Rightarrow> (if \<exists>x \<in> R. r < x then Min {x \<in> R. r < x} else Min R)
      | Up \<Rightarrow> (if \<exists>x \<in> R. x < r then Max {x \<in> R. x < r} else Max R))"

text \<open>The unlock code over the keys since the last time it was entered.\<close>

definition code_step :: "int \<Rightarrow> int list \<Rightarrow> bool \<times> int list" where
  "code_step key hist =
     (let hist = hist @ [key] in
      if KONAMI_LEN \<le> length hist \<and> drop (length hist - KONAMI_LEN) hist = KONAMI_SEQ then (True, []) else (False, hist))"

definition code_rep :: "app_t \<Rightarrow> int list \<Rightarrow> bool" where
  "code_rep a hist \<longleftrightarrow>
     length (konami a) = KONAMI_LEN \<and> konami_pos a = min KONAMI_LEN (length hist) \<and>
     take (konami_pos a) (konami a) = drop (length hist - KONAMI_LEN) hist"

section \<open>Lemmas: the invariant\<close>

lemma say_simps [simp]:
  "client (say s a) = client a" "products (say s a) = products a" "selected (say s a) = selected a"
  "prompt_buf (say s a) = prompt_buf a" "prompt_label (say s a) = prompt_label a" "konami (say s a) = konami a"
  "konami_pos (say s a) = konami_pos a" "mode (say s a) = mode a" "pending (say s a) = pending a"
  "admin (say s a) = admin a" "server_down (say s a) = server_down a" "balance_gr (say s a) = balance_gr a"
  by (simp_all add: say_def)

lemma fill_buf_msg [simp]: "length (fill_buf MSG_LEN s) < MSG_LEN" "length (fill_buf PROMPT_LABEL_LEN s) < PROMPT_LABEL_LEN"
  by (simp_all add: length_fill_buf MSG_LEN_def PROMPT_LABEL_LEN_def)

lemma app_ok_say: "app_ok a \<Longrightarrow> app_ok (say s a)"
  by (simp add: app_ok_def) (simp add: say_def)

lemma app_ok_down [simp]: "app_ok (a\<lparr>server_down := b\<rparr>) = app_ok a" "app_ok (a\<lparr>balance_gr := n\<rparr>) = app_ok a"
  "app_ok (a\<lparr>running_app := b\<rparr>) = app_ok a" "app_ok (a\<lparr>admin := b\<rparr>) = app_ok a"
  by (simp_all add: app_ok_def)

lemma app_ok_status: "app_ok a \<Longrightarrow> app_ok (set_status st what a)"
  by (cases st) (simp_all add: set_status_def app_ok_say)

lemma app_ok_no_server: "app_ok a \<Longrightarrow> app_ok (no_server a)"
  by (simp add: no_server_def app_ok_say)

lemma app_ok_refresh: "app_ok a \<Longrightarrow> app_ok (fst (app_refresh net a w))"
  unfolding app_refresh_def Let_def
  by (auto simp: split_beta intro!: app_ok_status) (auto simp: app_ok_def)

lemma app_ok_konami: "app_ok a \<Longrightarrow> app_ok (feed_konami key a)"
proof -
  have tick: "app_ok (b\<lparr>konami_pos := 0\<rparr>)" if "app_ok b" for b using that by (simp add: app_ok_def)
  assume "app_ok a"
  then have "app_ok (if konami_pos a < KONAMI_LEN
      then a\<lparr>konami := (konami a)[konami_pos a := key], konami_pos := konami_pos a + 1\<rparr>
      else a\<lparr>konami := tl (konami a) @ [key]\<rparr>)"
    by (auto simp: app_ok_def KONAMI_LEN_def)
  then show ?thesis
    unfolding feed_konami_def Let_def by (auto intro!: tick app_ok_say)
qed

lemma c_mod_range: "0 < b \<Longrightarrow> 0 \<le> a \<Longrightarrow> 0 \<le> c_mod a b \<and> c_mod a b < b"
  by simp

lemma app_ok_horizontal:
  assumes "app_ok a" and "-1 \<le> d"
  shows "app_ok (move_horizontal d a)"
proof (cases "products a = []")
  case False
  then have "0 < count a" "0 \<le> selected a + d + count a" using assms by (auto simp: app_ok_def)
  then have "0 \<le> c_mod (selected a + d + count a) (count a) \<and> c_mod (selected a + d + count a) (count a) < count a"
    by (rule c_mod_range)
  with assms(1) show ?thesis unfolding move_horizontal_def app_ok_def by auto
qed (use assms in \<open>simp add: move_horizontal_def\<close>)

section \<open>Lemmas: rows and columns\<close>

lemma best_in_row_Cons: "best_in_row ps row col k \<Longrightarrow> (row_of p = row \<longrightarrow> col_dist col (ps ! k) \<le> col_dist col p) \<Longrightarrow> best_in_row (p # ps) row col (Suc k)"
  by (simp add: best_in_row_def)

lemma find_loop_spec:
  "(find_loop i ps row col best bd = best \<and> (\<forall>p \<in> set ps. row_of p = row \<longrightarrow> bd \<le> col_dist col p)) \<or>
   (\<exists>k. find_loop i ps row col best bd = i + int k \<and> best_in_row ps row col k \<and> col_dist col (ps ! k) < bd)"
proof (induction ps arbitrary: i best bd)
  case (Cons p ps)
  obtain r c where rc: "app_slot_rowcol (tp_slot_id p) = (r, c)" by (cases "app_slot_rowcol (tp_slot_id p)")
  have d: "(if col < c then c - col else col - c) = col_dist col p" using rc by (simp add: col_dist_def)
  show ?case
  proof (cases "r = row \<and> col_dist col p < bd")
    case True
    then have step: "find_loop i (p # ps) row col best bd = find_loop (i + 1) ps row col i (col_dist col p)"
      using rc d by (simp add: Let_def)
    have "best_in_row (p # ps) row col 0" if "\<forall>q \<in> set ps. row_of q = row \<longrightarrow> col_dist col p \<le> col_dist col q"
      using that True rc by (simp add: best_in_row_def)
    moreover have "best_in_row (p # ps) row col (Suc k)" if "best_in_row ps row col k" "col_dist col (ps ! k) < col_dist col p" for k
      using that by (simp add: best_in_row_Cons)
    ultimately show ?thesis
      using Cons[of "i + 1" i "col_dist col p"] True unfolding step
      by (elim disjE exE conjE) (rule disjI2, rule exI[of _ 0], simp, rule disjI2, rule exI, auto)
  next
    case False
    then have step: "find_loop i (p # ps) row col best bd = find_loop (i + 1) ps row col best bd"
      using rc d by (auto simp: Let_def)
    from False rc have p: "row_of p = row \<longrightarrow> bd \<le> col_dist col p" by auto
    then have "best_in_row (p # ps) row col (Suc k)" if "best_in_row ps row col k" "col_dist col (ps ! k) < bd" for k
      using that by (intro best_in_row_Cons) auto
    with p show ?thesis using Cons[of "i + 1" best bd] unfolding step by fastforce
  qed
qed simp

lemma c_mod_abs: "\<bar>c_mod n 10\<bar> < 10"
proof -
  have "\<bar>n\<bar> - 10 * (\<bar>n\<bar> div 10) < 10" "0 \<le> \<bar>n\<bar> - 10 * (\<bar>n\<bar> div 10)" by (simp_all add: minus_mult_div_eq_mod)
  then show ?thesis by (cases n "0 :: int" rule: linorder_cases) (simp_all add: c_mod_def c_div_def)
qed

lemma find_in_row_spec:
  assumes "\<bar>col\<bar> < 10"
  shows "(find_in_row a row col = -1 \<and> row \<notin> row_of ` set (products a)) \<or>
    (\<exists>k. find_in_row a row col = int k \<and> best_in_row (products a) row col k)"
proof -
  have "col_dist col p < INT_MAX" for p
    using assms c_mod_abs[of "tp_slot_id p"] by (simp add: col_dist_def app_slot_rowcol_def)
  then have "(\<forall>p \<in> set (products a). row_of p = row \<longrightarrow> INT_MAX \<le> col_dist col p) \<Longrightarrow> row \<notin> row_of ` set (products a)"
    by (auto simp: not_le[symmetric])
  then show ?thesis
    using find_loop_spec[of 0 "products a" row col "-1" INT_MAX] unfolding find_in_row_def by auto
qed

lemma find_in_row_neg: "\<bar>col\<bar> < 10 \<Longrightarrow> find_in_row a row col < 0 \<longleftrightarrow> row \<notin> row_of ` set (products a)"
  using find_in_row_spec[of col a row] by (auto simp: best_in_row_def image_iff)

lemma foldl_min: "foldl (\<lambda>m p. if f p < m then f p else m) z ps = Min (insert z (f ` set ps))" for z :: int
proof (induction ps arbitrary: z)
  case (Cons p ps)
  have "foldl (\<lambda>m p. if f p < m then f p else m) z (p # ps) = Min (insert (min z (f p)) (f ` set ps))"
    using Cons[of "min z (f p)"] by (cases "f p < z") (simp_all add: min_def)
  also have "\<dots> = Min (insert z (f ` set (p # ps)))"
    by (cases "set ps = {}") (simp_all add: min.assoc)
  finally show ?case .
qed simp

lemma foldl_max: "foldl (\<lambda>m p. if m < f p then f p else m) z ps = Max (insert z (f ` set ps))" for z :: int
proof (induction ps arbitrary: z)
  case (Cons p ps)
  have "foldl (\<lambda>m p. if m < f p then f p else m) z (p # ps) = Max (insert (max z (f p)) (f ` set ps))"
    using Cons[of "max z (f p)"] by (cases "z < f p") (simp_all add: max_def)
  also have "\<dots> = Max (insert z (f ` set (p # ps)))"
    by (cases "set ps = {}") (simp_all add: max.assoc)
  finally show ?case .
qed simp

lemma row_loop_down:
  assumes "\<bar>col\<bar> < 10" and "R = row_of ` set (products a)" and "R \<noteq> {}" and "Min R \<le> target"
  shows "row_loop a Down (Min R) (Max R) col target =
    (if \<exists>x \<in> R. target \<le> x then find_in_row a (Min {x \<in> R. target \<le> x}) col else -1)"
  using assms(4)
proof (induction "nat (Max R - target + 1)" arbitrary: target rule: less_induct)
  case less
  have fin: "finite R" using assms(2) by simp
  show ?case
  proof (cases "target \<le> Max R")
    case False
    then have "\<not> (\<exists>x \<in> R. target \<le> x)" using Max_ge[OF fin] by force
    with False show ?thesis by (subst row_loop.simps) auto
  next
    case True
    show ?thesis
    proof (cases "target \<in> R")
      case t: True
      then have "Min {x \<in> R. target \<le> x} = target" using fin by (intro Min_eqI) auto
      with t True less.prems assms show ?thesis
        using find_in_row_neg[OF assms(1), of a target] by (subst row_loop.simps) (auto simp: Let_def)
    next
      case t: False
      then have "target \<le> x \<longleftrightarrow> target + 1 \<le> x" if "x \<in> R" for x using that by (cases "x = target") auto
      then have R: "{x \<in> R. target \<le> x} = {x \<in> R. target + 1 \<le> x}" by blast
      then have ex: "(\<exists>x \<in> R. target \<le> x) \<longleftrightarrow> (\<exists>x \<in> R. target + 1 \<le> x)" by blast
      have "row_loop a Down (Min R) (Max R) col target = row_loop a Down (Min R) (Max R) col (target + 1)"
        using t True less.prems assms find_in_row_neg[OF assms(1), of a target]
        by (subst row_loop.simps) (auto simp: Let_def dir_val_def)
      with less.hyps[of "target + 1"] True less.prems show ?thesis unfolding R ex by simp
    qed
  qed
qed

lemma row_loop_up:
  assumes "\<bar>col\<bar> < 10" and "R = row_of ` set (products a)" and "R \<noteq> {}" and "target \<le> Max R"
  shows "row_loop a Up (Min R) (Max R) col target =
    (if \<exists>x \<in> R. x \<le> target then find_in_row a (Max {x \<in> R. x \<le> target}) col else -1)"
  using assms(4)
proof (induction "nat (target - Min R + 1)" arbitrary: target rule: less_induct)
  case less
  have fin: "finite R" using assms(2) by simp
  show ?case
  proof (cases "Min R \<le> target")
    case False
    then have "\<not> (\<exists>x \<in> R. x \<le> target)" using Min_le[OF fin] by force
    with False show ?thesis by (subst row_loop.simps) auto
  next
    case True
    show ?thesis
    proof (cases "target \<in> R")
      case t: True
      then have "Max {x \<in> R. x \<le> target} = target" using fin by (intro Max_eqI) auto
      with t True less.prems assms show ?thesis
        using find_in_row_neg[OF assms(1), of a target] by (subst row_loop.simps) (auto simp: Let_def)
    next
      case t: False
      then have "x \<le> target \<longleftrightarrow> x \<le> target - 1" if "x \<in> R" for x using that by (cases "x = target") auto
      then have R: "{x \<in> R. x \<le> target} = {x \<in> R. x \<le> target - 1}" by blast
      then have ex: "(\<exists>x \<in> R. x \<le> target) \<longleftrightarrow> (\<exists>x \<in> R. x \<le> target - 1)" by blast
      have "row_loop a Up (Min R) (Max R) col target = row_loop a Up (Min R) (Max R) col (target - 1)"
        using t True less.prems assms find_in_row_neg[OF assms(1), of a target]
        by (subst row_loop.simps) (auto simp: Let_def dir_val_def)
      with less.hyps[of "target - 1"] True less.prems show ?thesis unfolding R ex by simp
    qed
  qed
qed

lemma c_div_bound: "is_int32 n \<Longrightarrow> INT_MIN < c_div n 10 \<and> c_div n 10 < INT_MAX"
proof -
  assume "is_int32 n"
  then have "\<bar>n\<bar> div 10 \<le> 2147483648 div 10" by (intro zdiv_mono1) (auto simp: is_int32_def)
  moreover have "0 \<le> \<bar>n\<bar> div 10" by simp
  ultimately show ?thesis by (cases n "0 :: int" rule: linorder_cases) (auto simp: c_div_def)
qed

text \<open>The two loops of \<^verbatim>\<open>move_vertical\<close> together find the next occupied row.\<close>

lemma vertical_search:
  assumes c: "\<bar>c\<bar> < 10" and R_def: "R = row_of ` set (products a)" and rR: "r \<in> R"
  shows "(let i = row_loop a d (Min R) (Max R) c (r + dir_val d)
    in if i < 0 then row_loop a d (Min R) (Max R) c (if d = Down then Min R else Max R) else i) =
    find_in_row a (next_row d r R) c \<and> next_row d r R \<in> R"
proof -
  have fin: "finite R" "R \<noteq> {}" using R_def rR by auto
  have find: "0 \<le> find_in_row a x c" if "x \<in> R" for x
    using that find_in_row_neg[OF c, of a x] by (auto simp: R_def)
  show ?thesis
  proof (cases d)
    case Down
    have "Min R \<le> r + 1" using Min_le[OF fin(1) rR] by simp
    then have one: "row_loop a Down (Min R) (Max R) c (r + 1) =
        (if \<exists>x \<in> R. r < x then find_in_row a (Min {x \<in> R. r < x}) c else -1)"
      using row_loop_down[OF c R_def fin(2), of "r + 1"] by (simp only: add1_zle_eq)
    have "{x \<in> R. Min R \<le> x} = R" using fin by auto
    then have two: "row_loop a Down (Min R) (Max R) c (Min R) = find_in_row a (Min R) c"
      using row_loop_down[OF c R_def fin(2), of "Min R"] Min_in[OF fin] by auto
    show ?thesis
    proof (cases "\<exists>x \<in> R. r < x")
      case True
      then have "Min {x \<in> R. r < x} \<in> {x \<in> R. r < x}" using fin by (intro Min_in) auto
      then have m: "Min {x \<in> R. r < x} \<in> R" by simp
      show ?thesis using Down True one m find[OF m] by (simp add: next_row_def dir_val_def)
    qed (use Down one two Min_in[OF fin] in \<open>simp add: next_row_def dir_val_def\<close>)
  next
    case Up
    have "r - 1 \<le> Max R" using Max_ge[OF fin(1) rR] by simp
    then have one: "row_loop a Up (Min R) (Max R) c (r - 1) =
        (if \<exists>x \<in> R. x < r then find_in_row a (Max {x \<in> R. x < r}) c else -1)"
      using row_loop_up[OF c R_def fin(2), of "r - 1"] by (simp only: zle_diff1_eq)
    have "{x \<in> R. x \<le> Max R} = R" using fin by auto
    then have two: "row_loop a Up (Min R) (Max R) c (Max R) = find_in_row a (Max R) c"
      using row_loop_up[OF c R_def fin(2), of "Max R"] Max_in[OF fin] by auto
    show ?thesis
    proof (cases "\<exists>x \<in> R. x < r")
      case True
      then have "Max {x \<in> R. x < r} \<in> {x \<in> R. x < r}" using fin by (intro Max_in) auto
      then have m: "Max {x \<in> R. x < r} \<in> R" by simp
      show ?thesis using Up True one m find[OF m] by (simp add: next_row_def dir_val_def)
    qed (use Up one two Max_in[OF fin] in \<open>simp add: next_row_def dir_val_def\<close>)
  qed
qed

lemma move_vertical_row:
  assumes ids: "\<forall>p \<in> set (products a). is_int32 (tp_slot_id p)"
    and sel: "0 \<le> selected a" "selected a < count a"
    and rc: "app_slot_rowcol (tp_slot_id (products a ! nat (selected a))) = (r, c)"
  shows "\<exists>k. move_vertical d a = a\<lparr>selected := int k\<rparr> \<and>
    best_in_row (products a) (next_row d r (row_of ` set (products a))) c k"
proof -
  define R where "R = row_of ` set (products a)"
  have ne: "products a \<noteq> []" using sel by auto
  have fin: "finite R" "R \<noteq> {}" using ne by (auto simp: R_def)
  have c: "\<bar>c\<bar> < 10" using rc c_mod_abs by (auto simp: app_slot_rowcol_def)
  have "products a ! nat (selected a) \<in> set (products a)" using sel by (intro nth_mem) auto
  then have rR: "r \<in> R" using rc unfolding R_def by (auto intro: rev_image_eqI)
  have bounds: "INT_MIN < x \<and> x < INT_MAX" if "x \<in> R" for x
    using that ids c_div_bound by (auto simp: R_def app_slot_rowcol_def)
  have minr: "foldl (\<lambda>m p. if row_of p < m then row_of p else m) INT_MAX (products a) = Min R"
    unfolding foldl_min R_def[symmetric] using bounds[OF Min_in[OF fin]] fin by simp
  have maxr: "foldl (\<lambda>m p. if m < row_of p then row_of p else m) INT_MIN (products a) = Max R"
    unfolding foldl_max R_def[symmetric] using bounds[OF Max_in[OF fin]] fin by simp
  note idx = vertical_search[OF c R_def rR, of d]
  then obtain k where k: "find_in_row a (next_row d r R) c = int k" "best_in_row (products a) (next_row d r R) c k"
    using find_in_row_spec[OF c, of a "next_row d r R"] unfolding R_def by blast
  have "move_vertical d a = a\<lparr>selected := find_in_row a (next_row d r R) c\<rparr>"
    using ne rc idx k(1) by (simp add: move_vertical_def minr maxr Let_def)
  with k show ?thesis unfolding R_def by auto
qed

section \<open>Lemmas: every key keeps the invariant\<close>

lemma find_in_row_range: "find_in_row a row col = -1 \<or> (0 \<le> find_in_row a row col \<and> find_in_row a row col < count a)"
  using find_loop_spec[of 0 "products a" row col "-1" INT_MAX] by (auto simp: find_in_row_def best_in_row_def)

lemma row_loop_range: "row_loop a d minr maxr col target = -1 \<or>
    (0 \<le> row_loop a d minr maxr col target \<and> row_loop a d minr maxr col target < count a)"
proof (induction a d minr maxr col target rule: row_loop.induct)
  case (1 a d minr maxr col target)
  show ?case
    using 1 find_in_row_range[of a target col] by (subst (1 2 3) row_loop.simps) (auto simp: Let_def)
qed

lemma app_ok_jump:
  "app_ok a \<Longrightarrow> i = -1 \<or> (0 \<le> i \<and> i < count a) \<Longrightarrow> j = -1 \<or> (0 \<le> j \<and> j < count a) \<Longrightarrow>
   app_ok (if 0 \<le> (if i < 0 then j else i) then a\<lparr>selected := (if i < 0 then j else i)\<rparr> else a)"
  by (auto simp: app_ok_def)

lemma app_ok_vertical: "app_ok a \<Longrightarrow> app_ok (move_vertical d a)"
  unfolding move_vertical_def Let_def split_beta
  by (cases "count a = 0") (simp, simp only: if_False, rule app_ok_jump[OF _ row_loop_range row_loop_range])

lemma app_ok_prompt: "app_ok a \<Longrightarrow> action \<noteq> PROMPT_NONE \<Longrightarrow> app_ok (open_prompt action label a)"
  by (simp add: open_prompt_def app_ok_say) (simp add: app_ok_def PROMPT_BUF_LEN_def)

lemma app_ok_close: "app_ok a \<Longrightarrow> app_ok (a\<lparr>mode := MODE_BROWSE, pending := PROMPT_NONE, prompt_buf := []\<rparr>)"
  by (simp add: app_ok_def)

lemma app_ok_buy: "app_ok a \<Longrightarrow> app_ok (fst (do_buy net a w))"
  by (simp add: do_buy_def Let_def split_beta app_ok_say app_ok_no_server app_ok_refresh)

lemma app_ok_cashout: "app_ok a \<Longrightarrow> app_ok (fst (do_cashout net a w))"
  by (simp add: do_cashout_def Let_def split_beta app_ok_say app_ok_no_server app_ok_refresh)

lemma app_ok_confirm: "app_ok a \<Longrightarrow> app_ok (fst (confirm_prompt net a w))"
proof -
  assume a: "app_ok a"
  then have d: "app_ok (fst (confirm_deposit net a w))"
    by (simp add: confirm_deposit_def Let_def split_beta app_ok_say app_ok_no_server)
  have r: "app_ok (fst (confirm_restock net p a w))" for p
    using a by (simp add: confirm_restock_def Let_def split_beta app_ok_say app_ok_no_server)
  have p: "app_ok (fst (confirm_price net p a w))" for p
    using a by (simp add: confirm_price_def Let_def split_beta app_ok_say app_ok_no_server)
  show ?thesis
    unfolding confirm_prompt_def Let_def
    using a d r p by (auto simp: split_beta app_ok_refresh app_ok_close split: prompt_action_t.splits option.splits)
qed

lemma app_ok_typed: "app_ok a \<Longrightarrow> length s < PROMPT_BUF_LEN \<Longrightarrow> app_ok (a\<lparr>prompt_buf := s\<rparr>)"
  by (simp add: app_ok_def)

lemma app_ok_prompt_key: "app_ok a \<Longrightarrow> app_ok (fst (prompt_key net key a w))"
proof -
  assume a: "app_ok a"
  then have "length (butlast (prompt_buf a)) < PROMPT_BUF_LEN"
    by (simp add: app_ok_def less_imp_diff_less)
  with a show ?thesis
    by (auto simp: prompt_key_def app_ok_say app_ok_close app_ok_confirm intro!: app_ok_typed)
qed

lemma app_ok_if: "app_ok (fst x) \<Longrightarrow> app_ok (fst y) \<Longrightarrow> app_ok (fst (if b then x else y))"
  by simp

lemma app_ok_browse_key: "app_ok a \<Longrightarrow> app_ok (fst (browse_key net key a w))"
  unfolding browse_key_def
  by (intro app_ok_if) (simp_all add: app_ok_horizontal app_ok_vertical app_ok_buy app_ok_cashout app_ok_prompt
      app_ok_say app_ok_refresh split_beta Let_def)

lemma app_ok_key: "app_ok a \<Longrightarrow> app_ok (fst (app_handle_key net key a w))"
  by (simp add: app_handle_key_def Let_def app_ok_refresh app_ok_prompt_key app_ok_browse_key app_ok_konami)

lemma app_ok_init: "app_ok (fst (app_init net c w))"
proof -
  have "app_ok \<lparr>client = c, products = [], balance_gr = 0, selected = 0, admin = False, running_app = True,
      server_down = False, mode = MODE_BROWSE, pending = PROMPT_NONE, prompt_label = [],
      prompt_buf = [], message = [], konami = replicate KONAMI_LEN 0, konami_pos = 0\<rparr>"
    by (simp add: app_ok_def PROMPT_BUF_LEN_def PROMPT_LABEL_LEN_def MSG_LEN_def)
  note this[THEN app_ok_refresh, of net w]
  moreover have "app_ok b \<Longrightarrow> app_ok (b\<lparr>message := []\<rparr>)" for b by (auto simp: app_ok_def)
  ultimately show ?thesis by (simp add: app_init_def Let_def split_beta)
qed

lemma app_ok_loop: "app_ok a \<Longrightarrow> app_ok (fst (tui_loop net ks a w))"
proof (induction ks arbitrary: a w)
  case (Cons k ks)
  show ?case using Cons.IH[OF app_ok_key[OF Cons.prems, of net k w]] Cons.prems by (simp add: split_beta Let_def)
qed simp

section \<open>Lemmas: the unlock code\<close>

lemma konami_shift:
  "length hist \<ge> KONAMI_LEN \<Longrightarrow> k = drop (length hist - KONAMI_LEN) hist \<Longrightarrow>
   tl k @ [key] = drop (Suc (length hist) - KONAMI_LEN) (hist @ [key])"
  by (simp add: Suc_diff_le drop_Suc tl_drop) (simp add: KONAMI_LEN_def)

text \<open>The ring of ten keys implements the code on the whole history of keys.\<close>

lemma feed_konami_code:
  assumes "code_rep a hist" and "code_step key hist = (hit, hist')"
  shows "code_rep (feed_konami key a) hist' \<and> admin (feed_konami key a) = (admin a \<noteq> hit)"
proof -
  let ?a = "if konami_pos a < KONAMI_LEN
      then a\<lparr>konami := (konami a)[konami_pos a := key], konami_pos := konami_pos a + 1\<rparr>
      else a\<lparr>konami := tl (konami a) @ [key]\<rparr>"
  have rep: "code_rep ?a (hist @ [key])"
  proof (cases "length hist < KONAMI_LEN")
    case True
    with assms(1) show ?thesis by (auto simp: code_rep_def take_Suc_conv_app_nth)
  next
    case False
    with assms(1) show ?thesis
      using konami_shift[of hist "konami a" key] by (auto simp: code_rep_def Suc_diff_le KONAMI_LEN_def)
  qed
  have full: "konami_pos ?a = KONAMI_LEN \<and> konami ?a = KONAMI_SEQ \<longleftrightarrow> hit"
    using rep assms(2) by (auto simp: code_rep_def code_step_def Let_def min_def split: if_splits)
  show ?thesis
  proof (cases hit)
    case True
    with full assms(2) rep show ?thesis
      unfolding feed_konami_def Let_def by (auto simp: code_rep_def code_step_def Let_def split: if_splits)
  next
    case False
    with full assms(2) rep show ?thesis
      unfolding feed_konami_def Let_def by (auto simp: code_step_def Let_def split: if_splits)
  qed
qed

section \<open>Lemmas: amounts\<close>

lemma zl_loop_range:
  "zl_loop zl seen s = Some (zl', seen', r) \<Longrightarrow> 0 \<le> zl \<Longrightarrow> zl \<le> 99999999 \<Longrightarrow> 0 \<le> zl' \<and> zl' \<le> 99999999"
  by (induction zl seen s rule: zl_loop.induct) (auto simp: Let_def split: if_splits)

lemma gr_loop_range: "gr_loop gr n s = Some (gr', n') \<Longrightarrow> 0 \<le> gr \<Longrightarrow> 0 \<le> gr'"
  by (induction gr n s rule: gr_loop.induct) (auto split: if_splits)

lemma parse_zl_range: "-1 \<le> parse_zl_to_gr s \<and> parse_zl_to_gr s \<le> INT_MAX"
  using zl_loop_range[of 0 False s] gr_loop_range[of 0 0]
  by (fastforce simp: parse_zl_to_gr_def Let_def split: option.splits if_splits prod.splits)

lemma pos_loop_range: "pos_loop v s = Some v' \<Longrightarrow> v \<le> INT_MAX \<Longrightarrow> v' \<le> INT_MAX"
  by (induction v s rule: pos_loop.induct) (auto simp: Let_def split: if_splits)

lemma parse_pos_int_range: "parse_pos_int s = -1 \<or> (0 < parse_pos_int s \<and> parse_pos_int s \<le> INT_MAX)"
  using pos_loop_range[of 0 s] by (auto simp: parse_pos_int_def split: option.splits)

lemma scan_digits_mono: "\<forall>c \<in> set ds. isdigit c \<Longrightarrow> v \<le> fst (scan_digits v ds)"
proof (induction ds arbitrary: v)
  case (Cons c ds)
  have "v \<le> 10 * v + digit_val c" by simp
  also have "\<dots> \<le> fst (scan_digits (10 * v + digit_val c) ds)" using Cons by simp
  finally show ?case using Cons.prems by simp
qed simp

lemma zl_loop_digits:
  "\<forall>c \<in> set ds. isdigit c \<Longrightarrow> fst (scan_digits v ds) \<le> 99999999 \<Longrightarrow>
   zl_loop (int v) seen (ds @ CHR ''.'' # r) = Some (int (fst (scan_digits v ds)), seen \<or> ds \<noteq> [], CHR ''.'' # r)"
proof (induction ds arbitrary: v seen)
  case (Cons c ds)
  let ?v = "10 * v + digit_val c"
  have c: "c \<noteq> CHR ''.''" "isdigit c" using Cons.prems by (auto simp: isdigit_def)
  have "?v \<le> 99999999" using Cons.prems scan_digits_mono[of ds ?v] by simp
  then have "int v * 10 + int (digit_val c) \<le> 99999999" "int v * 10 + int (digit_val c) = int ?v" by linarith+
  with Cons.IH[of ?v True] Cons.prems c show ?case by (simp add: mult.commute[of "int v"])
qed simp

lemma pos_loop_digits:
  "\<forall>c \<in> set ds. isdigit c \<Longrightarrow> int (fst (scan_digits v ds)) \<le> INT_MAX \<Longrightarrow>
   pos_loop (int v) ds = Some (int (fst (scan_digits v ds)))"
proof (induction ds arbitrary: v)
  case (Cons c ds)
  let ?v = "10 * v + digit_val c"
  have "int ?v \<le> INT_MAX" using Cons.prems scan_digits_mono[of ds ?v] by simp
  then have "int v * 10 + int (digit_val c) \<le> INT_MAX" "int v * 10 + int (digit_val c) = int ?v" by linarith+
  with Cons.IH[of ?v] Cons.prems show ?case by (simp add: mult.commute[of "int v"])
qed simp

lemma show_int02_digits:
  assumes "0 \<le> n" and "n < 100"
  shows "show_int02 n = [digit_chr (nat n div 10), digit_chr (nat n mod 10)]"
proof (cases "n < 10")
  case True
  with assms show ?thesis by (simp add: show_int02_def show_int_def show_nat.simps) (simp add: digit_chr_def)
next
  case False
  have "\<not> nat n < 10" "nat n div 10 < 10" using False assms by auto
  then show ?thesis using False assms by (simp add: show_int02_def show_int_def show_nat.simps)
qed

lemma gr_loop_two:
  assumes "0 \<le> n" and "n < 100"
  shows "gr_loop 0 0 (show_int02 n) = Some (n, 2)"
proof -
  have "nat n div 10 < 10" "nat n mod 10 < 10" using assms by auto
  moreover have "int (nat n div 10) * 10 + int (nat n mod 10) = n"
    using assms div_mult_mod_eq[of "nat n" 10] by linarith
  ultimately show ?thesis by (simp add: show_int02_digits[OF assms])
qed

lemma parse_fmt_money:
  assumes "0 \<le> gr" and "gr \<le> INT_MAX" and "13 \<le> n"
  shows "parse_zl_to_gr (app_fmt_money gr n) = gr"
proof -
  let ?z = "nat (gr div 100)"
  have z: "c_div gr 100 = int ?z" "c_mod gr 100 = gr mod 100" using assms by (simp_all add: pos_imp_zdiv_nonneg_iff)
  have nn: "0 \<le> gr div 100" using assms(1) by (simp add: pos_imp_zdiv_nonneg_iff)
  then have sz: "show_int (c_div gr 100) = show_nat ?z" using assms(1) by (simp add: show_int_def)
  have z8: "?z \<le> 99999999" using assms by linarith
  have "length (show_int (c_div gr 100)) \<le> 8"
    using z8 show_nat_length[of ?z 8] by (simp only: sz) simp
  moreover have two: "length (show_int02 (gr mod 100)) = 2" by (simp add: show_int02_digits)
  ultimately have fmt: "app_fmt_money gr n = show_nat ?z @ CHR ''.'' # show_int02 (gr mod 100)"
    using assms(3) by (simp only: app_fmt_money_def z(2) sz) (simp add: fill_buf_id)
  have "zl_loop 0 False (app_fmt_money gr n) = Some (int ?z, True, CHR ''.'' # show_int02 (gr mod 100))"
    using zl_loop_digits[OF show_nat_digits[of ?z], of 0 False] z8 unfolding fmt by (simp add: fst_scan_digits_show_nat)
  moreover have "gr_loop 0 0 (show_int02 (gr mod 100)) = Some (gr mod 100, 2)" by (rule gr_loop_two) auto
  moreover have "int ?z * 100 + gr mod 100 = gr" using nn by simp
  ultimately show ?thesis using assms(2) by (simp add: parse_zl_to_gr_def)
qed

lemma parse_show_pos_int: "0 < n \<Longrightarrow> n \<le> INT_MAX \<Longrightarrow> parse_pos_int (show_int n) = n"
  using pos_loop_digits[OF show_nat_digits[of "nat n"], of 0]
  by (simp add: parse_pos_int_def show_int_def fst_scan_digits_show_nat)

end
