(* ===== verification/Ui.thy ===== *)
theory Ui
  imports Tui_App
begin

text \<open>
  \<^verbatim>\<open>tui/src/ui.c\<close>, the drawing of the screen, and \<^verbatim>\<open>main\<close> of \<^verbatim>\<open>tui/src/tui.c\<close>. A frame is the list of the ncurses
  calls that the code makes; the size of the terminal is an argument. Strings are bytes of one column each.
  \<open>None\<close> is a read outside of the table of column colours.
\<close>

named_theorems ui_simps \<open>the calls that a drawing function makes\<close>

section \<open>The terminal\<close>

record screen =
  LINES :: int
  COLS :: int

text \<open>An attribute set: a colour pair (0 is the default), bold, dim.\<close>

record attr =
  color_pair :: nat
  bold :: bool
  dim :: bool

datatype glyph = Chr char | ACS_HLINE | ACS_VLINE | ACS_ULCORNER | ACS_URCORNER | ACS_LLCORNER | ACS_LRCORNER

datatype draw =
    Erase | Refresh | Attron attr | Attroff attr
  | Mvprintw int int string | Mvaddch int int glyph | Mvhline int int glyph int | Mvvline int int glyph int

abbreviation (input) CELL_W :: int where "CELL_W \<equiv> 10"
abbreviation (input) CELL_H :: int where "CELL_H \<equiv> 5"
abbreviation (input) GAP_X :: int where "GAP_X \<equiv> 1"

abbreviation (input) PAIR_RED :: nat where "PAIR_RED \<equiv> 1"
abbreviation (input) PAIR_SELECT :: nat where "PAIR_SELECT \<equiv> 2"
abbreviation (input) PAIR_G :: "nat \<Rightarrow> nat" where "PAIR_G n \<equiv> n + 2"
abbreviation (input) PAIR_AFFORD :: nat where "PAIR_AFFORD \<equiv> 10"

definition COLOR_PAIR :: "nat \<Rightarrow> attr" where
  "COLOR_PAIR n = \<lparr>color_pair = n, bold = False, dim = False\<rparr>"

definition BOLD_PAIR :: "nat \<Rightarrow> attr" where
  "BOLD_PAIR n = \<lparr>color_pair = n, bold = True, dim = False\<rparr>"

definition A_DIM :: attr where
  "A_DIM = \<lparr>color_pair = 0, bold = False, dim = True\<rparr>"

datatype color = COLOR_DEFAULT | COLOR_BLACK | COLOR_RED | COLOR_GREEN | COLOR_YELLOW | COLOR_BLUE | COLOR_MAGENTA | COLOR_CYAN | COLOR_WHITE

text \<open>The colour pairs that \<^verbatim>\<open>ui_init\<close> sets up on a terminal with colours: number, foreground, background.\<close>

definition ui_init :: "bool \<Rightarrow> (nat \<times> color \<times> color) list" where
  "ui_init has_colors =
     (if has_colors then
        [(PAIR_RED, COLOR_RED, COLOR_DEFAULT), (PAIR_SELECT, COLOR_BLACK, COLOR_CYAN),
         (PAIR_G 1, COLOR_RED, COLOR_DEFAULT), (PAIR_G 2, COLOR_YELLOW, COLOR_DEFAULT), (PAIR_G 3, COLOR_GREEN, COLOR_DEFAULT),
         (PAIR_G 4, COLOR_CYAN, COLOR_DEFAULT), (PAIR_G 5, COLOR_BLUE, COLOR_DEFAULT), (PAIR_G 6, COLOR_MAGENTA, COLOR_DEFAULT),
         (PAIR_G 7, COLOR_WHITE, COLOR_DEFAULT), (PAIR_AFFORD, COLOR_GREEN, COLOR_DEFAULT)]
      else [])"

text \<open>\<^verbatim>\<open>%-<n>.<n>s\<close> and \<^verbatim>\<open>%<n>s\<close>\<close>

definition ljust :: "nat \<Rightarrow> string \<Rightarrow> string" where
  "ljust n s = take n s @ replicate (n - length s) (CHR '' '')"

definition rjust :: "nat \<Rightarrow> string \<Rightarrow> string" where
  "rjust n s = replicate (n - length s) (CHR '' '') @ s"

section \<open>Drawing\<close>

definition center :: "int \<Rightarrow> nat \<Rightarrow> int" where
  "center width len = (let x = c_div (width - int len) 2 in if x < 0 then 0 else x)"

definition draw_centered :: "screen \<Rightarrow> int \<Rightarrow> string \<Rightarrow> draw list" where
  "draw_centered scr row s = [Mvprintw row (center (COLS scr) (length s)) s]"

definition draw_centered_colored :: "screen \<Rightarrow> int \<Rightarrow> string \<Rightarrow> attr \<Rightarrow> draw list" where
  "draw_centered_colored scr row s att =
     [Attron att, Mvprintw row (center (COLS scr) (length s)) s, Attroff att]"

definition draw_title :: "screen \<Rightarrow> draw list" where
  "draw_title scr =
     (let title = ''sshnack''; x = center (COLS scr) (length title); pairs = map PAIR_G [1, 2, 3, 4, 5, 6, 7]
      in concat (map (\<lambda>i. [Attron (BOLD_PAIR (pairs ! (i mod 7))), Mvaddch 1 (x + int i) (Chr (title ! i)),
                           Attroff (BOLD_PAIR (pairs ! (i mod 7)))]) [0..<length title]))"

definition draw_box :: "int \<Rightarrow> int \<Rightarrow> int \<Rightarrow> int \<Rightarrow> draw list" where
  "draw_box y x h w =
     [Mvhline y (x + 1) ACS_HLINE (w - 2), Mvhline (y + h - 1) (x + 1) ACS_HLINE (w - 2),
      Mvvline (y + 1) x ACS_VLINE (h - 2), Mvvline (y + 1) (x + w - 1) ACS_VLINE (h - 2),
      Mvaddch y x ACS_ULCORNER, Mvaddch y (x + w - 1) ACS_URCORNER,
      Mvaddch (y + h - 1) x ACS_LLCORNER, Mvaddch (y + h - 1) (x + w - 1) ACS_LRCORNER]"

definition col_pairs :: "nat list" where
  "col_pairs = map PAIR_G [2, 3, 4, 5, 6]"

definition col_pair_of :: "int \<Rightarrow> nat option" where
  "col_pair_of slot =
     (let i = c_mod (c_mod slot 10 - 1 + 5) 5 in if 0 \<le> i \<and> i < int (length col_pairs) then Some (col_pairs ! nat i) else None)"

definition price_line :: "int \<Rightarrow> string" where
  "price_line price = ljust 8 (fill_buf 32 (app_fmt_money price 16 @ '' zl''))"

definition qty_line :: "int \<Rightarrow> string" where
  "qty_line qty = ljust 8 (fill_buf 32 ('' x'' @ show_int qty))"

definition draw_cell :: "int \<Rightarrow> int \<Rightarrow> tui_product \<Rightarrow> bool \<Rightarrow> int \<Rightarrow> draw list option" where
  "draw_cell y x p sel balance =
     (case col_pair_of (tp_slot_id p) of
        None \<Rightarrow> None
      | Some col_pair \<Rightarrow>
          (let sold_out = (tp_stock_qty p \<le> 0);
               cell_attr = (if sel then BOLD_PAIR PAIR_SELECT else if sold_out then A_DIM else COLOR_PAIR col_pair);
               l1 = fill_buf 32 (show_int (tp_slot_id p) @ '' '' @ ljust 5 (tp_name p));
               head = [Attron cell_attr] @ draw_box y x CELL_H CELL_W @ [Mvprintw (y + 1) (x + 1) (ljust 8 l1), Attroff cell_attr]
           in Some (head @
             (if sold_out then
                [Attron A_DIM, Mvprintw (y + 2) (x + 1) (ljust 8 ''SOLD OUT''), Mvprintw (y + 3) (x + 1) (ljust 8 []), Attroff A_DIM]
              else if sel then
                [Attron (BOLD_PAIR PAIR_SELECT), Mvprintw (y + 2) (x + 1) (price_line (tp_price_gr p)),
                 Mvprintw (y + 3) (x + 1) (qty_line (tp_stock_qty p)), Attroff (BOLD_PAIR PAIR_SELECT)]
              else
                (let price_attr = (if tp_price_gr p \<le> balance then BOLD_PAIR PAIR_AFFORD else BOLD_PAIR PAIR_RED);
                     qty_attr = (if tp_stock_qty p \<le> 5 then BOLD_PAIR (PAIR_G 2) else COLOR_PAIR (PAIR_G 3))
                 in [Attron price_attr, Mvprintw (y + 2) (x + 1) (price_line (tp_price_gr p)), Attroff price_attr,
                     Attron qty_attr, Mvprintw (y + 3) (x + 1) (qty_line (tp_stock_qty p)), Attroff qty_attr])))))"

section \<open>The grid of products\<close>

record extent =
  minr :: int
  maxr :: int
  minc :: int
  maxc :: int

definition extend :: "extent \<Rightarrow> tui_product \<Rightarrow> extent" where
  "extend e p =
     (let (r, c) = app_slot_rowcol (tp_slot_id p)
      in \<lparr>minr = (if r < minr e then r else minr e), maxr = (if maxr e < r then r else maxr e),
          minc = (if c < minc e then c else minc e), maxc = (if maxc e < c then c else maxc e)\<rparr>)"

definition extent_of :: "tui_product list \<Rightarrow> extent" where
  "extent_of ps = foldl extend \<lparr>minr = 2 ^ 30, maxr = - (2 ^ 30), minc = 2 ^ 30, maxc = - (2 ^ 30)\<rparr> ps"

definition title_h :: int where "title_h = 3"

text \<open>The extent of the grid and its upper left corner; \<open>None\<close> when the terminal is too small.\<close>

definition grid :: "screen \<Rightarrow> tui_product list \<Rightarrow> (extent \<times> int \<times> int) option" where
  "grid scr ps =
     (let e = extent_of ps;
          rows = maxr e - minr e + 1;
          colsn = maxc e - minc e + 1;
          grid_w = colsn * CELL_W + (colsn - 1) * GAP_X;
          grid_h = rows * CELL_H;
          avail_h = (LINES scr - 4) - title_h
      in if COLS scr < grid_w \<or> avail_h < grid_h then None
         else let ox = c_div (COLS scr - grid_w) 2; ox = (if ox < 0 then 0 else ox);
                  oy = title_h + c_div (avail_h - grid_h) 2; oy = (if oy < title_h then title_h else oy)
              in Some (e, oy, ox))"

definition cell_pos :: "extent \<times> int \<times> int \<Rightarrow> tui_product \<Rightarrow> int \<times> int" where
  "cell_pos g p =
     (let (e, oy, ox) = g; (r, c) = app_slot_rowcol (tp_slot_id p)
      in (oy + (r - minr e) * CELL_H, ox + (c - minc e) * (CELL_W + GAP_X)))"

primrec grid_loop :: "extent \<times> int \<times> int \<Rightarrow> app_t \<Rightarrow> int \<Rightarrow> tui_product list \<Rightarrow> draw list option" where
  "grid_loop g a i [] = Some []"
| "grid_loop g a i (p # ps) =
     (let (cy, cx) = cell_pos g p in
      case draw_cell cy cx p (i = selected a) (balance_gr a) of
        None \<Rightarrow> None
      | Some ds \<Rightarrow> map_option (\<lambda>rest. ds @ rest) (grid_loop g a (i + 1) ps))"

definition draw_grid :: "screen \<Rightarrow> app_t \<Rightarrow> draw list option" where
  "draw_grid scr a =
     (if count a = 0 then Some (draw_centered scr (c_div (LINES scr) 2) ''Machine empty'')
      else case grid scr (products a) of
             None \<Rightarrow> Some (draw_centered scr (c_div (LINES scr) 2) ''Terminal too small'')
           | Some g \<Rightarrow> grid_loop g a 0 (products a))"

section \<open>The whole screen\<close>

definition detail_line :: "tui_product \<Rightarrow> string" where
  "detail_line p =
     fill_buf 128 (if tp_stock_qty p \<le> 0 then ''[ '' @ tp_name p @ '' | SOLD OUT ]''
                   else ''[ '' @ tp_name p @ '' | '' @ app_fmt_money (tp_price_gr p) 16 @ '' zl | x'' @ show_int (tp_stock_qty p) @ '' in stock ]'')"

definition draw_prompt :: "screen \<Rightarrow> app_t \<Rightarrow> draw list" where
  "draw_prompt scr a =
     (let pw = 40; ph = 5; px = center (COLS scr) 40; py = center (LINES scr) 5
      in map (\<lambda>yy. Mvhline (py + yy) px (Chr (CHR '' '')) pw) [0..4] @ draw_box py px ph pw @
         [Mvprintw (py + 1) (px + 2) (take 36 (prompt_label a)), Mvprintw (py + 2) (px + 2) (''> '' @ take 34 (prompt_buf a) @ ''_''),
          Mvprintw (py + 3) (px + 2) ''[Enter] confirm   [Esc] cancel''])"

definition ui_render :: "screen \<Rightarrow> app_t \<Rightarrow> draw list option" where
  "ui_render scr a =
     (if server_down a then
        Some ([Erase] @ draw_centered scr (c_div (LINES scr) 2 - 1) ''Cannot reach server'' @
              draw_centered scr (c_div (LINES scr) 2 + 1) ''[r] retry    [q] quit'' @ [Refresh])
      else map_option (\<lambda>middle.
        [Erase] @ draw_title scr @ middle @
        (if admin a then draw_centered_colored scr (LINES scr - 4) ''ADMIN'' (BOLD_PAIR PAIR_RED) else []) @
        draw_centered_colored scr (LINES scr - 3)
          (fill_buf 64 (''user #'' @ show_int (ac_user_id (client a)) @ ''    Balance: '' @ rjust 8 (app_fmt_money (balance_gr a) 16) @ '' zl''))
          (COLOR_PAIR (PAIR_G 7)) @
        (if 0 < count a \<and> 0 \<le> selected a \<and> selected a < count a
         then draw_centered_colored scr (LINES scr - 2) (detail_line (products a ! nat (selected a))) (BOLD_PAIR (PAIR_G 4)) else []) @
        draw_centered_colored scr (LINES scr - 1)
          (if admin a then ''re[s]tock  set [p]rice  [Esc] exit admin  [q]uit''
           else ''[Enter] buy  [d]eposit  [c]ashout  [r]efresh  [q]uit'') (COLOR_PAIR (PAIR_G 7)) @
        (if message a \<noteq> [] then draw_centered_colored scr 2 (message a) (BOLD_PAIR (PAIR_G 2)) else []) @
        (if mode a = MODE_PROMPT then draw_prompt scr a else []) @ [Refresh])
        (draw_grid scr a))"

section \<open>The program\<close>

text \<open>\<^verbatim>\<open>main\<close> on a sequence of keys: the exit status, the frames, and the state it ends in. While the program
  runs a frame is drawn before every key.\<close>

fun main_loop :: "'w net \<Rightarrow> screen \<Rightarrow> int list \<Rightarrow> app_t \<Rightarrow> 'w \<Rightarrow> draw list option list \<times> app_t \<times> 'w" where
  "main_loop net scr [] a w = ([], a, w)"
| "main_loop net scr (key # ks) a w =
     (if \<not> running_app a then ([], a, w)
      else let frame = ui_render scr a;
               (a, w) = app_handle_key net key a w;
               (frames, a, w) = main_loop net scr ks a w
           in (frame # frames, a, w))"

definition tui_main ::
    "'w net \<Rightarrow> bool \<Rightarrow> string list \<Rightarrow> (string \<Rightarrow> string option) \<Rightarrow> screen \<Rightarrow> int list \<Rightarrow> 'w \<Rightarrow>
     int \<times> draw list option list \<times> app_t option \<times> 'w" where
  "tui_main net curl argv getenv scr ks w =
     (let cfg = tui_load_config argv getenv;
          (st, c) = api_client_init curl (tc_base_url cfg) (tc_user_id cfg) (tc_admin_token cfg)
      in if st \<noteq> API_OK then (1, [], None, w)
         else let (a, w) = app_init net c w;
                  (frames, a, w) = main_loop net scr ks a w
              in (0, frames, Some ((app_free a)\<lparr>client := snd (api_client_cleanup (client a))\<rparr>), w))"

section \<open>Specifications\<close>

text \<open>The positions that a call writes to.\<close>

fun cells :: "draw \<Rightarrow> (int \<times> int) set" where
  "cells (Mvprintw y x s) = {y} \<times> {x..<x + int (length s)}"
| "cells (Mvaddch y x g) = {(y, x)}"
| "cells (Mvhline y x g n) = {y} \<times> {x..<x + n}"
| "cells (Mvvline y x g n) = {y..<y + n} \<times> {x}"
| "cells _ = {}"

definition rect :: "int \<times> int \<Rightarrow> int \<Rightarrow> int \<Rightarrow> (int \<times> int) set" where
  "rect pos h w = {fst pos..<fst pos + h} \<times> {snd pos..<snd pos + w}"

text \<open>Attributes are switched on one at a time and off again, the last of them before the end.\<close>

fun attrs_closed :: "attr option \<Rightarrow> draw list \<Rightarrow> bool" where
  "attrs_closed on [] \<longleftrightarrow> on = None"
| "attrs_closed on (Attron a # ds) \<longleftrightarrow> on = None \<and> attrs_closed (Some a) ds"
| "attrs_closed on (Attroff a # ds) \<longleftrightarrow> on = Some a \<and> attrs_closed None ds"
| "attrs_closed on (d # ds) \<longleftrightarrow> attrs_closed on ds"

definition pairs_known :: "draw list \<Rightarrow> bool" where
  "pairs_known ds \<longleftrightarrow> (\<forall>att. Attron att \<in> set ds \<longrightarrow> color_pair att = 0 \<or> color_pair att \<in> fst ` set (ui_init True))"

section \<open>Lemmas: attributes\<close>

lemma attrs_closed_append: "attrs_closed on xs \<Longrightarrow> attrs_closed None ys \<Longrightarrow> attrs_closed on (xs @ ys)"
  by (induction on xs rule: attrs_closed.induct) auto

lemma attrs_closed_Attron: "attrs_closed None (Attron a # ds) \<longleftrightarrow> attrs_closed (Some a) ds"
  by simp

lemma attrs_closed_plain: "\<forall>d \<in> set ds. (\<nexists>a. d = Attron a \<or> d = Attroff a) \<Longrightarrow> attrs_closed on (ds @ es) \<longleftrightarrow> attrs_closed on es"
  by (induction on ds rule: attrs_closed.induct) auto

lemma attrs_closed_draws [ui_simps]:
  "attrs_closed None (draw_centered scr row s)" "attrs_closed None (draw_centered_colored scr row s att)"
  "attrs_closed None (draw_title scr)" "attrs_closed on (draw_box y x h w @ ds) \<longleftrightarrow> attrs_closed on ds"
  "attrs_closed None (draw_prompt scr a)"
  by (simp_all add: draw_centered_def draw_centered_colored_def draw_title_def draw_box_def draw_prompt_def upt_rec upto_rec1 Let_def)

lemma draw_cell_attrs: "draw_cell y x p sel bal = Some ds \<Longrightarrow> attrs_closed None ds"
  by (auto simp: draw_cell_def Let_def ui_simps split: option.splits if_splits)

lemma grid_loop_attrs: "grid_loop g a i ps = Some ds \<Longrightarrow> attrs_closed None ds"
proof (induction ps arbitrary: i ds)
  case (Cons p ps)
  then show ?case by (auto split: option.splits prod.splits intro: attrs_closed_append[OF draw_cell_attrs])
qed simp

lemma draw_grid_attrs: "draw_grid scr a = Some ds \<Longrightarrow> attrs_closed None ds"
  by (auto simp: draw_grid_def ui_simps split: if_splits option.splits dest: grid_loop_attrs)

lemma ui_render_attrs:
  assumes "ui_render scr a = Some ds"
  shows "attrs_closed None ds"
proof (cases "server_down a")
  case True
  with assms show ?thesis by (auto simp: ui_render_def draw_centered_def)
next
  case False
  with assms obtain middle where m: "draw_grid scr a = Some middle" by (auto simp: ui_render_def)
  with assms False show ?thesis
    using draw_grid_attrs[OF m] by (auto simp: ui_render_def ui_simps intro!: attrs_closed_append)
qed

section \<open>Lemmas: the colours\<close>

lemma pairs_known_iff: "pairs_known ds \<longleftrightarrow> (\<forall>att. Attron att \<in> set ds \<longrightarrow> color_pair att \<le> 10)"
proof -
  have "n = 0 \<or> n \<in> fst ` set (ui_init True) \<longleftrightarrow> n \<le> 10" for n :: nat
    by (auto simp: ui_init_def) presburger
  then show ?thesis by (simp add: pairs_known_def)
qed

lemma pairs_known_simps [simp]:
  "pairs_known []"
  "pairs_known (d # ds) \<longleftrightarrow> (case d of Attron att \<Rightarrow> color_pair att \<le> 10 | _ \<Rightarrow> True) \<and> pairs_known ds"
  "pairs_known (if b then xs else ys) \<longleftrightarrow> (if b then pairs_known xs else pairs_known ys)"
  by (auto simp: pairs_known_iff split: draw.splits)

lemma pairs_known_append [simp]: "pairs_known (xs @ ys) \<longleftrightarrow> pairs_known xs \<and> pairs_known ys"
  by (auto simp: pairs_known_def)

lemma pairs_known_draws [ui_simps]:
  "pairs_known (draw_centered scr row s)" "pairs_known (draw_title scr)" "pairs_known (draw_prompt scr a)"
  "color_pair att \<le> 10 \<Longrightarrow> pairs_known (draw_centered_colored scr row s att)"
  by (auto simp: pairs_known_iff draw_centered_def draw_centered_colored_def draw_title_def draw_box_def draw_prompt_def
      BOLD_PAIR_def upt_rec Let_def)

lemma draw_cell_pairs: "draw_cell y x p sel bal = Some ds \<Longrightarrow> pairs_known ds"
proof -
  assume d: "draw_cell y x p sel bal = Some ds"
  then obtain n where n: "col_pair_of (tp_slot_id p) = Some n" by (auto simp: draw_cell_def split: option.splits)
  then have "n \<in> set col_pairs" by (auto simp: col_pair_of_def Let_def split: if_splits)
  then have "n \<le> 10" by (auto simp: col_pairs_def)
  with d n show ?thesis
    by (auto simp: pairs_known_iff draw_cell_def Let_def draw_box_def BOLD_PAIR_def COLOR_PAIR_def A_DIM_def split: if_splits)
qed

lemma grid_loop_pairs: "grid_loop g a i ps = Some ds \<Longrightarrow> pairs_known ds"
proof (induction ps arbitrary: i ds)
  case (Cons p ps)
  then show ?case by (auto split: option.splits prod.splits dest: draw_cell_pairs)
qed (simp add: pairs_known_def)

lemma ui_render_pairs:
  assumes "ui_render scr a = Some ds"
  shows "pairs_known ds"
proof (cases "server_down a")
  case True
  with assms show ?thesis by (auto simp: ui_render_def draw_centered_def)
next
  case False
  with assms obtain middle where m: "draw_grid scr a = Some middle" by (auto simp: ui_render_def)
  then have "pairs_known middle"
    by (auto simp: draw_grid_def ui_simps split: if_splits option.splits dest: grid_loop_pairs)
  then have "pairs_known (the (ui_render scr a))"
    using False by (simp add: ui_render_def m ui_simps BOLD_PAIR_def COLOR_PAIR_def)
  with assms show ?thesis by simp
qed

lemma col_pair_of_Some: "-5 < c_mod slot 10 \<Longrightarrow> \<exists>n. col_pair_of slot = Some n"
proof -
  assume "-5 < c_mod slot 10"
  then have "0 \<le> c_mod slot 10 - 1 + 5" by simp
  from c_mod_nonneg[OF this, of 5] show ?thesis by (simp add: col_pair_of_def col_pairs_def Let_def)
qed

lemma grid_loop_Some: "\<forall>p \<in> set ps. -5 < c_mod (tp_slot_id p) 10 \<Longrightarrow> \<exists>ds. grid_loop g a i ps = Some ds"
proof (induction ps arbitrary: i)
  case (Cons p ps)
  then obtain n where "col_pair_of (tp_slot_id p) = Some n" using col_pair_of_Some[of "tp_slot_id p"] by auto
  moreover from Cons obtain ds where "grid_loop g a (i + 1) ps = Some ds" by auto
  ultimately show ?case by (auto simp: draw_cell_def Let_def split: prod.splits)
qed simp

lemma ui_render_Some:
  assumes "\<forall>p \<in> set (products a). -5 < c_mod (tp_slot_id p) 10"
  shows "\<exists>ds. ui_render scr a = Some ds"
proof -
  have "\<exists>ds. draw_grid scr a = Some ds"
    using grid_loop_Some[OF assms] by (auto simp: draw_grid_def split: option.splits)
  then show ?thesis by (auto simp: ui_render_def)
qed

section \<open>Lemmas: the layout\<close>

lemma length_ljust [simp]: "length (ljust n s) = n"
  by (simp add: ljust_def)

lemma draw_cell_inside:
  assumes "draw_cell y x p sel bal = Some ds" and "d \<in> set ds"
  shows "cells d \<subseteq> rect (y, x) CELL_H CELL_W"
proof -
  have "length (price_line n) = 8" "length (qty_line n) = 8" for n by (simp_all add: price_line_def qty_line_def)
  then show ?thesis using assms
    by (auto simp: draw_cell_def Let_def draw_box_def rect_def split: option.splits if_splits)
qed

lemma extend_bounds:
  "minr (extend e p) \<le> minr e" "maxr e \<le> maxr (extend e p)" "minc (extend e p) \<le> minc e" "maxc e \<le> maxc (extend e p)"
  "app_slot_rowcol (tp_slot_id p) = (r, c) \<Longrightarrow>
     minr (extend e p) \<le> r \<and> r \<le> maxr (extend e p) \<and> minc (extend e p) \<le> c \<and> c \<le> maxc (extend e p)"
  by (auto simp: extend_def Let_def split: prod.splits)

lemma foldl_extend:
  "minr (foldl extend e ps) \<le> minr e \<and> maxr e \<le> maxr (foldl extend e ps) \<and>
   minc (foldl extend e ps) \<le> minc e \<and> maxc e \<le> maxc (foldl extend e ps)"
proof (induction ps arbitrary: e)
  case (Cons p ps)
  then show ?case using Cons[of "extend e p"] extend_bounds(1-4)[of e p] by (auto intro: order_trans)
qed simp

lemma extent_of_bounds:
  assumes "p \<in> set ps" and "app_slot_rowcol (tp_slot_id p) = (r, c)"
  shows "minr (extent_of ps) \<le> r \<and> r \<le> maxr (extent_of ps) \<and> minc (extent_of ps) \<le> c \<and> c \<le> maxc (extent_of ps)"
proof -
  obtain xs ys where ps: "ps = xs @ p # ys" using assms(1) by (meson split_list)
  let ?e = "foldl extend \<lparr>minr = 2 ^ 30, maxr = - (2 ^ 30), minc = 2 ^ 30, maxc = - (2 ^ 30)\<rparr> xs"
  show ?thesis
    using foldl_extend[of "extend ?e p" ys] extend_bounds(5)[OF assms(2), of ?e] by (auto simp: extent_of_def ps)
qed

lemma cell_inside_screen:
  assumes "grid scr ps = Some g" and "p \<in> set ps"
  shows "rect (cell_pos g p) CELL_H CELL_W \<subseteq> {title_h..<LINES scr - 4} \<times> {0..<COLS scr}"
proof -
  obtain r c where rc: "app_slot_rowcol (tp_slot_id p) = (r, c)" by fastforce
  define e where "e = extent_of ps"
  note e = extent_of_bounds[OF assms(2) rc, folded e_def]
  let ?gw = "(maxc e - minc e + 1) * 10 + (maxc e - minc e) * 1" and ?gh = "(maxr e - minr e + 1) * 5"
  let ?ah = "LINES scr - 4 - title_h"
  from assms(1) have fits: "?gw \<le> COLS scr" "?gh \<le> ?ah"
    and g: "g = (e, title_h + (?ah - ?gh) div 2, (COLS scr - ?gw) div 2)"
    by (auto simp: grid_def Let_def e_def split: if_splits)
  have "0 \<le> (?ah - ?gh) div 2" "(?ah - ?gh) div 2 \<le> ?ah - ?gh" "0 \<le> (COLS scr - ?gw) div 2" "(COLS scr - ?gw) div 2 \<le> COLS scr - ?gw"
    using fits by auto
  moreover have "0 \<le> (r - minr e) * 5" "(r - minr e) * 5 + 5 \<le> ?gh" "0 \<le> (c - minc e) * 11" "(c - minc e) * 11 + 10 \<le> ?gw"
    using e by auto
  ultimately show ?thesis by (auto simp: rect_def cell_pos_def rc g)
qed

lemma slot_of_rowcol: "app_slot_rowcol slot = (r, c) \<Longrightarrow> slot = 10 * r + c"
  by (auto simp: app_slot_rowcol_def c_mod_def)

lemma cells_apart:
  assumes "tp_slot_id p \<noteq> tp_slot_id q"
  shows "rect (cell_pos g p) CELL_H CELL_W \<inter> rect (cell_pos g q) CELL_H CELL_W = {}"
proof -
  obtain e oy ox where g: "g = (e, oy, ox)" by (cases g)
  obtain r c where p: "app_slot_rowcol (tp_slot_id p) = (r, c)" by fastforce
  obtain r' c' where q: "app_slot_rowcol (tp_slot_id q) = (r', c')" by fastforce
  from assms slot_of_rowcol[OF p] slot_of_rowcol[OF q] consider "r < r'" | "r' < r" | "c < c'" | "c' < c" by fastforce
  then show ?thesis by cases (auto simp: rect_def cell_pos_def p q g)
qed

end
