(* ===== verification/End_To_End.thy ===== *)
theory End_To_End
  imports Wire Tui_App
begin

text \<open>
  From the tables of the server to the screen of the client: the JSON that the server's handlers write is
  the text of trees that the client's parser reads back, so that a refresh of the terminal program shows
  what the machine holds.
\<close>

section \<open>The trees behind the answers\<close>

definition json_num :: "int \<Rightarrow> cJSON" where
  "json_num n = cJSON_Number (Finite (of_int n)) n"

definition product_tree :: "product_t \<Rightarrow> cJSON" where
  "product_tree p = cJSON_Object
     [(''slot_id'', json_num (slot_id p)), (''item_id'', json_num (p_item_id p)), (''name'', cJSON_String (p_name p)),
      (''price_gr'', json_num (price_gr p)), (''stock_qty'', json_num (stock_qty p))]"

text \<open>A product of the server as the client keeps it.\<close>

definition shown :: "product_t \<Rightarrow> tui_product" where
  "shown p = \<lparr>tp_slot_id = slot_id p, tp_item_id = p_item_id p, tp_price_gr = price_gr p, tp_stock_qty = stock_qty p, tp_name = p_name p\<rparr>"

lemma stock_tree_text:
  assumes "\<forall>p \<in> set ps. plain_text (p_name p)"
  shows "text_of (cJSON_Array (map product_tree ps)) = stock_json ps"
proof -
  have "text_of (product_tree p) = product_json p" if "plain_text (p_name p)" for p
    using escaped_plain[OF that] by (simp add: product_tree_def product_json_def json_num_def escape_of_def)
  then have "map text_of (map product_tree ps) = map product_json ps" using assms by simp
  then show ?thesis unfolding stock_json_def text_of.simps by (simp only:)
qed

lemma readable_num: "readable n (json_num i) \<longleftrightarrow> is_int32 i"
  by (simp add: json_num_def)

lemma readable_product:
  assumes "plain_text (p_name p)" and "is_int32 (slot_id p)" and "is_int32 (p_item_id p)" and "is_int32 (price_gr p)" and "is_int32 (stock_qty p)"
  shows "readable (Suc n) (product_tree p)"
  using assms by (simp add: product_tree_def readable_num plain_text_no_nul)

lemma json_product_tree:
  assumes "length (p_name p) < 64"
  shows "json_product (product_tree p) = shown p"
  using assms
  by (simp add: json_product_def product_tree_def cJSON_GetObjectItem_def get_object_item_def child_def same_name_def
      tolower_def json_int_def json_num_def cJSON_IsNumber_def cJSON_IsString_def fill_buf_id shown_def)

section \<open>Answers that arrive\<close>

text \<open>A memory that is not exhausted, and a network that hands over the body of an answer with status 200.\<close>

definition mem_ok :: "'w net \<Rightarrow> bool" where
  "mem_ok net \<longleftrightarrow> (\<forall>w. (\<forall>x \<in> set (fst (json_allocs net w)). x) \<and> fst (calloc_ok net w))"

definition get_call :: "api_client_t \<Rightarrow> string \<Rightarrow> http_call" where
  "get_call c path = \<lparr>hc_method = ''GET'', hc_url = fill_buf 512 (ac_base_url c @ path), hc_body = None,
     hc_headers = [fill_buf 200 (''Authorization: Bearer '' @ show_int (ac_user_id c))]\<rparr>"

definition answers :: "'w net \<Rightarrow> http_call \<Rightarrow> int \<Rightarrow> string \<Rightarrow> bool" where
  "answers net hc status body \<longleftrightarrow> (\<forall>w. \<exists>chunks w'. perform net hc w = (Some (status, chunks), w') \<and>
     concat (map fst chunks) = body \<and> (\<forall>c \<in> set chunks. snd c))"

text \<open>The network hands over what the server put on the socket: its status code and its body.\<close>

definition status_lines :: "(int \<times> string) list" where
  "status_lines = [(200, ''200 OK''), (400, ''400 Bad Request''), (401, ''401 Unauthorized''), (403, ''403 Forbidden''),
     (404, ''404 Not Found''), (500, ''500 Internal Server Error'')]"

definition delivers :: "'w net \<Rightarrow> http_call \<Rightarrow> sock_event list \<Rightarrow> bool" where
  "delivers net hc acts \<longleftrightarrow> (\<exists>(status, line) \<in> set status_lines. \<exists>body.
     acts = [SockSend (Sent (json_response line body)), SockClose] \<and> answers net hc status body)"

lemma json_response_inj: "json_response st b1 = json_response st b2 \<Longrightarrow> b1 = b2"
proof -
  let ?rest = "\<lambda>b. show_nat (length b) @ crlf @ crlf @ b"
  assume "json_response st b1 = json_response st b2"
  then have "dropWhile isdigit (?rest b1) = dropWhile isdigit (?rest b2)" by (simp add: json_response_def)
  moreover have "dropWhile isdigit (?rest b) = crlf @ crlf @ b" for b
    using show_nat_digits by (intro dropWhile_append_stop) (auto simp: isdigit_def)
  ultimately show ?thesis by simp
qed

lemma delivers_ok:
  assumes "delivers net hc [SockSend (Sent (json_response ''200 OK'' body)), SockClose]"
  shows "answers net hc 200 body"
proof -
  obtain status line b where b: "(status, line) \<in> set status_lines" "json_response ''200 OK'' body = json_response line b" "answers net hc status b"
    using assms by (auto simp: delivers_def)
  then have "line = ''200 OK'' \<and> status = 200" by (auto simp: status_lines_def json_response_def)
  then show ?thesis using b json_response_inj by blast
qed

lemma delivers_200:
  "answers net hc 200 body \<Longrightarrow> delivers net hc [SockSend (Sent (json_response ''200 OK'' body)), SockClose]"
  by (auto simp: delivers_def status_lines_def)

lemma write_cb_ok: "\<forall>c \<in> set chunks. snd c \<Longrightarrow> write_cb data chunks = Some (data @ concat (map fst chunks))"
  by (induction data chunks rule: write_cb.induct) auto

lemma do_request_answers:
  assumes "answers net (get_call c path) 200 body"
  shows "\<exists>w'. do_request net c ''GET'' path None False w = ((API_OK, body, 200), w')"
  using assms by (auto simp: answers_def get_call_def do_request_def write_cb_ok dest!: spec[of _ w])

lemma parse_json_reads:
  assumes "mem_ok net" and "readable CJSON_NESTING_LIMIT v"
  shows "\<exists>w'. parse_json net (text_of v) w = (Some v, w')"
proof -
  obtain hs w' where hs: "json_allocs net w = (hs, w')" by fastforce
  moreover have "\<forall>x \<in> set (fst (json_allocs net w)). x" using assms(1) unfolding mem_ok_def by blast
  ultimately obtain b where "cJSON_Parse (text_of v) hs = Tree v b" using cJSON_Parse_reads[OF assms(2), of hs] by auto
  then show ?thesis by (simp add: parse_json_def hs)
qed

lemma get_stock_shows:
  assumes "mem_ok net" and "answers net (get_call c ''/stock'') 200 (stock_json ps)"
    and "\<forall>p \<in> set ps. readable (CJSON_NESTING_LIMIT - 1) (product_tree p) \<and> length (p_name p) < 64 \<and> plain_text (p_name p)"
  shows "\<exists>w'. api_get_stock net c w = ((API_OK, map shown ps), w')"
proof -
  let ?v = "cJSON_Array (map product_tree ps)"
  have "readable CJSON_NESTING_LIMIT ?v" using assms(3) by (simp add: CJSON_NESTING_LIMIT_def)
  then obtain w2 where w2: "\<And>w1. \<exists>w2. parse_json net (stock_json ps) w1 = (Some ?v, w2)"
    using parse_json_reads[OF assms(1)] stock_tree_text[of ps] assms(3) by metis
  obtain w1 where w1: "do_request net c ''GET'' ''/stock'' None False w = ((API_OK, stock_json ps, 200), w1)"
    using do_request_answers[OF assms(2)] by blast
  obtain w2 where w2: "parse_json net (stock_json ps) w1 = (Some ?v, w2)" using w2 by blast
  obtain w3 where w3: "calloc_ok net w2 = (True, w3)" using assms(1) by (metis mem_ok_def prod.collapse)
  have "map (json_product \<circ> snd) (child ?v) = map shown ps" using assms(3) by (simp add: child_def json_product_tree)
  then show ?thesis using w1 w2 w3 by (simp add: api_get_stock_def cJSON_IsArray_def)
qed

lemma number_call_shows:
  assumes "mem_ok net" and "answers net (get_call c path) 200 (''{'' @ CHR 0x22 # field @ [CHR 0x22, CHR '':''] @ show_int n @ ''}'')"
    and "is_int32 n" and "plain_text field"
  shows "\<exists>w'. number_call net c ''GET'' path field w = ((API_OK, Some n), w')"
proof -
  let ?v = "cJSON_Object [(field, json_num n)]"
  have t: "text_of ?v = ''{'' @ CHR 0x22 # field @ [CHR 0x22, CHR '':''] @ show_int n @ ''}''"
    using escaped_plain[OF assms(4)] by (simp add: json_num_def)
  have "readable CJSON_NESTING_LIMIT ?v" using assms(3,4) by (simp add: CJSON_NESTING_LIMIT_def readable_num plain_text_no_nul)
  note parse = parse_json_reads[OF assms(1) this, unfolded t]
  obtain w1 where w1: "do_request net c ''GET'' path None False w = ((API_OK, ''{'' @ CHR 0x22 # field @ [CHR 0x22, CHR '':''] @ show_int n @ ''}'', 200), w1)"
    using do_request_answers[OF assms(2)] by blast
  obtain w2 where w2: "parse_json net (''{'' @ CHR 0x22 # field @ [CHR 0x22, CHR '':''] @ show_int n @ ''}'') w1 = (Some ?v, w2)" using parse by blast
  have "case_insensitive_strcmp field field = 0" by (induction field) auto
  then have "cJSON_GetObjectItem ?v field = Some (json_num n)"
    by (simp add: cJSON_GetObjectItem_def get_object_item_def child_def same_name_def)
  then show ?thesis using w1 w2 by (simp add: number_call_def json_num_def cJSON_IsNumber_def)
qed

section \<open>What the server sends\<close>

lemma wire_fits_get:
  assumes "0 < uid" and "uid \<le> INT_MAX"
  shows "wire_fits ''/stock'' (show_int uid) []" "wire_fits ''/balance'' (show_int uid) []"
  using assms show_int_length_nonneg[of uid] show_int_plain
  by (auto simp: wire_fits_def MAX_PATH_LEN_def BEARER_SIZE_def isspace_def)

lemma served_stock:
  assumes "sqlite_contract sql_sem sq view faulty" and "txn (view db) = None" and "\<not> faulty db"
    and "machine_limits (committed (view db))" and "length (stock (committed (view db))) < fuel"
    and "wire_headers hs1 hs2" and "0 < uid" and "uid \<le> INT_MAX"
    and "run sq (handle_client router_tree fuel saved (Some cl) (print_request GET ''/stock'' hs1 (show_int uid) hs2 [])) db = (acts, db')"
  shows "view db' = view db \<and>
    acts = [SockSend (Sent (json_response ''200 OK'' (stock_json (map product_of (join_rows (committed (view db))))))), SockClose]"
proof -
  let ?req = "\<lparr>req_method = Some GET, req_path = ''/stock'', req_body = [], req_auth = auth_parse (show_int uid) (admin_token (c_ctx cl))\<rparr>"
  have "handle_client router_tree fuel saved (Some cl) (print_request GET ''/stock'' hs1 (show_int uid) hs2 []) =
      call (handle_get_stock fuel ?req) (\<lambda>out. Ret [SockSend out, SockClose])"
    unfolding client_request[OF assms(6) wire_fits_get(1)[OF assms(7,8)]]
    by (simp add: dispatch_def search_router route_segments route_spec_def stock_handler_t_def no_handler_def)
  with assms(9) obtain out where out: "run sq (handle_get_stock fuel ?req) db = (out, db')" "acts = [SockSend out, SockClose]"
    by (auto simp: run_call split: prod.splits)
  from sqlite_contract.run_wp[OF assms(1) wp_get_stock[OF assms(2,4,5)] this(1), of False] assms(3) show ?thesis
    using out(2) by auto
qed

lemma served_balance:
  assumes "sqlite_contract sql_sem sq view faulty" and "txn (view db) = None" and "\<not> faulty db"
    and "map_of (users (committed (view db))) uid = Some u" and "is_int32 (u_balance u)"
    and "wire_headers hs1 hs2" and "0 < uid" and "uid \<le> INT_MAX" and "show_int uid \<noteq> admin_token (c_ctx cl)"
    and "run sq (handle_client router_tree fuel saved (Some cl) (print_request GET ''/balance'' hs1 (show_int uid) hs2 [])) db = (acts, db')"
  shows \<open>view db' = view db \<and>
    acts = [SockSend (Sent (json_response ''200 OK'' (''{"balance_gr":'' @ show_int (u_balance u) @ ''}''))), SockClose]\<close>
proof -
  let ?req = "\<lparr>req_method = Some GET, req_path = ''/balance'', req_body = [], req_auth = auth_parse (show_int uid) (admin_token (c_ctx cl))\<rparr>"
  have "handle_client router_tree fuel saved (Some cl) (print_request GET ''/balance'' hs1 (show_int uid) hs2 []) =
      call (handle_get_balance ?req) (\<lambda>out. Ret [SockSend out, SockClose])"
    unfolding client_request[OF assms(6) wire_fits_get(2)[OF assms(7,8)]]
    by (simp add: dispatch_def search_router route_segments route_spec_def balance_handler_t_def no_handler_def)
  with assms(10) obtain out where out: "run sq (handle_get_balance ?req) db = (out, db')" "acts = [SockSend out, SockClose]"
    by (auto simp: run_call split: prod.splits)
  then obtain res db1 where res: "run sq (balance_get uid) db = (res, db1)" by fastforce
  have "view db1 = view db \<and> res = (0, Some (u_balance u))"
    using sqlite_contract.run_wp[OF assms(1) wp_balance_get[OF assms(2)] res, of False] assms(3-5)
    by (auto simp: get_post_def wrap32_id)
  then show ?thesis
    using out res assms(5,7-9) show_int_length[OF assms(5)]
    by (auto simp: handle_get_balance_def auth_parse_user run_call BALANCE_NOT_FOUND_def fill_buf_id send_json_balance_def small_response)
qed

section \<open>A refresh\<close>

definition plain_names :: "tables \<Rightarrow> bool" where
  "plain_names t \<longleftrightarrow> (\<forall>p \<in> set (items t). plain_text (i_name (snd p)))"

lemma product_of_readable:
  assumes "plain_names t" and "p \<in> set (join_rows t)"
  shows "readable (CJSON_NESTING_LIMIT - 1) (product_tree (product_of p)) \<and> length (p_name (product_of p)) < 64 \<and>
    plain_text (p_name (product_of p))"
proof -
  obtain k where "(k, snd (snd p)) \<in> set (items t)" using join_rows_sub[OF assms(2)] by blast
  then have "plain_text (i_name (snd (snd p)))" using assms(1) by (force simp: plain_names_def)
  moreover have n: "p_name (product_of p) = fill_buf MAX_NAME_LEN (i_name (snd (snd p)))"
    by (cases p) (simp add: product_of_def row_product_def product_cols_def)
  ultimately have pl: "plain_text (p_name (product_of p))" by (auto simp: plain_text_def fill_buf_def dest: in_set_takeD)
  have "CJSON_NESTING_LIMIT - 1 = Suc 998" by (simp add: CJSON_NESTING_LIMIT_def)
  with pl have "readable (CJSON_NESTING_LIMIT - 1) (product_tree (product_of p))"
    unfolding product_of_def by (simp only:) (intro readable_product row_product_range; simp)
  moreover have "length (p_name (product_of p)) < 64"
    unfolding n by (auto simp: fill_buf_def MAX_NAME_LEN_def)
  ultimately show ?thesis using pl by blast
qed

lemma refresh_shows:
  assumes "mem_ok net" and "plain_names t" and "is_int32 n"
    and "answers net (get_call (client a) ''/stock'') 200 (stock_json (map product_of (join_rows t)))"
    and \<open>answers net (get_call (client a) ''/balance'') 200 (''{"balance_gr":'' @ show_int n @ ''}'')\<close>
  shows "case app_refresh net a w of (a', w') \<Rightarrow>
    products a' = map (shown \<circ> product_of) (join_rows t) \<and> balance_gr a' = n \<and> \<not> server_down a' \<and> message a' = message a"
proof -
  have "\<forall>p \<in> set (map product_of (join_rows t)). readable (CJSON_NESTING_LIMIT - 1) (product_tree p) \<and> length (p_name p) < 64 \<and> plain_text (p_name p)"
    using product_of_readable[OF assms(2)] by simp
  from get_stock_shows[OF assms(1,4) this] obtain w1 where
    w1: "api_get_stock net (client a) w = ((API_OK, map shown (map product_of (join_rows t))), w1)" by blast
  have "plain_text ''balance_gr''" by (simp add: plain_text_def escape_of_def)
  then obtain w2 where w2: "api_get_balance net (client a) w1 = ((API_OK, Some n), w2)"
    using number_call_shows[OF assms(1) _ assms(3), of "client a" "''/balance''" "''balance_gr''" w1] assms(5)
    by (auto simp: api_get_balance_def)
  show ?thesis using w1 w2 by (simp add: app_refresh_def Let_def)
qed

end
