(* ===== verification/Ssh_Gate.thy ===== *)
theory Ssh_Gate
  imports End_To_End
begin

text \<open>
  The SSH gate: \<^verbatim>\<open>ssh/authencesn.py\<close>, which the SSH daemon runs for every offered key, and
  \<^verbatim>\<open>ssh/entrypoint.sh\<close>, which writes the environment that it reads. The gate asks the server for the
  account of the key's fingerprint and prints an \<^verbatim>\<open>authorized_keys\<close> line whose forced command starts the
  terminal program for that account. The Python package \<^verbatim>\<open>requests\<close> and the SSH daemon are parameters.

  Text is in the ASCII range. Diagnostics on \<^verbatim>\<open>stderr\<close> are the numbers of the failed attempts.
\<close>

section \<open>Python\<close>

text \<open>\<^verbatim>\<open>str.strip\<close>, and \<^verbatim>\<open>or\<close> on strings: an empty string counts as false, as \<^verbatim>\<open>None\<close> does.\<close>

definition py_space :: "char \<Rightarrow> bool" where
  "py_space c \<longleftrightarrow> isspace c \<or> 0x1C \<le> (of_char c :: nat) \<and> (of_char c :: nat) \<le> 0x1F"

definition py_strip :: "string \<Rightarrow> string" where
  "py_strip s = rev (dropWhile py_space (rev (dropWhile py_space s)))"

definition py_or :: "string option \<Rightarrow> string option \<Rightarrow> string option" where
  "py_or a b = (case a of Some s \<Rightarrow> if s \<noteq> [] then a else b | None \<Rightarrow> b)"

text \<open>A value out of a JSON text: an integer, a string, or any other object with the text that \<^verbatim>\<open>str\<close>
  gives for it and, if it is a dictionary, its items.\<close>

datatype py_value = PyInt int | PyStr string | PyObj string "(string \<times> py_value) list option"

fun py_str :: "py_value \<Rightarrow> string" where
  "py_str (PyInt n) = show_int n"
| "py_str (PyStr s) = s"
| "py_str (PyObj s _) = s"

text \<open>What \<^verbatim>\<open>requests.post\<close> comes to: an exception (one of those that the gate catches, or another), or an
  answer: whether \<^verbatim>\<open>raise_for_status\<close> raises, and what \<^verbatim>\<open>json\<close> returns, \<open>None\<close> when it raises
  \<^verbatim>\<open>ValueError\<close>.\<close>

datatype posted = Raised bool | Answer bool "py_value option"

section \<open>\<open>entrypoint.sh\<close>\<close>

text \<open>The lines appended to \<^verbatim>\<open>/etc/environment\<close>; an unset variable expands to nothing. (Values are taken
  to have no line end, and no backslash, which \<^verbatim>\<open>echo\<close> of \<^verbatim>\<open>sh\<close> would interpret.)\<close>

definition entrypoint :: "(string \<Rightarrow> string option) \<Rightarrow> string list \<Rightarrow> string list" where
  "entrypoint env file =
     file @ map (\<lambda>k. k @ ''='' @ (case env k of Some v \<Rightarrow> v | None \<Rightarrow> []) @ [CHR 0x0A])
       [''SSHNACK_SERVER_URL'', ''SSHNACK_INTERNAL_URL'', ''SSHNACK_USER_ID'', ''SSHNACK_ADMIN_TOKEN'']"

section \<open>\<open>authencesn.py\<close>\<close>

abbreviation (input) MAX_ATTEMPTS :: nat where "MAX_ATTEMPTS \<equiv> 5"
abbreviation (input) RETRY_DELAY :: nat where "RETRY_DELAY \<equiv> 2"

text \<open>The lines of the file with their line ends; \<open>None\<close> is an \<^verbatim>\<open>OSError\<close>.\<close>

fun read_env_lines :: "string \<Rightarrow> string list \<Rightarrow> string option" where
  "read_env_lines key [] = None"
| "read_env_lines key (line # rest) =
     (if take (length key + 1) line = key @ ''=''
      then Some (py_strip (tl (dropWhile (\<lambda>c. c \<noteq> CHR ''='') line)))
      else read_env_lines key rest)"

definition read_env_file :: "string \<Rightarrow> string list option \<Rightarrow> string option" where
  "read_env_file key file = (case file of None \<Rightarrow> None | Some lines \<Rightarrow> read_env_lines key lines)"

definition lookup_url :: "(string \<Rightarrow> string option) \<Rightarrow> string list option \<Rightarrow> string option" where
  "lookup_url env file =
     (let internal_url = py_or (env ''SSHNACK_INTERNAL_URL'') (read_env_file ''SSHNACK_INTERNAL_URL'' file);
          server_url = py_or (env ''SSHNACK_SERVER_URL'') (read_env_file ''SSHNACK_SERVER_URL'' file)
      in py_or internal_url server_url)"

text \<open>One attempt: the option for the terminal program, an exception that is caught, or one that is not (a
  subscript on a value that is no dictionary raises \<^verbatim>\<open>TypeError\<close>).\<close>

datatype attempt = Resolved string | Unresolved | Crashed

definition try_lookup :: "posted \<Rightarrow> attempt" where
  "try_lookup p =
     (case p of
        Raised caught \<Rightarrow> (if caught then Unresolved else Crashed)
      | Answer bad json \<Rightarrow>
          (if bad then Unresolved
           else case json of
                  None \<Rightarrow> Unresolved
                | Some v \<Rightarrow>
                    (case v of
                       PyObj _ (Some members) \<Rightarrow>
                         (case map_of members ''user_id'' of
                            None \<Rightarrow> Unresolved
                          | Some uid \<Rightarrow> Resolved (''--user '' @ py_str uid))
                     | _ \<Rightarrow> Crashed)))"

datatype gate_event = LookupFailed nat | Sleep nat

text \<open>The loop over the remaining attempt numbers: the events, the option (\<open>None\<close> after an exception that
  is not caught), and the world that \<^verbatim>\<open>requests\<close> acts on.\<close>

fun lookup_loop ::
    "(string \<Rightarrow> string \<Rightarrow> 'w \<Rightarrow> posted \<times> 'w) \<Rightarrow> string \<Rightarrow> string \<Rightarrow> nat list \<Rightarrow> 'w \<Rightarrow> gate_event list \<times> string option \<times> 'w" where
  "lookup_loop post url fp [] w = ([], Some [], w)"
| "lookup_loop post url fp (k # ks) w =
     (let (p, w1) = post (url @ ''/users/lookup'') fp w in
      case try_lookup p of
        Resolved cmd \<Rightarrow> ([], Some cmd, w1)
      | Crashed \<Rightarrow> ([], None, w1)
      | Unresolved \<Rightarrow>
          (let (es, r, w2) = lookup_loop post url fp ks w1
           in (LookupFailed k # (if k < MAX_ATTEMPTS then [Sleep RETRY_DELAY] else []) @ es, r, w2)))"

definition keys_line :: "string \<Rightarrow> string \<Rightarrow> string \<Rightarrow> string" where
  \<open>keys_line cmd key_type b64key =
     ''command="/usr/local/app/tui '' @ cmd @ ''",restrict,pty '' @ key_type @ '' '' @ b64key @ '' wanderer'' @ [CHR 0x0A]\<close>

text \<open>The script: exit status, standard output, events. Without its four arguments it ends with an
  \<^verbatim>\<open>IndexError\<close>; \<^verbatim>\<open>print\<close> adds a line end to the one of the line.\<close>

definition authencesn ::
    "(string \<Rightarrow> string \<Rightarrow> 'w \<Rightarrow> posted \<times> 'w) \<Rightarrow> (string \<Rightarrow> string option) \<Rightarrow> string list option \<Rightarrow> string list \<Rightarrow> 'w \<Rightarrow>
     int \<times> string \<times> gate_event list \<times> 'w" where
  "authencesn post env file argv w =
     (case argv of
        _ # user # key_type # b64key # key_fingerprint # _ \<Rightarrow>
          (let (es, cmd, w) =
             (case lookup_url env file of
                None \<Rightarrow> ([], Some [], w)
              | Some url \<Rightarrow> lookup_loop post url key_fingerprint [1..<MAX_ATTEMPTS + 1] w)
           in case cmd of
                None \<Rightarrow> (1, [], es, w)
              | Some cmd \<Rightarrow> (0, keys_line cmd key_type b64key @ [CHR 0x0A], es, w))
      | _ \<Rightarrow> (1, [], [], w))"

section \<open>What the gate relies on\<close>

text \<open>The SSH daemon gives the text of the \<^verbatim>\<open>command\<close> option to the login shell, which splits it at blanks:
  \<open>runs\<close> is the argument vector of the session's program for a line. Stated for words of letters,
  digits, slashes and dashes.\<close>

definition plain_word :: "string \<Rightarrow> bool" where
  "plain_word s \<longleftrightarrow> s \<noteq> [] \<and> (\<forall>c \<in> set s. isdigit c \<or> c \<in> set ''abcdefghijklmnopqrstuvwxyz/-'')"

definition runs_words :: "(string \<Rightarrow> string list) \<Rightarrow> bool" where
  \<open>runs_words runs \<longleftrightarrow>
     (\<forall>ws blanks rest. (\<forall>s \<in> set ws. plain_word s) \<longrightarrow> set blanks \<subseteq> {CHR '' ''} \<longrightarrow>
        runs (''command="'' @ join_with '' '' ws @ blanks @ ''",restrict,pty '' @ rest) = ws)\<close>

text \<open>\<^verbatim>\<open>requests\<close> sends the fingerprint as a JSON object, with headers of its own.\<close>

definition lookup_body :: "string \<Rightarrow> string" where
  \<open>lookup_body fp = ''{"fingerprint": "'' @ fp @ ''"}''\<close>

definition lookup_request :: "string list \<Rightarrow> string \<Rightarrow> string" where
  "lookup_request hs fp =
     ''POST /users/lookup HTTP/1.1'' @ crlf @ concat (map (\<lambda>h. h @ crlf) hs) @ crlf @ lookup_body fp"

text \<open>A fingerprint as the SSH daemon writes it: no quote, backslash or NUL, and short enough.\<close>

definition plain_fingerprint :: "string \<Rightarrow> bool" where
  "plain_fingerprint fp \<longleftrightarrow>
     fp \<noteq> [] \<and> length fp \<le> 127 \<and> CHR 0x22 \<notin> set fp \<and> CHR 0x5C \<notin> set fp \<and> CHR 0x00 \<notin> set fp"

definition gate_headers :: "string list \<Rightarrow> bool" where
  "gate_headers hs \<longleftrightarrow> wire_headers hs []"

text \<open>\<^verbatim>\<open>requests\<close> hands over what the server put on the socket: an answer of status 200 with its decoded
  body, a status of 400 and above as one for which \<^verbatim>\<open>raise_for_status\<close> raises.\<close>

definition hands_over :: "posted \<Rightarrow> sock_event list \<Rightarrow> bool" where
  \<open>hands_over p acts \<longleftrightarrow>
     (\<forall>n. acts = [SockSend (Sent (json_response ''200 OK'' (''{"user_id":'' @ show_int n @ ''}''))), SockClose] \<longrightarrow>
        (\<exists>text. p = Answer False (Some (PyObj text (Some [(''user_id'', PyInt n)]))))) \<and>
     (\<forall>line \<in> {''400 Bad Request'', ''403 Forbidden'', ''404 Not Found'', ''500 Internal Server Error''}. \<forall>body.
        acts \<in> {[SockSend (Sent (json_response line body)), SockClose], [SockSend (Sent (empty_response line)), SockClose]} \<longrightarrow>
        (\<exists>js. p = Answer True js))\<close>

section \<open>Lemmas: configuration\<close>

lemma py_strip_id:
  assumes "s = [] \<or> \<not> py_space (hd s) \<and> \<not> py_space (last s)"
  shows "py_strip (s @ [CHR 0x0A]) = s"
proof (cases s)
  case Nil
  then show ?thesis by (simp add: py_strip_def py_space_def isspace_def)
next
  case (Cons c cs)
  then have "dropWhile py_space (s @ [CHR 0x0A]) = s @ [CHR 0x0A]" using assms by simp
  moreover have "dropWhile py_space (rev s) = rev s"
    using assms Cons by (cases "rev s") (auto simp: last_rev hd_rev simp flip: hd_rev)
  ultimately show ?thesis by (simp add: py_strip_def py_space_def isspace_def)
qed

lemma read_env_lines_append:
  "\<forall>line \<in> set xs. take (length key + 1) line \<noteq> key @ ''='' \<Longrightarrow> read_env_lines key (xs @ ys) = read_env_lines key ys"
  by (induction xs) auto

lemma read_env_entry:
  assumes "CHR ''='' \<notin> set key" and "v = [] \<or> \<not> py_space (hd v) \<and> \<not> py_space (last v)"
  shows "read_env_lines key ((key @ ''='' @ v @ [CHR 0x0A]) # rest) = Some v"
proof -
  have "dropWhile (\<lambda>c. c \<noteq> CHR ''='') (key @ CHR ''='' # v @ [CHR 0x0A]) = CHR ''='' # v @ [CHR 0x0A]"
    using assms(1) by (intro dropWhile_append_stop) auto
  then show ?thesis using py_strip_id[OF assms(2)] by simp
qed

section \<open>Lemmas: what the server makes of the request\<close>

lemma parse_lookup_request:
  assumes "gate_headers hs" and "plain_fingerprint fp"
  shows "parse_request (recv_text (lookup_request hs fp)) adm =
    \<lparr>req_method = Some POST, req_path = ''/users/lookup'', req_body = lookup_body fp, req_auth = \<lparr>role = AUTH_NONE, user_id = 0\<rparr>\<rparr>"
proof -
  let ?hs = "concat (map (\<lambda>h. h @ crlf) hs)"
  have plain: "\<forall>h \<in> set hs. plain_header h" using assms(1) by (auto simp: gate_headers_def wire_headers_def)
  have "length (lookup_request hs fp) \<le> BUF_SIZE - 1" "CHR 0x00 \<notin> set (lookup_request hs fp)"
    using assms by (auto simp: lookup_request_def lookup_body_def gate_headers_def wire_headers_def plain_fingerprint_def BUF_SIZE_def)
  then have recv: "recv_text (lookup_request hs fp) = lookup_request hs fp"
    by (auto simp: recv_text_def takeWhile_eq_all_conv)
  have "header_loop [] (?hs @ crlf @ lookup_body fp) = ([], lookup_body fp)"
    using header_loop_plains[OF plain] header_loop_end by simp
  moreover have "length (lookup_body fp) < MAX_BODY_LEN"
    using assms(2) by (simp add: lookup_body_def plain_fingerprint_def MAX_BODY_LEN_def)
  ultimately show ?thesis
    using parse_request_line[of "''/users/lookup''" "?hs @ crlf @ lookup_body fp" "[]" "lookup_body fp" POST adm]
    unfolding recv unfolding lookup_request_def by (simp add: method_str_def MAX_PATH_LEN_def isspace_def auth_parse_def)
qed

lemma scan_lookup_body:
  assumes "plain_fingerprint fp"
  shows \<open>sscanf '' {"fingerprint" : "%127[^"]" }'' (lookup_body fp) = [VStr fp]\<close>
proof -
  have "takeWhile (\<lambda>c. c \<noteq> CHR 0x22) (fp @ CHR 0x22 # r) = fp" for r
    using assms by (intro takeWhile_append_stop) (auto simp: plain_fingerprint_def)
  then show ?thesis using assms
    by (simp add: sscanf_def lookup_body_def isspace_def isdigit_def digit_val_def skip_ws_def plain_fingerprint_def
        del: takeWhile_append)
qed

text \<open>On the public port the lookup is refused before it reaches the database.\<close>

lemma public_port_refuses:
  assumes "gate_headers hs" and "plain_fingerprint fp" and "\<not> c_internal cl"
  shows "handle_client router_tree fuel saved (Some cl) (lookup_request hs fp) =
    Ret [SockSend (Sent (empty_response ''403 Forbidden'')), SockClose]"
proof -
  have "lookup_request hs fp \<noteq> []" by (simp add: lookup_request_def)
  then show ?thesis using assms(3)
    by (simp add: handle_client_def parse_lookup_request[OF assms(1,2)] dispatch_def search_router route_segments
        route_spec_def user_lookup_handler_t_def no_handler_def)
qed

lemma internal_port_looks_up:
  assumes "gate_headers hs" and "plain_fingerprint fp" and "c_internal cl"
  shows \<open>handle_client router_tree fuel saved (Some cl) (lookup_request hs fp) =
    call (users_lookup fp) (\<lambda>uid. Ret [SockSend (if uid = -1 then send_json_users 500 ''{"error":"lookup failed"}''
      else send_json_users 200 (fill_buf 64 (''{"user_id":'' @ show_int uid @ ''}''))), SockClose])\<close>
proof -
  have "lookup_request hs fp \<noteq> []" by (simp add: lookup_request_def)
  moreover have "call (call p (\<lambda>uid. if uid = -1 then Ret bad else Ret (good uid))) (\<lambda>out. Ret [SockSend out, SockClose]) =
      call p (\<lambda>uid. Ret [SockSend (if uid = -1 then bad else good uid), SockClose])" for p :: "int dbprog" and bad good
    unfolding call_assoc by (rule arg_cong[of _ _ "call p"]) auto
  ultimately show ?thesis using assms(3)
    by (simp add: handle_client_def parse_lookup_request[OF assms(1,2)] dispatch_def search_router route_segments
        route_spec_def user_lookup_handler_t_def no_handler_def handle_lookup_user_def scan_lookup_body[OF assms(2)])
qed

section \<open>Lemmas: the printed line\<close>

lemma plain_word_show_int: "plain_word (show_int n)"
  using show_int_chars by (fastforce simp: plain_word_def)

lemma plain_words: "plain_word ''/usr/local/app/tui''" "plain_word ''--user''"
  by (simp_all add: plain_word_def)

lemma keys_line_runs:
  assumes "runs_words runs"
  shows "runs (keys_line (''--user '' @ show_int n) key_type b64key @ r) = [''/usr/local/app/tui'', ''--user'', show_int n]"
    "runs (keys_line [] key_type b64key @ r) = [''/usr/local/app/tui'']"
proof -
  let ?rest = "key_type @ '' '' @ b64key @ '' wanderer'' @ CHR 0x0A # r"
  have runs: \<open>(\<forall>s \<in> set ws. plain_word s) \<Longrightarrow> set blanks \<subseteq> {CHR '' ''} \<Longrightarrow>
      runs (''command="'' @ join_with '' '' ws @ blanks @ ''",restrict,pty '' @ ?rest) = ws\<close> for ws blanks
    using assms unfolding runs_words_def by blast
  show "runs (keys_line (''--user '' @ show_int n) key_type b64key @ r) = [''/usr/local/app/tui'', ''--user'', show_int n]"
    using runs[of "[''/usr/local/app/tui'', ''--user'', show_int n]" "[]"]
    by (simp add: keys_line_def plain_words plain_word_show_int)
  show "runs (keys_line [] key_type b64key @ r) = [''/usr/local/app/tui'']"
    using runs[of "[''/usr/local/app/tui'']" "'' ''"] by (simp add: keys_line_def plain_words)
qed

lemma tui_user_arg:
  assumes "0 < n" and "n \<le> INT_MAX"
  shows "tc_user_id (tui_load_config [prog, ''--user'', show_int n] getenv) = n"
  using assms by (simp add: tui_load_config_def atoi_show_int is_int32_def)

text \<open>Attempts that all fail: every number up to the last is reported, with a pause before the next one.\<close>

lemma lookup_loop_fails:
  assumes "\<And>w. try_lookup (fst (post (url @ ''/users/lookup'') fp w)) = Unresolved"
  shows "\<exists>w'. lookup_loop post url fp ks w =
    (concat (map (\<lambda>k. LookupFailed k # (if k < MAX_ATTEMPTS then [Sleep RETRY_DELAY] else [])) ks), Some [], w')"
proof (induction ks arbitrary: w)
  case (Cons k ks)
  obtain p w1 where p: "post (url @ ''/users/lookup'') fp w = (p, w1)" by fastforce
  then have "try_lookup p = Unresolved" using assms[of w] by simp
  with p Cons[of w1] show ?case by (auto split: prod.splits)
qed simp

section \<open>Lemmas: from the key to the account\<close>

text \<open>The accounts of keys have positive ids that an \<^verbatim>\<open>int\<close> holds.\<close>

definition key_ids_ok :: "tables \<Rightarrow> bool" where
  "key_ids_ok t \<longleftrightarrow> (\<forall>p \<in> set (users t). u_fingerprint (snd p) \<noteq> None \<longrightarrow> 0 < fst p \<and> fst p \<le> INT_MAX)"

lemma user_of_fingerprint_key:
  assumes "user_of_fingerprint fp t = Some uid" and "key_ids_ok t"
  shows "0 < uid \<and> uid \<le> INT_MAX"
proof -
  obtain u where "(uid, u) \<in> set (users t)" "u_fingerprint u = Some fp"
    using assms(1) by (auto simp: user_of_fingerprint_def find_Some_iff split: option.splits dest!: nth_mem)
  with assms(2) show ?thesis by (force simp: key_ids_ok_def)
qed

lemma row_ins_among: "set (row_ins k r rs) \<subseteq> insert (k, r) (set rs)"
  by (induction k r rs rule: row_ins.induct) (auto split: if_splits)

lemma lookup_key_ids:
  assumes "lookup_spec fp t uid t'" and "key_ids_ok t" and "0 \<le> user_seq t" and "user_seq t < INT_MAX"
  shows "key_ids_ok t'"
proof (cases "user_of_fingerprint fp t")
  case None
  then have "set (users t') \<subseteq> insert (user_seq t + 1, \<lparr>u_fingerprint = Some fp, u_balance = 0\<rparr>) (set (users t))"
    using assms(1) row_ins_among[of "user_seq t + 1"] by (simp add: lookup_spec_def insert_user_def)
  with assms(2-4) show ?thesis by (fastforce simp: key_ids_ok_def)
qed (use assms in \<open>auto simp: lookup_spec_def key_ids_ok_def\<close>)

lemma served_lookup:
  assumes "sqlite_contract sql_sem sq view faulty" and "txn (view db) = None" and "\<not> faulty db"
    and "schema_ok (committed (view db))" and "key_ids_ok (committed (view db))" and "user_seq (committed (view db)) < INT_MAX"
    and "gate_headers hs" and "plain_fingerprint fp" and "c_internal cl"
    and "run sq (handle_client router_tree fuel saved (Some cl) (lookup_request hs fp)) db = (acts, db')"
  shows \<open>\<exists>uid. acts = [SockSend (Sent (json_response ''200 OK'' (''{"user_id":'' @ show_int uid @ ''}''))), SockClose] \<and>
    user_of_fingerprint fp (committed (view db')) = Some uid \<and> 0 < uid \<and> uid \<le> INT_MAX \<and>
    lookup_spec fp (committed (view db)) uid (committed (view db')) \<and> key_ids_ok (committed (view db'))\<close>
proof -
  let ?t = "committed (view db)" and ?t' = "committed (view db')"
  obtain r where r: "run sq (users_lookup fp) db = (r, db')"
      \<open>acts = [SockSend (if r = -1 then send_json_users 500 ''{"error":"lookup failed"}''
        else send_json_users 200 (fill_buf 64 (''{"user_id":'' @ show_int r @ ''}''))), SockClose]\<close>
    using assms(10) unfolding internal_port_looks_up[OF assms(7-9)] by (auto simp: run_call split: prod.splits)
  have seq: "0 \<le> user_seq ?t" using assms(4) by (simp add: schema_ok_def)
  obtain uid where uid: "lookup_spec fp ?t uid ?t'" "r = wrap32 uid"
    using sqlite_contract.run_wp[OF assms(1) wp_users_lookup[OF assms(2)] r(1), of False] assms(3,6) by (auto simp: lookup_post_def)
  have key: "user_of_fingerprint fp ?t' = Some uid" "key_ids_ok ?t'"
    using lookup_spec_account(1)[OF assms(4) uid(1)] lookup_key_ids[OF uid(1) assms(5) seq assms(6)] by auto
  note range = user_of_fingerprint_key[OF key]
  then have "r = uid" using uid(2) by (simp add: wrap32_small)
  moreover have \<open>length (''{"user_id":'' @ show_int uid @ ''}'') < 64\<close> using show_int_length_nonneg[of uid] range by simp
  ultimately show ?thesis using r(2) range uid key
    by (simp add: send_json_users_def fill_buf_id small_response)
qed

section \<open>The whole gate\<close>

lemma gate_starts_user:
  assumes "lookup_url env file = Some url" and "post (url @ ''/users/lookup'') fp w = (p, w')"
    and \<open>hands_over p [SockSend (Sent (json_response ''200 OK'' (''{"user_id":'' @ show_int uid @ ''}''))), SockClose]\<close>
    and "0 < uid" and "uid \<le> INT_MAX" and "runs_words runs"
  shows "case authencesn post env file [prog, user, key_type, b64key, fp] w of (status, out, es, w'') \<Rightarrow>
    status = 0 \<and> es = [] \<and> w'' = w' \<and> tc_user_id (tui_load_config (runs out) getenv) = uid"
proof -
  obtain str where "p = Answer False (Some (PyObj str (Some [(''user_id'', PyInt uid)])))"
    using assms(3) by (auto simp: hands_over_def)
  with assms(1,2) have "authencesn post env file [prog, user, key_type, b64key, fp] w =
      (0, keys_line (''--user '' @ show_int uid) key_type b64key @ [CHR 0x0A], [], w')"
    by (simp add: authencesn_def upt_conv_Cons try_lookup_def)
  then show ?thesis using tui_user_arg[OF assms(4,5)] by (simp add: keys_line_runs(1)[OF assms(6), simplified])
qed

text \<open>The account of a session without \<^verbatim>\<open>--user\<close>.\<close>

definition shared_account :: "(string \<Rightarrow> string option) \<Rightarrow> int" where
  "shared_account getenv =
     (case getenv ''SSHNACK_USER_ID'' of Some s \<Rightarrow> (if 0 < atoi s then atoi s else 67) | None \<Rightarrow> 67)"

definition total_delay :: "gate_event list \<Rightarrow> nat" where
  "total_delay es = sum_list (map (\<lambda>e. case e of Sleep d \<Rightarrow> d | _ \<Rightarrow> 0) es)"

lemma atoi_Nil: "atoi [] = 0"
  by (simp add: atoi_def strtol_def scan_long_def skip_ws_def wrap32_id is_int32_def)

lemma gate_starts_shared:
  assumes "\<And>url w. lookup_url env file = Some url \<Longrightarrow> try_lookup (fst (post (url @ ''/users/lookup'') fp w)) = Unresolved"
    and "runs_words runs"
  shows "case authencesn post env file [prog, user, key_type, b64key, fp] w of (status, out, es, w') \<Rightarrow>
    status = 0 \<and> total_delay es \<le> 8 \<and> tc_user_id (tui_load_config (runs out) getenv) = shared_account getenv"
proof -
  let ?failed = "\<lambda>ks. concat (map (\<lambda>k. LookupFailed k # (if k < MAX_ATTEMPTS then [Sleep RETRY_DELAY] else [])) ks)"
  have delay: "total_delay (?failed [1..<MAX_ATTEMPTS + 1]) \<le> 8" by code_simp
  have "tc_user_id (tui_load_config [cmd] getenv) = shared_account getenv" for cmd
    by (auto simp: tui_load_config_def shared_account_def atoi_Nil split: option.splits)
  then have shared: "tc_user_id (tui_load_config (runs (keys_line [] key_type b64key @ [CHR 0x0A])) getenv) = shared_account getenv"
    by (simp add: keys_line_runs(2)[OF assms(2)])
  show ?thesis
  proof (cases "lookup_url env file")
    case None
    then show ?thesis using shared by (simp add: authencesn_def total_delay_def)
  next
    case (Some url)
    obtain w' where "lookup_loop post url fp [1..<MAX_ATTEMPTS + 1] w = (?failed [1..<MAX_ATTEMPTS + 1], Some [], w')"
      using lookup_loop_fails[of post url fp "[1..<MAX_ATTEMPTS + 1]" w, OF assms(1)[OF Some]] by blast
    then show ?thesis using Some shared delay unfolding authencesn_def by (simp del: upt_rec_numeral)
  qed
qed

text \<open>An attempt fails on an exception of \<^verbatim>\<open>requests\<close>, and on the answer of the public port.\<close>

lemma attempt_fails:
  assumes "p = Raised True \<or> (\<exists>hs cl fuel saved db. gate_headers hs \<and> \<not> c_internal cl \<and>
      hands_over p (fst (run sq (handle_client router_tree fuel saved (Some cl) (lookup_request hs fp)) db)))"
    and "plain_fingerprint fp"
  shows "try_lookup p = Unresolved"
  using assms(1)
proof (elim disjE exE conjE)
  fix hs cl fuel saved db
  assume h: "gate_headers hs" "\<not> c_internal cl"
    and "hands_over p (fst (run sq (handle_client router_tree fuel saved (Some cl) (lookup_request hs fp)) db))"
  then have "hands_over p [SockSend (Sent (empty_response ''403 Forbidden'')), SockClose]"
    by (simp add: public_port_refuses[OF h(1) assms(2) h(2)])
  then obtain js where "p = Answer True js" unfolding hands_over_def by blast
  then show ?thesis by (simp add: try_lookup_def)
qed (simp add: try_lookup_def)

text \<open>The gate reads what the entry point wrote: without a variable in its own environment it asks the
  internal address, or the public one when there is no internal one.\<close>

lemma gate_reads_entrypoint:
  assumes "env ''SSHNACK_INTERNAL_URL'' = Some u" and "u \<noteq> []" and "\<not> py_space (hd u) \<and> \<not> py_space (last u)"
    and "\<forall>line \<in> set file. take 8 line \<noteq> ''SSHNACK_''"
  shows "lookup_url (\<lambda>_. None) (Some (entrypoint env file)) = Some u"
proof -
  let ?key = "''SSHNACK_INTERNAL_URL''" and ?first = "\<lambda>v. ''SSHNACK_SERVER_URL'' @ ''='' @ v @ [CHR 0x0A]"
  have "take (length ?key + 1) line \<noteq> ?key @ ''=''" if "line \<in> set file" for line
  proof
    assume "take (length ?key + 1) line = ?key @ ''=''"
    then have "take 8 (take (length ?key + 1) line) = take 8 (?key @ ''='')" by (rule arg_cong)
    then show False using that assms(4) by (simp add: numeral_eq_Suc)
  qed
  moreover have "take (length ?key + 1) (?first v) \<noteq> ?key @ ''=''" for v by simp
  ultimately have "read_env_lines ?key (entrypoint env file) = Some u"
    using assms(1,3) read_env_entry[of ?key u] by (simp add: entrypoint_def read_env_lines_append)
  then show ?thesis using assms(2) by (simp add: lookup_url_def read_env_file_def py_or_def)
qed

section \<open>A shell and an HTTP client for the witnesses\<close>

text \<open>The shell's way to split a command, for words without quotes.\<close>

definition demo_runs :: "string \<Rightarrow> string list" where
  "demo_runs line = segments (CHR '' '') (takeWhile (\<lambda>c. c \<noteq> CHR 0x22) (drop 9 line))"

definition demo_post :: "posted \<Rightarrow> string \<Rightarrow> string \<Rightarrow> unit \<Rightarrow> posted \<times> unit" where
  "demo_post p = (\<lambda>url fp w. (p, w))"

lemma segments_words:
  assumes "\<forall>s \<in> set ws. plain_word s" and "set blanks \<subseteq> {CHR '' ''}"
  shows "segments (CHR '' '') (join_with '' '' ws @ blanks) = ws"
  using assms
proof (induction ws rule: induct_list012)
  case 1
  then have "dropWhile (\<lambda>c. c = CHR '' '') blanks = []" by (auto simp: dropWhile_eq_Nil_conv)
  then show ?case by (simp add: segments_end)
next
  case (2 s)
  then have w: "dropWhile (\<lambda>c. c = CHR '' '') (s @ blanks) = s @ blanks" "s \<noteq> []" "\<forall>c \<in> set s. c \<noteq> CHR '' ''"
    by (cases s; auto simp: plain_word_def isdigit_def)+
  have "takeWhile (\<lambda>c. c \<noteq> CHR '' '') (s @ blanks) = s" "dropWhile (\<lambda>c. c \<noteq> CHR '' '') (s @ blanks) = blanks"
    using w(3) 2(2) by (cases blanks; auto simp: takeWhile_append2 dropWhile_append2)+
  moreover have "dropWhile (\<lambda>c. c = CHR '' '') (tl blanks) = []" using 2(2) by (cases blanks) (auto simp: dropWhile_eq_Nil_conv)
  ultimately show ?case using w by (simp add: segments_step segments_end)
next
  case (3 s s' ws)
  then have ih: "segments (CHR '' '') (join_with '' '' (s' # ws) @ blanks) = s' # ws" by simp
  have w: "\<forall>c \<in> set s. c \<noteq> CHR '' ''" "s \<noteq> []" using 3(3) by (auto simp: plain_word_def isdigit_def)
  have "dropWhile (\<lambda>c. c = CHR '' '') (s @ r) = s @ r" for r using w by (cases s) auto
  moreover have "takeWhile (\<lambda>c. c \<noteq> CHR '' '') (s @ CHR '' '' # r) = s" "dropWhile (\<lambda>c. c \<noteq> CHR '' '') (s @ CHR '' '' # r) = CHR '' '' # r" for r
    using w(1) by (auto simp: takeWhile_append2 dropWhile_append2)
  ultimately show ?case using w(2) ih by (simp add: segments_step)
qed

lemma demo_runs_words: "runs_words demo_runs"
  unfolding runs_words_def
proof (intro allI impI)
  fix ws blanks rest
  assume h: "\<forall>s \<in> set ws. plain_word s" "set blanks \<subseteq> {CHR '' ''}"
  have "CHR 0x22 \<notin> set (join_with '' '' ws @ blanks)"
    using h set_join_with[of "'' ''" ws] by (fastforce simp: plain_word_def isdigit_def)
  then have "takeWhile (\<lambda>c. c \<noteq> CHR 0x22) ((join_with '' '' ws @ blanks) @ CHR 0x22 # r) = join_with '' '' ws @ blanks" for r
    by (intro takeWhile_append_stop) auto
  from this[of "'',restrict,pty '' @ rest"]
  show \<open>demo_runs (''command="'' @ join_with '' '' ws @ blanks @ ''",restrict,pty '' @ rest) = ws\<close>
    using segments_words[OF h] by (simp add: demo_runs_def del: takeWhile_append)
qed

lemma show_int_inj: "show_int m = show_int n \<Longrightarrow> m = n"
proof -
  have nat: "show_nat i = show_nat j \<Longrightarrow> i = j" for i j using fst_scan_digits_show_nat by metis
  have sign: "show_nat i \<noteq> CHR ''-'' # t" for i t using show_nat_digits[of i] by (auto simp: isdigit_def)
  show "show_int m = show_int n \<Longrightarrow> m = n"
    using nat[of "nat (- m)" "nat (- n)"] nat[of "nat m" "nat n"] sign sign[symmetric]
    by (auto simp: show_int_def split: if_splits)
qed

lemma ok_no_error:
  "line \<in> {''400 Bad Request'', ''403 Forbidden'', ''404 Not Found'', ''500 Internal Server Error''} \<Longrightarrow>
   json_response ''200 OK'' b \<noteq> json_response line b' \<and> json_response ''200 OK'' b \<noteq> empty_response line"
  by (auto simp: json_response_def empty_response_def)

lemma hands_over_id:
  \<open>hands_over (Answer False (Some (PyObj t (Some [(''user_id'', PyInt n)]))))
     [SockSend (Sent (json_response ''200 OK'' (''{"user_id":'' @ show_int n @ ''}''))), SockClose]\<close>
  unfolding hands_over_def
proof (intro conjI allI impI ballI)
  fix m assume \<open>[SockSend (Sent (json_response ''200 OK'' (''{"user_id":'' @ show_int n @ ''}''))), SockClose] =
    [SockSend (Sent (json_response ''200 OK'' (''{"user_id":'' @ show_int m @ ''}''))), SockClose]\<close>
  then have \<open>json_response ''200 OK'' (''{"user_id":'' @ show_int n @ ''}'') = json_response ''200 OK'' (''{"user_id":'' @ show_int m @ ''}'')\<close>
    by (simp only: list.inject sock_event.inject http_out.inject)
  from json_response_inj[OF this] have "n = m" using show_int_inj[of n m] by simp
  then show "\<exists>text. Answer False (Some (PyObj t (Some [(''user_id'', PyInt n)]))) = Answer False (Some (PyObj text (Some [(''user_id'', PyInt m)])))"
    by blast
next
  fix line body
  assume line: "line \<in> {''400 Bad Request'', ''403 Forbidden'', ''404 Not Found'', ''500 Internal Server Error''}"
    and \<open>[SockSend (Sent (json_response ''200 OK'' (''{"user_id":'' @ show_int n @ ''}''))), SockClose] \<in>
      {[SockSend (Sent (json_response line body)), SockClose], [SockSend (Sent (empty_response line)), SockClose]}\<close>
  then show "\<exists>js. Answer False (Some (PyObj t (Some [(''user_id'', PyInt n)]))) = Answer True js"
    using ok_no_error[OF line] by (simp only: insert_iff empty_iff list.inject sock_event.inject http_out.inject simp_thms)
qed

end
