(* ===== verification/Printf_Double.thy ===== *)
theory Printf_Double
  imports Strtod
begin

text \<open>
  \<^verbatim>\<open>sprintf\<close> with \<^verbatim>\<open>%1.<p>g\<close>, as the JSON printer uses it on doubles: \<open>p\<close> significant digits of the exact
  binary value, rounded to nearest (ties to even), in plain or exponent notation, without trailing zeros.
\<close>

section \<open>Digits\<close>

text \<open>The exponent of the leading decimal digit of a positive rational.\<close>

definition ilog10 :: "rat \<Rightarrow> int" where
  "ilog10 a =
     (let (p, q) = quotient_of a;
          e = int (length (show_nat (nat p))) - int (length (show_nat (nat q)))
      in if a < 10 powi e then e - 1 else e)"

text \<open>The digits of a positive rational as a number of \<open>p\<close> digits, and the exponent of the first one.\<close>

definition sci_digits :: "nat \<Rightarrow> rat \<Rightarrow> nat \<times> int" where
  "sci_digits p a =
     (let x = ilog10 a; m = nat (round_even (a * 10 powi (int p - 1 - x)))
      in if m = 10 ^ p then (10 ^ (p - 1), x + 1) else (m, x))"

definition strip_zeros :: "string \<Rightarrow> string" where
  "strip_zeros s = rev (dropWhile (\<lambda>c. c = CHR ''0'') (rev s))"

definition point_part :: "string \<Rightarrow> string" where
  "point_part s = (if strip_zeros s = [] then [] else CHR ''.'' # strip_zeros s)"

text \<open>At least two digits of exponent.\<close>

definition exp_part :: "int \<Rightarrow> string" where
  "exp_part x =
     CHR ''e'' # (if x < 0 then CHR ''-'' else CHR ''+'') #
     (if \<bar>x\<bar> < 10 then CHR ''0'' # show_nat (nat \<bar>x\<bar>) else show_nat (nat \<bar>x\<bar>))"

definition fmt_g :: "nat \<Rightarrow> rat \<Rightarrow> string" where
  "fmt_g p v =
     (if v = 0 then ''0''
      else let (m, x) = sci_digits p \<bar>v\<bar>;
               ds = show_nat m
           in (if v < 0 then ''-'' else []) @
              (if -4 \<le> x \<and> x < int p
               then (if 0 \<le> x then take (nat x + 1) ds @ point_part (drop (nat x + 1) ds)
                     else ''0'' @ point_part (replicate (nat (- x) - 1) (CHR ''0'') @ ds))
               else take 1 ds @ point_part (drop 1 ds) @ exp_part x))"

section \<open>Lemmas: digits\<close>

lemma show_nat_bounds: "n < 10 ^ length (show_nat n) \<and> (0 < n \<longrightarrow> 10 ^ (length (show_nat n) - 1) \<le> n)"
proof (induction n rule: show_nat.induct)
  case (1 n)
  show ?case
  proof (cases "n < 10")
    case True
    then show ?thesis by (subst (1 2) show_nat.simps) simp
  next
    case False
    let ?l = "length (show_nat (n div 10))"
    have l: "length (show_nat n) = Suc ?l" using False by (subst show_nat.simps) simp
    have ne: "0 < ?l" by (subst show_nat.simps) simp
    have ih: "n div 10 < 10 ^ ?l" "10 ^ (?l - 1) \<le> n div 10" using 1[OF False] False by auto
    have "n < 10 * 10 ^ ?l" using ih(1) by (metis div_less_iff_less_mult mult.commute zero_less_numeral)
    moreover have "10 * 10 ^ (?l - 1) \<le> n" using ih(2) by (metis less_eq_div_iff_mult_less_eq mult.commute zero_less_numeral)
    then have "10 ^ ?l \<le> n" using ne by (metis Suc_pred' power_Suc)
    ultimately show ?thesis by (simp add: l)
  qed
qed

lemma length_show_nat: "10 ^ k \<le> n \<Longrightarrow> n < 10 ^ Suc k \<Longrightarrow> length (show_nat n) = Suc k"
proof -
  assume n: "10 ^ k \<le> n" "n < 10 ^ Suc k"
  then have "0 < n" by (metis gr0I le_zero_eq power_not_zero zero_neq_numeral)
  with show_nat_bounds[of n] have b: "n < 10 ^ length (show_nat n)" "10 ^ (length (show_nat n) - 1) \<le> n" by auto
  have "10 ^ k < (10::nat) ^ length (show_nat n)" using n(1) b(1) by linarith
  then have "k < length (show_nat n)" by (simp add: power_strict_increasing_iff)
  moreover have "(10::nat) ^ (length (show_nat n) - 1) < 10 ^ Suc k" using n(2) b(2) by linarith
  then have "length (show_nat n) - 1 < Suc k" by (rule power_less_imp_less_exp[rotated]) simp
  ultimately show ?thesis by linarith
qed

lemma ilog10_bounds:
  assumes "0 < a"
  shows "10 powi (ilog10 a) \<le> a" "a < 10 powi (ilog10 a + 1)"
proof -
  obtain p q where pq: "quotient_of a = (p, q)" by fastforce
  have q: "0 < q" by (rule quotient_of_denom_pos[OF pq])
  have a: "a = of_int p / of_int q" by (rule quotient_of_div[OF pq])
  have p: "0 < p" using assms q a by (simp add: zero_less_divide_iff)
  let ?lp = "length (show_nat (nat p))" and ?lq = "length (show_nat (nat q))"
  have real: "(of_int z :: rat) < 10 ^ length (show_nat (nat z))" "(10::rat) ^ (length (show_nat (nat z)) - 1) \<le> of_int z" if zp: "0 < z" for z
  proof -
    obtain k where z: "z = int k" "0 < k" using zero_less_imp_eq_int[OF zp] by blast
    have "(of_nat k :: rat) < of_nat (10 ^ length (show_nat k))" "(of_nat (10 ^ (length (show_nat k) - 1)) :: rat) \<le> of_nat k"
      unfolding of_nat_less_iff of_nat_le_iff using show_nat_bounds[of k] z(2) by blast+
    then show "(of_int z :: rat) < 10 ^ length (show_nat (nat z))" "(10::rat) ^ (length (show_nat (nat z)) - 1) \<le> of_int z"
      by (simp_all add: z)
  qed
  note rb = real[OF p] real[OF q]
  define e where "e = int ?lp - int ?lq"
  have pos: "0 < ?lp" "0 < ?lq" by (subst show_nat.simps, simp)+
  then have pred: "int (?lp - 1) = int ?lp - 1" "int (?lq - 1) = int ?lq - 1" by linarith+
  have up: "a < 10 powi (e + 1)"
  proof -
    have "a < 10 ^ ?lp / 10 ^ (?lq - 1)" unfolding a
      using rb(1,4) p q by (intro frac_less) simp_all
    also have "\<dots> = 10 powi (int ?lp - int (?lq - 1))" by (simp add: power_int_diff)
    also have "int ?lp - int (?lq - 1) = e + 1" unfolding e_def pred by simp
    finally show ?thesis .
  qed
  have down: "10 powi (e - 1) \<le> a"
  proof -
    have "int (?lp - 1) - int ?lq = e - 1" unfolding e_def pred by simp
    then have "10 powi (e - 1) = (10::rat) ^ (?lp - 1) / 10 ^ ?lq" by (metis power_int_diff power_int_of_nat zero_neq_numeral)
    also have "\<dots> \<le> a" unfolding a using rb(2,3) p q by (intro frac_le) simp_all
    finally show ?thesis .
  qed
  have "ilog10 a = (if a < 10 powi e then e - 1 else e)" by (simp add: ilog10_def pq e_def Let_def)
  then show "10 powi (ilog10 a) \<le> a" "a < 10 powi (ilog10 a + 1)" using up down by auto
qed

lemma round_even_bounds: "round_even x \<le> \<lfloor>x\<rfloor> + 1" "\<lfloor>x\<rfloor> \<le> round_even x"
  by (auto simp: round_even_def Let_def)

text \<open>There are exactly \<open>p\<close> digits.\<close>

lemma sci_digits_bounds:
  assumes "0 < a" and "0 < p"
  shows "10 ^ (p - 1) \<le> fst (sci_digits p a) \<and> fst (sci_digits p a) < 10 ^ p \<and>
    (snd (sci_digits p a) = ilog10 a \<or> snd (sci_digits p a) = ilog10 a + 1)"
proof -
  let ?x = "ilog10 a"
  let ?s = "(10::rat) powi (int p - 1 - ?x)"
  have s: "0 < ?s" by simp
  have lo: "10 powi (int p - 1) \<le> a * ?s"
    using mult_right_mono[OF ilog10_bounds(1)[OF assms(1)], of ?s] s by (simp flip: power_int_add)
  have hi: "a * ?s < 10 powi (int p)"
    using mult_strict_right_mono[OF ilog10_bounds(2)[OF assms(1)] s] by (simp flip: power_int_add)
  have lo': "of_int (10 ^ (p - 1)) \<le> a * ?s" and hi': "a * ?s < of_int (10 ^ p)"
    using lo hi assms(2) by (simp_all add: power_int_def nat_diff_distrib)
  have "10 ^ (p - 1) \<le> \<lfloor>a * ?s\<rfloor>" using lo' by (simp only: le_floor_iff)
  moreover have "\<lfloor>a * ?s\<rfloor> < 10 ^ p" using hi' by (simp only: floor_less_iff)
  ultimately have m: "10 ^ (p - 1) \<le> round_even (a * ?s)" "round_even (a * ?s) \<le> 10 ^ p"
    using round_even_bounds[of "a * ?s"] by linarith+
  obtain k where k: "round_even (a * ?s) = int k" using m(1) by (metis nonneg_int_cases order_trans zero_le_numeral zero_le_power)
  have "(10::nat) ^ (p - 1) \<le> k" "k \<le> 10 ^ p" using m unfolding k by (metis of_nat_le_iff of_nat_numeral of_nat_power)+
  moreover have "(10::nat) ^ (p - 1) < 10 ^ p" using assms(2) by (intro power_strict_increasing) simp_all
  ultimately show ?thesis by (auto simp: sci_digits_def Let_def k)
qed

lemma sci_digits_length: "0 < a \<Longrightarrow> 0 < p \<Longrightarrow> length (show_nat (fst (sci_digits p a))) = p"
  using sci_digits_bounds[of a p] length_show_nat[of "p - 1" "fst (sci_digits p a)"] by simp

section \<open>Lemmas: lengths\<close>

lemma strip_zeros_length: "length (strip_zeros s) \<le> length s"
  using length_dropWhile_le[of "\<lambda>c. c = CHR ''0''" "rev s"] by (simp add: strip_zeros_def)

lemma point_part_length: "length (point_part s) \<le> Suc (length s)"
  using strip_zeros_length[of s] by (simp add: point_part_def)

lemma exp_part_length: "\<bar>x\<bar> < 1000 \<Longrightarrow> length (exp_part x) \<le> 5"
  using show_nat_length[of "nat \<bar>x\<bar>" 3] show_nat_length[of "nat \<bar>x\<bar>" 1] nat_less_iff[of "\<bar>x\<bar>" 10] nat_less_iff[of "\<bar>x\<bar>" 1000]
  by (auto simp: exp_part_def)

text \<open>The longest text is a sign, one digit, a point, the other digits and an exponent of five characters.\<close>

lemma fmt_g_length:
  assumes "0 < p" and "v \<noteq> 0 \<Longrightarrow> \<bar>ilog10 \<bar>v\<bar>\<bar> < 999"
  shows "length (fmt_g p v) \<le> p + 7"
proof (cases "v = 0")
  case False
  obtain m x where mx: "sci_digits p \<bar>v\<bar> = (m, x)" by fastforce
  have d: "length (show_nat m) = p" using sci_digits_length[of "\<bar>v\<bar>" p] False assms(1) mx by simp
  have x: "\<bar>x\<bar> < 1000" using sci_digits_bounds[of "\<bar>v\<bar>" p] False assms mx by auto
  have e: "length (exp_part x) \<le> 5" by (rule exp_part_length[OF x])
  have "length (take (nat x + 1) (show_nat m) @ point_part (drop (nat x + 1) (show_nat m))) \<le> p + 1" if "0 \<le> x" "x < int p"
    using point_part_length[of "drop (nat x + 1) (show_nat m)"] d that by simp
  moreover have "length (''0'' @ point_part (replicate (nat (- x) - 1) (CHR ''0'') @ show_nat m)) \<le> p + 5" if "-4 \<le> x"
    using point_part_length[of "replicate (nat (- x) - 1) (CHR ''0'') @ show_nat m"] d that by simp
  moreover have "length (take 1 (show_nat m) @ point_part (drop 1 (show_nat m)) @ exp_part x) \<le> p + 6"
    using point_part_length[of "drop 1 (show_nat m)"] d e assms(1) by simp
  ultimately show ?thesis using False mx by (auto simp: fmt_g_def Let_def)
qed (simp add: fmt_g_def)

section \<open>Lemmas: doubles\<close>

text \<open>The range of the finite doubles.\<close>

definition is_double :: "double \<Rightarrow> bool" where
  "is_double d = (case d of Infinite _ \<Rightarrow> True | Finite x \<Rightarrow> x = 0 \<or> 2 powi (-1074) \<le> \<bar>x\<bar> \<and> \<bar>x\<bar> < 2 ^ 1024)"

lemma round_double_is_double: "is_double (round_double x)"
proof (cases "x = 0")
  case False
  define e where "e = max (-1074) (ilog2 \<bar>x\<bar> - 52)"
  define k where "k = round_even (\<bar>x\<bar> / 2 powi e)"
  define r where "r = (of_int k :: rat) * 2 powi e"
  have "0 \<le> \<lfloor>\<bar>x\<bar> / 2 powi e\<rfloor>" by simp
  then have k: "0 \<le> k" using round_even_bounds(2)[of "\<bar>x\<bar> / 2 powi e"] unfolding k_def by linarith
  have e: "(2::rat) powi (-1074) \<le> 2 powi e" unfolding e_def by (rule power_int_increasing) simp_all
  have small: "(2::rat) powi (-1074) \<le> r" if "k \<noteq> 0"
  proof -
    have "(1::rat) \<le> of_int k" using k that by simp
    then have "1 * (2::rat) powi e \<le> r" unfolding r_def by (intro mult_right_mono) simp_all
    with e show ?thesis by (simp only: mult_1)
  qed
  have rd: "round_double x = (if 2 ^ 1024 \<le> r then Infinite (x < 0) else Finite (sgn x * r))"
    using False unfolding round_double_def Let_def r_def k_def e_def by (simp only: if_False)
  have "\<bar>sgn x * r\<bar> = r" using k False by (simp add: abs_mult r_def)
  then have "sgn x * r = 0 \<or> 2 powi (-1074) \<le> \<bar>sgn x * r\<bar>" using small by (cases "k = 0") (simp_all add: r_def)
  then show ?thesis
    using \<open>\<bar>sgn x * r\<bar> = r\<close> unfolding rd is_double_def by (simp only: not_le split: if_split double.split) auto
qed (simp add: round_double_def is_double_def)

lemma strtod_is_double: "is_double (fst (strtod s))"
  by (simp add: strtod_def Let_def split_beta round_double_is_double) (simp add: is_double_def)

lemma is_double_int: "is_int32 i \<Longrightarrow> is_double (Finite (of_int i))"
  using round_double_is_double[of "of_int i"] round_double_int[of i] by (simp add: is_int32_def abs_less_iff)

lemma powi_less: "(10::rat) powi m < 10 powi n \<Longrightarrow> m < n"
  by (rule ccontr) (use power_int_increasing[of n m "10::rat"] in simp)

lemma is_double_exponent:
  assumes "is_double (Finite x)" and "x \<noteq> 0"
  shows "\<bar>ilog10 \<bar>x\<bar>\<bar> < 999"
proof -
  have x: "2 powi (-1074) \<le> \<bar>x\<bar>" "\<bar>x\<bar> < 2 ^ 1024" using assms by (auto simp: is_double_def)
  note b = ilog10_bounds[of "\<bar>x\<bar>"]
  have "(10::rat) powi (ilog10 \<bar>x\<bar>) < 10 powi 309"
  proof -
    have "(10::rat) powi (ilog10 \<bar>x\<bar>) < 2 ^ 1024" using b(1) x(2) assms(2) by simp
    also have "(2::rat) ^ 1024 \<le> 10 powi 309" by simp
    finally show ?thesis .
  qed
  then have "ilog10 \<bar>x\<bar> < 309" by (rule powi_less)
  moreover have "(10::rat) powi (-324) < 10 powi (ilog10 \<bar>x\<bar> + 1)"
  proof -
    have "(10::rat) powi (-324) \<le> 2 powi (-1074)" by (simp add: power_int_minus)
    then show ?thesis using b(2) x(1) assms(2) by simp
  qed
  then have "-324 < ilog10 \<bar>x\<bar> + 1" by (rule powi_less)
  ultimately show ?thesis by linarith
qed

section \<open>Lemmas: reading back\<close>

definition digits :: "string \<Rightarrow> bool" where
  "digits s \<longleftrightarrow> (\<forall>c \<in> set s. isdigit c)"

text \<open>A decimal text of sign, whole part, fraction and exponent is consumed as a whole.\<close>

definition decimal :: "string \<Rightarrow> bool" where
  "decimal t \<longleftrightarrow> (\<exists>sg ds fs ex. t = sg @ ds @ fs @ ex \<and> sg \<in> {[], ''-''} \<and> ds \<noteq> [] \<and> digits ds \<and>
     (fs = [] \<or> (\<exists>f. fs = CHR ''.'' # f \<and> digits f)) \<and>
     (ex = [] \<or> (\<exists>c e. ex = CHR ''e'' # c # e \<and> c \<in> {CHR ''+'', CHR ''-''} \<and> e \<noteq> [] \<and> digits e)))"

lemma takeWhile_digits_app:
  "digits ds \<Longrightarrow> r = [] \<or> \<not> isdigit (hd r) \<Longrightarrow> takeWhile isdigit (ds @ r) = ds \<and> dropWhile isdigit (ds @ r) = r"
  by (induction ds) (auto simp: digits_def takeWhile_eq_Nil_iff dropWhile_eq_self_iff)

lemma exponent_part_length:
  "ex = [] \<or> (\<exists>c e. ex = CHR ''e'' # c # e \<and> c \<in> {CHR ''+'', CHR ''-''} \<and> e \<noteq> [] \<and> digits e) \<Longrightarrow>
   snd (exponent_part ex) = length ex"
proof (elim disjE exE conjE)
  fix c e assume ex: "ex = CHR ''e'' # c # e" "c \<in> {CHR ''+'', CHR ''-''}" "e \<noteq> []" "digits e"
  have tw: "takeWhile isdigit e = e" using takeWhile_digits_app[OF ex(4), of "[]"] by (metis append_Nil2)
  from ex show ?thesis by (cases "c = CHR ''-''") (simp_all add: exponent_part_def Let_def tw)
qed (simp add: exponent_part_def)

lemma strtod_decimal:
  assumes "decimal t"
  shows "snd (strtod t) = length t"
proof -
  obtain sg ds fs ex where t: "t = sg @ ds @ fs @ ex" "sg \<in> {[], ''-''}" "ds \<noteq> []" "digits ds"
      and fs: "fs = [] \<or> (\<exists>f. fs = CHR ''.'' # f \<and> digits f)"
      and ex: "ex = [] \<or> (\<exists>c e. ex = CHR ''e'' # c # e \<and> c \<in> {CHR ''+'', CHR ''-''} \<and> e \<noteq> [] \<and> digits e)"
    using assms unfolding decimal_def by blast
  obtain d ds' where d: "ds = d # ds'" "isdigit d" using t(3,4) by (cases ds) (auto simp: digits_def)
  then have sign: "d \<noteq> CHR ''-''" "d \<noteq> CHR ''+''" "\<not> isspace d" using digit_not_space digit_not_sign by auto
  have skip: "skip_ws t = t" using t(1,2) d sign by (auto simp: skip_ws_def isspace_def)
  have exd: "ex = [] \<or> \<not> isdigit (hd ex) \<and> hd ex \<noteq> CHR ''.''" using ex by (auto simp: isdigit_def)
  have fsd: "fs @ ex = [] \<or> \<not> isdigit (hd (fs @ ex))" using fs exd by (auto simp: isdigit_def)
  note body = takeWhile_digits_app[OF t(4) fsd]
  have frac: "f = takeWhile isdigit (f @ ex) \<and> dropWhile isdigit (f @ ex) = ex" if "fs = CHR ''.'' # f" "digits f" for f
    using takeWhile_digits_app[OF that(2), of ex] exd by metis
  have len: "snd (exponent_part ex) = length ex" by (rule exponent_part_length[OF ex])
  have s1: "(if t \<noteq> [] \<and> (hd t = CHR ''-'' \<or> hd t = CHR ''+'') then tl t else t) = ds @ fs @ ex"
    using t(1,2) d sign by auto
  have s3: "(if fs @ ex \<noteq> [] \<and> hd (fs @ ex) = CHR ''.'' then dropWhile isdigit (tl (fs @ ex)) else fs @ ex) = ex"
    using fs frac exd by auto
  have "snd (strtod t) = length t - length ex + snd (exponent_part ex)"
    unfolding strtod_def Let_def skip s1 body[THEN conjunct1] body[THEN conjunct2] s3 using t(3) by (simp add: split_beta)
  then show ?thesis using len t(1) by simp
qed

lemma digits_show_nat: "digits (show_nat n)" "digits (take k (show_nat n))" "digits (drop k (show_nat n))"
  using show_nat_digits[of n] by (auto simp: digits_def dest: in_set_takeD in_set_dropD)

lemma digits_point_part:
  assumes "digits s"
  shows "point_part s = [] \<or> (\<exists>f. point_part s = CHR ''.'' # f \<and> digits f)"
proof -
  have "set (strip_zeros s) \<subseteq> set s" by (auto simp: strip_zeros_def dest: set_dropWhileD)
  with assms show ?thesis by (auto simp: point_part_def digits_def)
qed

lemma exp_part_form: "\<exists>c e. exp_part x = CHR ''e'' # c # e \<and> c \<in> {CHR ''+'', CHR ''-''} \<and> e \<noteq> [] \<and> digits e"
proof -
  have "isdigit (CHR ''0'')" by (simp add: isdigit_def)
  moreover have "show_nat n \<noteq> []" for n by (subst show_nat.simps) simp
  ultimately show ?thesis using digits_show_nat(1)[of "nat \<bar>x\<bar>"] by (auto simp: exp_part_def digits_def)
qed

lemma decimalI:
  assumes "sg \<in> {[], ''-''}" and "ds \<noteq> []" and "digits ds" and "digits f" and "ex = [] \<or> ex = exp_part x"
  shows "decimal (sg @ ds @ point_part f @ ex)"
  unfolding decimal_def using assms digits_point_part[OF assms(4)] exp_part_form[of x] by blast

lemma fmt_g_decimal:
  assumes "0 < p"
  shows "decimal (fmt_g p v)"
proof (cases "v = 0")
  case True
  have "strip_zeros [] = []" by (simp add: strip_zeros_def)
  then show ?thesis using decimalI[of "[]" "''0''" "[]" "[]"] True by (simp add: fmt_g_def digits_def isdigit_def point_part_def)
next
  case False
  obtain m x where mx: "sci_digits p \<bar>v\<bar> = (m, x)" by fastforce
  have ne: "take (Suc n) (show_nat m) \<noteq> []" for n by (subst show_nat.simps) simp
  let ?sg = "if v < 0 then ''-'' else []"
  have zeros: "digits (replicate n (CHR ''0'') @ show_nat m)" "digits ''0''" for n
    using digits_show_nat(1)[of m] by (auto simp: digits_def isdigit_def)
  have "decimal (?sg @ take (nat x + 1) (show_nat m) @ point_part (drop (nat x + 1) (show_nat m)) @ [])"
    "decimal (?sg @ ''0'' @ point_part (replicate (nat (- x) - 1) (CHR ''0'') @ show_nat m) @ [])"
    "decimal (?sg @ take 1 (show_nat m) @ point_part (drop 1 (show_nat m)) @ exp_part x)"
    by (rule decimalI[where x = x]; use ne zeros digits_show_nat in simp)+
  then show ?thesis using False mx unfolding fmt_g_def by (simp add: Let_def)
qed

text \<open>The characters of a decimal text.\<close>

lemma decimal_chars:
  assumes "decimal t"
  shows "t \<noteq> []" "hd t = CHR ''-'' \<or> isdigit (hd t)" "\<forall>c \<in> set t. isdigit c \<or> c \<in> {CHR ''+'', CHR ''-'', CHR ''e'', CHR ''.''}"
proof -
  obtain sg ds fs ex where t: "t = sg @ ds @ fs @ ex" "sg \<in> {[], ''-''}" "ds \<noteq> []" "digits ds"
      and fs: "fs = [] \<or> (\<exists>f. fs = CHR ''.'' # f \<and> digits f)"
      and ex: "ex = [] \<or> (\<exists>c e. ex = CHR ''e'' # c # e \<and> c \<in> {CHR ''+'', CHR ''-''} \<and> e \<noteq> [] \<and> digits e)"
    using assms unfolding decimal_def by blast
  show "t \<noteq> []" using t by simp
  show "hd t = CHR ''-'' \<or> isdigit (hd t)" using t by (cases ds) (auto simp: digits_def)
  show "\<forall>c \<in> set t. isdigit c \<or> c \<in> {CHR ''+'', CHR ''-'', CHR ''e'', CHR ''.''}"
    using t fs ex by (auto simp: digits_def)
qed

end
