(* ===== verification/Cjson_Print.thy ===== *)
theory Cjson_Print
  imports Printf_Double Cjson_Read "HOL-Library.Monad_Syntax"
begin

text \<open>
  The JSON printer of \<^verbatim>\<open>extern/cJSON/cJSON.c\<close>. The output block is a list of bytes that may be indeterminate;
  a write outside of it, or reading an indeterminate byte or beyond the end, is the result \<open>None\<close>.
  Otherwise the result is what the C function returns, with the print buffer afterwards. The pretty-printed
  text is specified by \<open>pretty\<close>.
\<close>

section \<open>The print buffer\<close>

record printbuffer =
  pb_buffer :: "char option list option"
  pb_length :: nat
  pb_offset :: nat
  pb_depth :: nat
  pb_noalloc :: bool
  pb_format :: bool
  pb_realloc :: bool
  pb_hooks :: allocs

type_synonym pres = "(bool \<times> printbuffer) option"

text \<open>\<open>pb_buffer = None\<close> is the null pointer, \<open>pb_realloc\<close> whether the hooks have a \<^verbatim>\<open>reallocate\<close>. Without it
  the used bytes are copied to a new block, and one more.\<close>

definition ensure :: "printbuffer \<Rightarrow> nat \<Rightarrow> pres" where
  "ensure p needed =
     (case pb_buffer p of
        None \<Rightarrow> Some (False, p)
      | Some mem \<Rightarrow>
          (if 0 < pb_length p \<and> pb_length p \<le> pb_offset p then Some (False, p)
           else if INT_MAX < int needed then Some (False, p)
           else let needed = needed + pb_offset p + 1 in
                if needed \<le> pb_length p then Some (True, p)
                else if pb_noalloc p then Some (False, p)
                else if INT_MAX div 2 < int needed \<and> \<not> int needed \<le> INT_MAX then Some (False, p)
                else let newsize = (if INT_MAX div 2 < int needed then nat INT_MAX else needed * 2);
                         (ok, hs) = alloc (pb_hooks p)
                     in if \<not> ok then Some (False, p\<lparr>pb_hooks := hs, pb_length := 0, pb_buffer := None\<rparr>)
                        else if pb_realloc p
                        then Some (True, p\<lparr>pb_hooks := hs, pb_length := newsize,
                               pb_buffer := Some (mem @ replicate (newsize - length mem) None)\<rparr>)
                        else if length mem < pb_offset p + 1 then None
                        else Some (True, p\<lparr>pb_hooks := hs, pb_length := newsize,
                               pb_buffer := Some (take (pb_offset p + 1) mem @ replicate (newsize - (pb_offset p + 1)) None)\<rparr>)))"

text \<open>\<^verbatim>\<open>strlen\<close> on a block.\<close>

fun c_len :: "char option list \<Rightarrow> nat option" where
  "c_len [] = None"
| "c_len (c # cs) = (case c of None \<Rightarrow> None | Some x \<Rightarrow> if x = CHR 0x00 then Some 0 else map_option Suc (c_len cs))"

definition update_offset :: "printbuffer \<Rightarrow> printbuffer option" where
  "update_offset p =
     (case pb_buffer p of
        None \<Rightarrow> Some p
      | Some mem \<Rightarrow> do { n \<leftarrow> c_len (drop (pb_offset p) mem); Some (p\<lparr>pb_offset := pb_offset p + n\<rparr>) })"

text \<open>Bytes written from the \<open>i\<close>-th one behind the offset on; a call that may return false; a call that
  cannot.\<close>

definition put :: "nat \<Rightarrow> string \<Rightarrow> printbuffer \<Rightarrow> printbuffer option" where
  "put i s p =
     (case pb_buffer p of
        None \<Rightarrow> None
      | Some mem \<Rightarrow>
          (let k = pb_offset p + i in
           if k + length s \<le> length mem
           then Some (p\<lparr>pb_buffer := Some (take k mem @ map Some s @ drop (k + length s) mem)\<rparr>)
           else None))"

definition if_ok :: "pres \<Rightarrow> (printbuffer \<Rightarrow> pres) \<Rightarrow> pres" where
  "if_ok r k = do { (ok, p) \<leftarrow> r; if ok then k p else Some (False, p) }"

definition then_true :: "printbuffer option \<Rightarrow> pres" where
  "then_true r = map_option (Pair True) r"

definition forward :: "nat \<Rightarrow> printbuffer \<Rightarrow> printbuffer" where
  "forward n p = p\<lparr>pb_offset := pb_offset p + n\<rparr>"

abbreviation (input) emit :: "string \<Rightarrow> printbuffer \<Rightarrow> pres" where
  "emit s p \<equiv> then_true (put 0 s p)"

abbreviation (input) c_text :: "string \<Rightarrow> string" where
  "c_text s \<equiv> s @ [CHR 0x00]"

section \<open>Numbers\<close>

text \<open>\<^verbatim>\<open>fabs(a - b) <= maxVal * DBL_EPSILON\<close>; the difference of two equal infinities is not a number.\<close>

definition compare_double :: "double \<Rightarrow> double \<Rightarrow> bool" where
  "compare_double a b =
     (case (a, b) of
        (Finite x, Finite y) \<Rightarrow>
          (let maxVal = (if \<bar>y\<bar> < \<bar>x\<bar> then \<bar>x\<bar> else \<bar>y\<bar>) in
           case (round_double \<bar>x - y\<bar>, round_double (maxVal * 2 powi (-52))) of
             (Finite d, Finite m) \<Rightarrow> d \<le> m
           | (_, Infinite _) \<Rightarrow> True
           | (Infinite _, Finite _) \<Rightarrow> False)
      | (Infinite s, Infinite t) \<Rightarrow> s \<noteq> t
      | _ \<Rightarrow> True)"

definition number_text :: "double \<Rightarrow> int \<Rightarrow> string" where
  "number_text d i =
     (case d of
        Infinite _ \<Rightarrow> ''null''
      | Finite x \<Rightarrow>
          (if x = of_int i then show_int i
           else let t = fmt_g 15 x; (test, used) = strtod t
                in if used = 0 \<or> \<not> compare_double test d then fmt_g 17 x else t))"

text \<open>The text is written to a block of 26 bytes first.\<close>

definition print_number :: "double \<Rightarrow> int \<Rightarrow> printbuffer \<Rightarrow> pres" where
  "print_number d i p =
     (let number_buffer = number_text d i in
      if 26 < length (c_text number_buffer) then None
      else if_ok (ensure p (length number_buffer + 1)) (\<lambda>p.
           if_ok (emit (c_text number_buffer) p) (\<lambda>p.
           Some (True, forward (length number_buffer) p))))"

section \<open>Strings\<close>

definition escape_extra :: "char \<Rightarrow> nat" where
  "escape_extra c =
     (if c \<in> {CHR 0x22, CHR 0x5C, CHR 0x08, CHR 0x0C, CHR 0x0A, CHR 0x0D, CHR 0x09} then 1
      else if (of_char c :: nat) < 32 then 5 else 0)"

definition escape_letter :: "char \<Rightarrow> char option" where
  "escape_letter c =
     (if c = CHR 0x5C then Some (CHR 0x5C)
      else if c = CHR 0x22 then Some (CHR 0x22)
      else if c = CHR 0x08 then Some (CHR ''b'')
      else if c = CHR 0x0C then Some (CHR ''f'')
      else if c = CHR 0x0A then Some (CHR ''n'')
      else if c = CHR 0x0D then Some (CHR ''r'')
      else if c = CHR 0x09 then Some (CHR ''t'')
      else None)"

text \<open>\<^verbatim>\<open>sprintf\<close> of \<^verbatim>\<open>u%04x\<close> on a control character.\<close>

definition hex_escape :: "char \<Rightarrow> string" where
  "hex_escape c = ''u00'' @ [hex_chr (of_char c div 16), hex_chr (of_char c mod 16)]"

text \<open>\<open>i\<close> is the distance of \<^verbatim>\<open>output_pointer\<close> from \<^verbatim>\<open>output\<close>.\<close>

fun escape_loop :: "string \<Rightarrow> nat \<Rightarrow> printbuffer \<Rightarrow> printbuffer option" where
  "escape_loop [] i p = Some p"
| "escape_loop (c # cs) i p =
     (if 31 < (of_char c :: nat) \<and> c \<noteq> CHR 0x22 \<and> c \<noteq> CHR 0x5C
      then do { p \<leftarrow> put i [c] p; escape_loop cs (i + 1) p }
      else do { p \<leftarrow> put i [CHR 0x5C] p;
                case escape_letter c of
                  Some x \<Rightarrow> do { p \<leftarrow> put (i + 1) [x] p; escape_loop cs (i + 2) p }
                | None \<Rightarrow> do { p \<leftarrow> put (i + 1) (c_text (hex_escape c)) p; escape_loop cs (i + 6) p } })"

definition print_string_ptr :: "string \<Rightarrow> printbuffer \<Rightarrow> pres" where
  "print_string_ptr input p =
     (let escape_characters = sum_list (map escape_extra input);
          output_length = length input + escape_characters
      in if_ok (ensure p (output_length + 3)) (\<lambda>p.
         if escape_characters = 0 then emit (CHR 0x22 # input @ c_text [CHR 0x22]) p
         else then_true (do { p \<leftarrow> put 0 [CHR 0x22] p;
                              p \<leftarrow> escape_loop input 1 p;
                              put (output_length + 1) (c_text [CHR 0x22]) p })))"

section \<open>Values\<close>

fun print_value :: "cJSON \<Rightarrow> printbuffer \<Rightarrow> pres"
  and print_elements :: "cJSON list \<Rightarrow> printbuffer \<Rightarrow> pres"
  and print_members :: "(string \<times> cJSON) list \<Rightarrow> printbuffer \<Rightarrow> pres" where
  "print_value cJSON_NULL p = if_ok (ensure p 5) (emit (c_text ''null''))"
| "print_value cJSON_False p = if_ok (ensure p 6) (emit (c_text ''false''))"
| "print_value cJSON_True p = if_ok (ensure p 5) (emit (c_text ''true''))"
| "print_value (cJSON_Number d i) p = print_number d i p"
| "print_value (cJSON_Raw s) p = if_ok (ensure p (length s + 1)) (emit (c_text s))"
| "print_value (cJSON_String s) p = print_string_ptr s p"
| "print_value (cJSON_Array vs) p =
     (if CJSON_NESTING_LIMIT \<le> pb_depth p then Some (False, p)
      else if_ok (ensure p 1) (\<lambda>p.
           if_ok (emit ''['' p) (\<lambda>p.
           print_elements vs (forward 1 p\<lparr>pb_depth := pb_depth p + 1\<rparr>))))"
| "print_value (cJSON_Object ms) p =
     (if CJSON_NESTING_LIMIT \<le> pb_depth p then Some (False, p)
      else let len = (if pb_format p then 2 else 1) in
           if_ok (ensure p (len + 1)) (\<lambda>p.
           if_ok (emit (CHR ''{'' # (if pb_format p then [CHR 0x0A] else [])) p) (\<lambda>p.
           print_members ms (forward len p\<lparr>pb_depth := pb_depth p + 1\<rparr>))))"
| "print_elements [] p =
     if_ok (ensure p 2) (\<lambda>p.
     if_ok (emit (c_text '']'') p) (\<lambda>p.
     Some (True, p\<lparr>pb_depth := pb_depth p - 1\<rparr>)))"
| "print_elements (v # vs) p =
     if_ok (print_value v p) (\<lambda>p.
     if_ok (then_true (update_offset p)) (\<lambda>p.
     if vs = [] then print_elements [] p
     else let len = (if pb_format p then 2 else 1) in
          if_ok (ensure p (len + 1)) (\<lambda>p.
          if_ok (emit (c_text (CHR '','' # (if pb_format p then '' '' else []))) p) (\<lambda>p.
          print_elements vs (forward len p)))))"
| "print_members [] p =
     if_ok (ensure p (if pb_format p then pb_depth p + 1 else 2)) (\<lambda>p.
     if_ok (emit ((if pb_format p then replicate (pb_depth p - 1) (CHR 0x09) else []) @ c_text ''}'') p) (\<lambda>p.
     Some (True, p\<lparr>pb_depth := pb_depth p - 1\<rparr>)))"
| "print_members (m # ms) p =
     if_ok (if pb_format p
            then if_ok (ensure p (pb_depth p)) (\<lambda>p.
                 if_ok (emit (replicate (pb_depth p) (CHR 0x09)) p) (\<lambda>p.
                 Some (True, forward (pb_depth p) p)))
            else Some (True, p)) (\<lambda>p.
     if_ok (print_string_ptr (fst m) p) (\<lambda>p.
     if_ok (then_true (update_offset p)) (\<lambda>p.
     let len = (if pb_format p then 2 else 1) in
     if_ok (ensure p len) (\<lambda>p.
     if_ok (emit (CHR '':'' # (if pb_format p then [CHR 0x09] else [])) p) (\<lambda>p.
     if_ok (print_value (snd m) (forward len p)) (\<lambda>p.
     if_ok (then_true (update_offset p)) (\<lambda>p.
     let len = (if pb_format p then 1 else 0) + (if ms \<noteq> [] then 1 else 0) in
     if_ok (ensure p (len + 1)) (\<lambda>p.
     if_ok (emit (c_text ((if ms \<noteq> [] then '','' else []) @ (if pb_format p then [CHR 0x0A] else []))) p) (\<lambda>p.
     print_members ms (forward len p))))))))))"

section \<open>Entry points\<close>

abbreviation (input) default_buffer_size :: nat where "default_buffer_size \<equiv> 256"

text \<open>The C string at the start of a block.\<close>

definition c_read :: "char option list \<Rightarrow> string option" where
  "c_read mem = do { n \<leftarrow> c_len mem; Some (map the (take n mem)) }"

text \<open>The outer \<open>None\<close> is an access out of bounds; the inner one the null pointer that is returned. \<open>realloc\<close>
  is whether the hooks have a \<^verbatim>\<open>reallocate\<close>; with and without it the result is a block with the text up to the
  offset and a NUL.\<close>

definition print_tree :: "cJSON \<Rightarrow> bool \<Rightarrow> bool \<Rightarrow> allocs \<Rightarrow> string option option" where
  "print_tree item format realloc hs =
     (let (ok, hs) = alloc hs in
      if \<not> ok then Some None
      else do {
        (ok, buffer) \<leftarrow> print_value item \<lparr>pb_buffer = Some (replicate default_buffer_size None), pb_length = default_buffer_size,
          pb_offset = 0, pb_depth = 0, pb_noalloc = False, pb_format = format, pb_realloc = realloc, pb_hooks = hs\<rparr>;
        if \<not> ok then Some None
        else do {
          buffer \<leftarrow> update_offset buffer;
          mem \<leftarrow> pb_buffer buffer;
          if \<not> fst (alloc (pb_hooks buffer)) then Some None
          else do { t \<leftarrow> c_read (take (pb_offset buffer) mem @ [Some (CHR 0x00)]); Some (Some t) } } })"

definition cJSON_Print :: "cJSON \<Rightarrow> bool \<Rightarrow> allocs \<Rightarrow> string option option" where
  "cJSON_Print item realloc hs = print_tree item True realloc hs"

definition cJSON_PrintUnformatted :: "cJSON \<Rightarrow> bool \<Rightarrow> allocs \<Rightarrow> string option option" where
  "cJSON_PrintUnformatted item realloc hs = print_tree item False realloc hs"

definition cJSON_PrintBuffered :: "cJSON \<Rightarrow> int \<Rightarrow> bool \<Rightarrow> bool \<Rightarrow> allocs \<Rightarrow> string option option" where
  "cJSON_PrintBuffered item prebuffer fmt realloc hs =
     (if prebuffer < 0 then Some None
      else let (ok, hs) = alloc hs in
           if \<not> ok then Some None
           else do {
             (ok, p) \<leftarrow> print_value item \<lparr>pb_buffer = Some (replicate (nat prebuffer) None), pb_length = nat prebuffer,
               pb_offset = 0, pb_depth = 0, pb_noalloc = False, pb_format = fmt, pb_realloc = realloc, pb_hooks = hs\<rparr>;
             if \<not> ok then Some None
             else do { mem \<leftarrow> pb_buffer p; t \<leftarrow> c_read mem; Some (Some t) } })"

text \<open>\<open>buffer\<close> is the caller's block, \<open>None\<close> a null pointer.\<close>

definition cJSON_PrintPreallocated :: "cJSON \<Rightarrow> char option list option \<Rightarrow> int \<Rightarrow> bool \<Rightarrow> (bool \<times> char option list option) option" where
  "cJSON_PrintPreallocated item buffer len format =
     (if len < 0 \<or> buffer = None then Some (False, buffer)
      else do {
        (ok, p) \<leftarrow> print_value item \<lparr>pb_buffer = buffer, pb_length = nat len,
          pb_offset = 0, pb_depth = 0, pb_noalloc = True, pb_format = format, pb_realloc = True, pb_hooks = []\<rparr>;
        Some (ok, pb_buffer p) })"

section \<open>Specification\<close>

definition quoted :: "string \<Rightarrow> string" where
  "quoted s = CHR 0x22 # escaped s @ [CHR 0x22]"

text \<open>The text of a tree at a depth: with the white space of the formatted output, or without.\<close>

fun pretty :: "bool \<Rightarrow> nat \<Rightarrow> cJSON \<Rightarrow> string" where
  "pretty f n cJSON_NULL = ''null''"
| "pretty f n cJSON_False = ''false''"
| "pretty f n cJSON_True = ''true''"
| "pretty f n (cJSON_Number d i) = number_text d i"
| "pretty f n (cJSON_Raw s) = s"
| "pretty f n (cJSON_String s) = quoted s"
| "pretty f n (cJSON_Array vs) =
     ''['' @ join_with (if f then '', '' else '','') (map (pretty f (n + 1)) vs) @ '']''"
| "pretty f n (cJSON_Object ms) =
     ''{'' @ (if f then [CHR 0x0A] else []) @
     join_with (if f then [CHR '','', CHR 0x0A] else '','')
       (map (\<lambda>m. (if f then replicate (n + 1) (CHR 0x09) else []) @ quoted (fst m) @ '':'' @
          (if f then [CHR 0x09] else []) @ pretty f (n + 1) (snd m)) ms) @
     (if f \<and> ms \<noteq> [] then [CHR 0x0A] else []) @ (if f then replicate n (CHR 0x09) else []) @ ''}''"

text \<open>Trees that can be printed: doubles and C strings; and their nesting.\<close>

fun printable :: "cJSON \<Rightarrow> bool" where
  "printable (cJSON_Number d i) \<longleftrightarrow> is_double d \<and> is_int32 i"
| "printable (cJSON_String s) \<longleftrightarrow> CHR 0x00 \<notin> set s"
| "printable (cJSON_Raw s) \<longleftrightarrow> CHR 0x00 \<notin> set s"
| "printable (cJSON_Array vs) \<longleftrightarrow> (\<forall>v \<in> set vs. printable v)"
| "printable (cJSON_Object ms) \<longleftrightarrow> (\<forall>m \<in> set ms. CHR 0x00 \<notin> set (fst m) \<and> printable (snd m))"
| "printable _ \<longleftrightarrow> True"

fun nesting :: "cJSON \<Rightarrow> nat" where
  "nesting (cJSON_Array vs) = Suc (Max (insert 0 (set (map nesting vs))))"
| "nesting (cJSON_Object ms) = Suc (Max (insert 0 (set (map (\<lambda>m. nesting (snd m)) ms))))"
| "nesting _ = 0"

text \<open>The buffer holds \<open>s\<close> up to its offset; a value \<open>t\<close> has been written behind \<open>s\<close>.\<close>

definition filled :: "string \<Rightarrow> printbuffer \<Rightarrow> bool" where
  "filled s p \<longleftrightarrow> (\<exists>r. pb_buffer p = Some (map Some s @ r) \<and> pb_length p = length s + length r \<and>
     pb_offset p = length s \<and> (r \<noteq> [] \<or> s = [] \<and> pb_realloc p))"

definition wrote :: "string \<Rightarrow> printbuffer \<Rightarrow> bool" where
  "wrote s p \<longleftrightarrow> (\<exists>r. pb_buffer p = Some (map Some s @ Some (CHR 0x00) # r) \<and> pb_length p = length s + 1 + length r \<and>
     pb_offset p \<le> length s)"

text \<open>Every allocation succeeds; there are \<open>n\<close> bytes, or they can be had.\<close>

definition supplied :: "printbuffer \<Rightarrow> bool" where
  "supplied p \<longleftrightarrow> (\<forall>x \<in> set (pb_hooks p). x)"

definition room :: "printbuffer \<Rightarrow> nat \<Rightarrow> bool" where
  "room p n \<longleftrightarrow> int n \<le> INT_MAX \<and> (n \<le> pb_length p \<or> \<not> pb_noalloc p \<and> supplied p)"

definition kept :: "printbuffer \<Rightarrow> printbuffer \<Rightarrow> bool" where
  "kept p p' \<longleftrightarrow> pb_format p' = pb_format p \<and> pb_realloc p' = pb_realloc p \<and> (\<forall>n. room p n \<longrightarrow> room p' n) \<and>
     (supplied p \<longrightarrow> supplied p')"

text \<open>No access is out of bounds; the call succeeds with \<open>Q\<close>, and it does succeed if there is room for \<open>n\<close>
  bytes and \<open>C\<close> holds.\<close>

definition does :: "bool \<Rightarrow> nat \<Rightarrow> printbuffer \<Rightarrow> (printbuffer \<Rightarrow> bool) \<Rightarrow> pres \<Rightarrow> bool" where
  "does C n p Q r =
     (case r of None \<Rightarrow> False | Some (ok, p') \<Rightarrow> if ok then kept p p' \<and> Q p' else \<not> (C \<and> room p n))"

section \<open>Lemmas: the buffer\<close>

lemma supplied_simps [simp]:
  "supplied (p\<lparr>pb_depth := d\<rparr>) \<longleftrightarrow> supplied p" "supplied (p\<lparr>pb_offset := k\<rparr>) \<longleftrightarrow> supplied p"
  "supplied (p\<lparr>pb_buffer := b\<rparr>) \<longleftrightarrow> supplied p"
  by (simp_all add: supplied_def)

lemma alloc_supplied:
  "alloc (pb_hooks p) = (ok, hs) \<Longrightarrow> supplied p \<Longrightarrow> ok \<and> (\<forall>x \<in> set hs. x)"
  by (auto simp: alloc_def supplied_def split: list.splits)

lemma kept_format: "kept p p' \<Longrightarrow> pb_format p' = pb_format p"
  by (simp add: kept_def)

lemma kept_refl [simp]: "kept p p"
  by (simp add: kept_def)

lemma kept_trans: "kept p p' \<Longrightarrow> kept p' p'' \<Longrightarrow> kept p p''"
  by (auto simp: kept_def)

lemma does_if_ok:
  assumes "does C n p Q r" and "\<And>p'. kept p p' \<Longrightarrow> Q p' \<Longrightarrow> does C n p' R (k p')"
  shows "does C n p R (if_ok r k)"
proof (cases r)
  case (Some x)
  obtain ok p1 where x: "x = (ok, p1)" by fastforce
  show ?thesis
  proof (cases ok)
    case True
    then have k: "kept p p1" "Q p1" using assms(1) Some x by (auto simp: does_def)
    from assms(2)[OF k] k(1) show ?thesis using Some x True
      by (auto simp: does_def if_ok_def kept_def split: option.splits if_splits)
  qed (use assms(1) Some x in \<open>auto simp: does_def if_ok_def\<close>)
qed (use assms(1) in \<open>auto simp: does_def\<close>)

lemma does_weaken: "does C n p Q r \<Longrightarrow> (\<And>p'. kept p p' \<Longrightarrow> Q p' \<Longrightarrow> R p') \<Longrightarrow> does C n p R r"
  by (auto simp: does_def split: option.splits)

lemma does_true: "kept p p' \<Longrightarrow> Q p' \<Longrightarrow> does C n p Q (Some (True, p'))"
  by (simp add: does_def)

lemma ensure_does:
  assumes "filled s p" and "length s + k + 1 \<le> n"
  shows "does C n p (\<lambda>p'. filled s p' \<and> length s + k + 1 \<le> pb_length p' \<and> pb_depth p' = pb_depth p) (ensure p k)"
proof -
  obtain r where r: "pb_buffer p = Some (map Some s @ r)" "pb_length p = length s + length r" "pb_offset p = length s"
      "r \<noteq> [] \<or> s = [] \<and> pb_realloc p" using assms(1) by (auto simp: filled_def)
  have valid: "\<not> (0 < pb_length p \<and> pb_length p \<le> pb_offset p)" using r by auto
  let ?need = "k + pb_offset p + 1"
  consider "INT_MAX < int k" | "int k \<le> INT_MAX" "?need \<le> pb_length p" | "int k \<le> INT_MAX" "pb_length p < ?need" "pb_noalloc p \<or> INT_MAX < int ?need"
    | "pb_length p < ?need" "\<not> pb_noalloc p" "int ?need \<le> INT_MAX" "\<not> fst (alloc (pb_hooks p))"
    | "pb_length p < ?need" "\<not> pb_noalloc p" "int ?need \<le> INT_MAX" "fst (alloc (pb_hooks p))" by linarith
  then show ?thesis
  proof cases
    case 1
    then show ?thesis using r valid assms(2) by (auto simp: ensure_def does_def room_def)
  next
    case 2
    then show ?thesis using r valid assms(1) by (auto simp: ensure_def does_def)
  next
    case 3
    then show ?thesis using r valid assms(2) by (auto simp: ensure_def does_def room_def Let_def)
  next
    case 4
    then show ?thesis using r valid assms(2)
      by (auto simp: ensure_def does_def room_def Let_def split_beta dest: alloc_supplied[OF surjective_pairing])
  next
    case 5
    let ?size = "if INT_MAX div 2 < int ?need then nat INT_MAX else ?need * 2"
    have size: "?need \<le> ?size" using 5(3) by auto
    obtain hs where hs: "alloc (pb_hooks p) = (True, hs)" using 5(4) by (cases "alloc (pb_hooks p)") auto
    define tail where "tail = (if pb_realloc p then r @ replicate (?size - (length s + length r)) None
      else take 1 r @ replicate (?size - (length s + 1)) None)"
    have "min (length r) 1 = Suc 0" if "r \<noteq> []" using that by (cases r) simp_all
    then have tail: "tail \<noteq> []" "length s + length tail = ?size" using size r 5(1) unfolding tail_def by (auto split: if_splits simp del: One_nat_def)
    let ?p = "p\<lparr>pb_hooks := hs, pb_length := ?size, pb_buffer := Some (map Some s @ tail)\<rparr>"
    have "ensure p k = Some (True, ?p)" using 5 r valid hs unfolding tail_def by (auto simp: ensure_def Let_def)
    moreover have "kept p ?p" using size 5(1) alloc_supplied[OF hs] by (auto simp: kept_def room_def supplied_def)
    moreover have "filled s ?p" using tail r(3) by (auto simp: filled_def)
    ultimately show ?thesis using size r(3) by (auto intro!: does_true)
  qed
qed

lemma kept_forward [simp]: "kept p (forward n p') \<longleftrightarrow> kept p p'" "kept p (p'\<lparr>pb_depth := d\<rparr>) \<longleftrightarrow> kept p p'"
  by (simp_all add: kept_def forward_def room_def)

lemma room_simps [simp]: "room (forward k p) n \<longleftrightarrow> room p n" "room (p\<lparr>pb_depth := d\<rparr>) n \<longleftrightarrow> room p n"
  by (simp_all add: forward_def room_def)

lemma forward_simps [simp]:
  "pb_depth (forward n p) = pb_depth p" "pb_format (forward n p) = pb_format p" "pb_offset (forward n p) = pb_offset p + n"
  "pb_buffer (forward n p) = pb_buffer p" "pb_length (forward n p) = pb_length p" "pb_realloc (forward n p) = pb_realloc p"
  by (simp_all add: forward_def)

lemma depth_simps [simp]: "filled s (p\<lparr>pb_depth := d\<rparr>) \<longleftrightarrow> filled s p" "wrote s (p\<lparr>pb_depth := d\<rparr>) \<longleftrightarrow> wrote s p"
  by (simp_all add: filled_def wrote_def)

lemma put_at:
  assumes "pb_buffer p = Some (map Some s @ r)" and "pb_offset p + i = length s" and "length t \<le> length r"
  shows "put i t p = Some (p\<lparr>pb_buffer := Some (map Some (s @ t) @ drop (length t) r)\<rparr>)"
  using assms by (simp add: put_def)

lemma emit_text_does:
  assumes "filled s p" and "length s + length t + 1 \<le> pb_length p"
  shows "does C n p (\<lambda>p'. wrote (s @ t) p' \<and> pb_offset p' = length s \<and> pb_depth p' = pb_depth p) (emit (c_text t) p)"
proof -
  obtain r where r: "pb_buffer p = Some (map Some s @ r)" "pb_length p = length s + length r" "pb_offset p = length s"
    using assms(1) by (auto simp: filled_def)
  have "put 0 (c_text t) p = Some (p\<lparr>pb_buffer := Some (map Some (s @ c_text t) @ drop (length (c_text t)) r)\<rparr>)"
    by (rule put_at[OF r(1)]) (use r assms(2) in simp_all)
  moreover have "wrote (s @ t) (p\<lparr>pb_buffer := Some (map Some (s @ c_text t) @ drop (length (c_text t)) r)\<rparr>)"
    using r assms(2) by (auto simp: wrote_def)
  ultimately show ?thesis using r by (auto simp: then_true_def kept_def room_def intro!: does_true)
qed

lemma emit_does:
  assumes "filled s p" and "length s + length t < pb_length p"
  shows "does C n p (\<lambda>p'. filled (s @ t) (forward (length t) p') \<and> pb_depth p' = pb_depth p) (emit t p)"
proof -
  obtain r where r: "pb_buffer p = Some (map Some s @ r)" "pb_length p = length s + length r" "pb_offset p = length s"
    using assms(1) by (auto simp: filled_def)
  have "put 0 t p = Some (p\<lparr>pb_buffer := Some (map Some (s @ t) @ drop (length t) r)\<rparr>)"
    by (rule put_at[OF r(1)]) (use r assms(2) in simp_all)
  moreover have "filled (s @ t) (forward (length t) (p\<lparr>pb_buffer := Some (map Some (s @ t) @ drop (length t) r)\<rparr>))"
    using r assms(2) by (auto simp: filled_def)
  ultimately show ?thesis using r by (auto simp: then_true_def kept_def room_def intro!: does_true)
qed

lemma forward_wrote:
  "wrote (s @ t) p \<Longrightarrow> pb_offset p = length s \<Longrightarrow> filled (s @ t) (forward (length t) p) \<and> wrote (s @ t) (forward (length t) p)"
  by (auto simp: wrote_def filled_def)

lemma c_len_text: "CHR 0x00 \<notin> set u \<Longrightarrow> c_len (map Some u @ Some (CHR 0x00) # r) = Some (length u)"
  by (induction u) auto

lemma update_offset_does:
  assumes "wrote s p" and "CHR 0x00 \<notin> set s"
  shows "does C n p (\<lambda>p'. filled s p' \<and> pb_depth p' = pb_depth p) (then_true (update_offset p))"
proof -
  obtain r where r: "pb_buffer p = Some (map Some s @ Some (CHR 0x00) # r)" "pb_length p = length s + 1 + length r" "pb_offset p \<le> length s"
    using assms(1) by (auto simp: wrote_def)
  have "drop (pb_offset p) (map Some s @ Some (CHR 0x00) # r) = map Some (drop (pb_offset p) s) @ Some (CHR 0x00) # r"
    using r(3) by (simp add: drop_map)
  moreover have "CHR 0x00 \<notin> set (drop (pb_offset p) s)" using assms(2) by (auto dest: in_set_dropD)
  ultimately have "update_offset p = Some (p\<lparr>pb_offset := length s\<rparr>)"
    using r c_len_text[of "drop (pb_offset p) s" r] by (simp add: update_offset_def)
  moreover have "filled s (p\<lparr>pb_offset := length s\<rparr>)" using r by (auto simp: filled_def)
  ultimately show ?thesis by (auto simp: then_true_def kept_def room_def intro!: does_true)
qed

text \<open>A piece of text: room for it is asked for, then it is written.\<close>

lemma piece_does:
  assumes "filled s p" and "length s + k + 1 \<le> n" and "length t \<le> k"
  shows "does C n p (\<lambda>p'. wrote (s @ t) p' \<and> pb_offset p' = length s \<and> pb_depth p' = pb_depth p) (if_ok (ensure p k) (emit (c_text t)))"
  by (rule does_if_ok[OF ensure_does[OF assms(1,2)]]) (use assms(3) in \<open>auto intro!: does_weaken[OF emit_text_does]\<close>)

section \<open>Lemmas: numbers\<close>

lemma number_text_length:
  assumes "is_double d" and "is_int32 i"
  shows "length (number_text d i) \<le> 24"
proof (cases d)
  case (Finite x)
  have "x \<noteq> 0 \<Longrightarrow> \<bar>ilog10 \<bar>x\<bar>\<bar> < 999" using is_double_exponent assms(1) Finite by blast
  from fmt_g_length[OF _ this, of 15] fmt_g_length[OF _ this, of 17]
  have "length (fmt_g 15 x) \<le> 24" "length (fmt_g 17 x) \<le> 24" by simp_all
  moreover have "length (show_int i) \<le> 24" using show_int_length[OF assms(2)] by simp
  ultimately show ?thesis using Finite by (simp add: number_text_def Let_def split_beta)
qed (simp add: number_text_def)

lemma print_number_does:
  assumes "filled s p" and "is_double d" and "is_int32 i" and "length s + length (number_text d i) + 2 \<le> n"
  shows "does C n p (\<lambda>p'. wrote (s @ number_text d i) p' \<and> pb_depth p' = pb_depth p) (print_number d i p)"
proof -
  let ?t = "number_text d i"
  have fits: "\<not> 26 < length (c_text ?t)" using number_text_length[OF assms(2,3)] by simp
  show ?thesis unfolding print_number_def Let_def
  proof (simp only: fits if_False, rule does_if_ok[OF ensure_does[OF assms(1)]])
    show "length s + (length ?t + 1) + 1 \<le> n" using assms(4) by simp
    fix p' assume p': "filled s p' \<and> length s + (length ?t + 1) + 1 \<le> pb_length p' \<and> pb_depth p' = pb_depth p"
    show "does C n p' (\<lambda>p'. wrote (s @ ?t) p' \<and> pb_depth p' = pb_depth p)
        (if_ok (emit (c_text ?t) p') (\<lambda>p. Some (True, forward (length ?t) p)))"
      by (rule does_if_ok[OF emit_text_does]) (use p' forward_wrote in \<open>auto intro!: does_true\<close>)
  qed
qed

section \<open>Lemmas: strings\<close>

lemma escape_of_code:
  "escape_of c = (if 31 < (of_char c :: nat) \<and> c \<noteq> CHR 0x22 \<and> c \<noteq> CHR 0x5C then [c]
     else CHR 0x5C # (case escape_letter c of Some x \<Rightarrow> [x] | None \<Rightarrow> hex_escape c))"
  by (auto simp: escape_of_def escape_letter_def hex_escape_def not_less)

lemma escape_extra_length: "length (escape_of c) = 1 + escape_extra c"
  by (auto simp: escape_of_def escape_extra_def)

lemma escaped_length: "length (escaped s) = length s + sum_list (map escape_extra s)"
  by (induction s) (auto simp: escape_extra_length)

lemma escaped_id: "sum_list (map escape_extra s) = 0 \<Longrightarrow> escaped s = s"
proof (induction s)
  case (Cons c s)
  then have "escape_extra c = 0" by simp
  then have "escape_of c = [c]" by (auto simp: escape_extra_def escape_of_def split: if_splits)
  with Cons show ?case by simp
qed simp

lemma escape_loop_put:
  assumes "pb_buffer p = Some (map Some s @ r)" and "pb_offset p + i = length s" and "length (escaped cs) < length r"
  shows "\<exists>r'. escape_loop cs i p = Some (p\<lparr>pb_buffer := Some (map Some (s @ escaped cs) @ r')\<rparr>) \<and>
    length r' + length (escaped cs) = length r"
  using assms
proof (induction cs arbitrary: s r i p)
  case (Cons c cs)
  have cont: "\<exists>r'. escape_loop cs (i + length (escape_of c)) (p\<lparr>pb_buffer := Some (map Some (s @ escape_of c) @ r1)\<rparr>) =
        Some (p\<lparr>pb_buffer := Some (map Some (s @ escaped (c # cs)) @ r')\<rparr>) \<and> length r' + length (escaped (c # cs)) = length r"
    if "length r1 + length (escape_of c) = length r" for r1
    using Cons.IH[of "p\<lparr>pb_buffer := Some (map Some (s @ escape_of c) @ r1)\<rparr>" "s @ escape_of c" r1 "i + length (escape_of c)"]
      Cons.prems that by (auto simp: add.assoc)
  consider "31 < (of_char c :: nat) \<and> c \<noteq> CHR 0x22 \<and> c \<noteq> CHR 0x5C"
    | x where "\<not> (31 < (of_char c :: nat) \<and> c \<noteq> CHR 0x22 \<and> c \<noteq> CHR 0x5C)" "escape_letter c = Some x"
    | "\<not> (31 < (of_char c :: nat) \<and> c \<noteq> CHR 0x22 \<and> c \<noteq> CHR 0x5C)" "escape_letter c = None" by blast
  then show ?case
  proof cases
    case 1
    then have e: "escape_of c = [c]" by (simp add: escape_of_code)
    have "put i [c] p = Some (p\<lparr>pb_buffer := Some (map Some (s @ [c]) @ drop 1 r)\<rparr>)"
      using put_at[OF Cons.prems(1,2), of "[c]"] Cons.prems(3) e by simp
    then show ?thesis using 1 e cont[of "drop 1 r"] Cons.prems(3) by simp
  next
    case (2 x)
    then have e: "escape_of c = [CHR 0x5C, x]" by (auto simp: escape_of_code)
    let ?p1 = "p\<lparr>pb_buffer := Some (map Some (s @ [CHR 0x5C]) @ drop 1 r)\<rparr>"
    have "put i [CHR 0x5C] p = Some ?p1" using put_at[OF Cons.prems(1,2), of "[CHR 0x5C]"] Cons.prems(3) e by simp
    moreover have "put (i + 1) [x] ?p1 = Some (p\<lparr>pb_buffer := Some (map Some (s @ escape_of c) @ drop 2 r)\<rparr>)"
      using put_at[of ?p1 "s @ [CHR 0x5C]" "drop 1 r" "i + 1" "[x]"] Cons.prems(2,3) e by (simp add: numeral_2_eq_2)
    ultimately show ?thesis unfolding escape_loop.simps if_not_P[OF 2(1)]
      using 2(2) e cont[of "drop 2 r"] Cons.prems(3) by (simp add: numeral_2_eq_2)
  next
    case 3
    then have e: "escape_of c = CHR 0x5C # hex_escape c" by (auto simp: escape_of_code)
    have l: "length (hex_escape c) = 5" by (simp add: hex_escape_def)
    let ?p1 = "p\<lparr>pb_buffer := Some (map Some (s @ [CHR 0x5C]) @ drop 1 r)\<rparr>"
    have "put i [CHR 0x5C] p = Some ?p1" using put_at[OF Cons.prems(1,2), of "[CHR 0x5C]"] Cons.prems(3) e by simp
    moreover have "put (i + 1) (c_text (hex_escape c)) ?p1 =
        Some (p\<lparr>pb_buffer := Some (map Some (s @ escape_of c) @ Some (CHR 0x00) # drop 7 r)\<rparr>)"
      using put_at[of ?p1 "s @ [CHR 0x5C]" "drop 1 r" "i + 1" "c_text (hex_escape c)"] Cons.prems(2,3) e l by simp
    ultimately show ?thesis unfolding escape_loop.simps if_not_P[OF 3(1)] using 3(2) e l cont[of "Some (CHR 0x00) # drop 7 r"] Cons.prems(3) by simp
  qed
next
  case Nil
  then show ?case by (cases p) auto
qed

lemma print_string_does:
  assumes "filled s p" and "length s + length (quoted input) + 2 \<le> n"
  shows "does C n p (\<lambda>p'. wrote (s @ quoted input) p' \<and> pb_depth p' = pb_depth p) (print_string_ptr input p)"
proof -
  let ?extra = "sum_list (map escape_extra input)" and ?len = "length (escaped input)"
  have len: "length input + ?extra = ?len" by (simp add: escaped_length)
  show ?thesis unfolding print_string_ptr_def Let_def len
  proof (rule does_if_ok[OF ensure_does[OF assms(1)]])
    show "length s + (?len + 3) + 1 \<le> n" using assms(2) by (simp add: quoted_def)
    fix p' assume p': "filled s p' \<and> length s + (?len + 3) + 1 \<le> pb_length p' \<and> pb_depth p' = pb_depth p"
    then obtain r where r: "pb_buffer p' = Some (map Some s @ r)" "pb_length p' = length s + length r" "pb_offset p' = length s" "?len + 4 \<le> length r"
      by (auto simp: filled_def)
    show "does C n p' (\<lambda>p'. wrote (s @ quoted input) p' \<and> pb_depth p' = pb_depth p)
        (if ?extra = 0 then emit (CHR 0x22 # input @ c_text [CHR 0x22]) p'
         else then_true (do { p \<leftarrow> put 0 [CHR 0x22] p'; p \<leftarrow> escape_loop input 1 p; put (?len + 1) (c_text [CHR 0x22]) p }))"
    proof (cases "?extra = 0")
      case True
      then show ?thesis using emit_text_does[of s p' "quoted input" C n] p' escaped_id[OF True]
        by (auto simp: quoted_def intro: does_weaken)
    next
      case False
      let ?p1 = "p'\<lparr>pb_buffer := Some (map Some (s @ [CHR 0x22]) @ drop 1 r)\<rparr>"
      have p1: "put 0 [CHR 0x22] p' = Some ?p1" using put_at[OF r(1), of 0 "[CHR 0x22]"] r(3,4) by simp
      have "?len < length (drop 1 r)" using r(4) by simp
      then obtain r2 where r2: "escape_loop input 1 ?p1 = Some (p'\<lparr>pb_buffer := Some (map Some (s @ CHR 0x22 # escaped input) @ r2)\<rparr>)"
          "length r2 + ?len = length r - 1"
        using escape_loop_put[of ?p1 "s @ [CHR 0x22]" "drop 1 r" 1 input] r(3) by auto
      let ?p2 = "p'\<lparr>pb_buffer := Some (map Some (s @ CHR 0x22 # escaped input) @ r2)\<rparr>"
      have "put (?len + 1) (c_text [CHR 0x22]) ?p2 = Some (p'\<lparr>pb_buffer := Some (map Some (s @ c_text (quoted input)) @ drop 2 r2)\<rparr>)"
        using put_at[of ?p2 "s @ CHR 0x22 # escaped input" r2 "?len + 1" "c_text [CHR 0x22]"] r(3,4) r2(2) by (simp add: quoted_def numeral_2_eq_2)
      moreover have "wrote (s @ quoted input) (p'\<lparr>pb_buffer := Some (map Some (s @ c_text (quoted input)) @ drop 2 r2)\<rparr>)"
        using r r2(2) by (auto simp: wrote_def quoted_def)
      ultimately show ?thesis using False p1 r2(1) p' by (auto simp: then_true_def kept_def room_def intro!: does_true)
    qed
  qed
qed

section \<open>Lemmas: values\<close>

lemma write_text:
  assumes "filled s p" and "length s + k + 1 \<le> n" and "length t \<le> k"
    and "\<And>p'. kept p p' \<Longrightarrow> pb_depth p' = pb_depth p \<Longrightarrow> f p' = c_text t"
    and "\<And>p'. kept p p' \<Longrightarrow> wrote (s @ t) p' \<Longrightarrow> filled (s @ t) (forward (length t) p') \<Longrightarrow> pb_depth p' = pb_depth p \<Longrightarrow> does C n p' Q (g p')"
  shows "does C n p Q (if_ok (ensure p k) (\<lambda>p. if_ok (emit (f p) p) g))"
proof (rule does_if_ok[OF ensure_does[OF assms(1,2)]])
  fix p1 assume p1: "kept p p1" "filled s p1 \<and> length s + k + 1 \<le> pb_length p1 \<and> pb_depth p1 = pb_depth p"
  then have "f p1 = c_text t" using assms(4) by simp
  moreover have "does C n p1 Q (if_ok (emit (c_text t) p1) g)"
    by (rule does_if_ok[OF emit_text_does[of s p1 t]]) (use p1 assms(3,5) forward_wrote kept_trans in \<open>auto\<close>)
  ultimately show "does C n p1 Q (if_ok (emit (f p1) p1) g)" by simp
qed

lemma write_raw:
  assumes "filled s p" and "length s + k + 1 \<le> n" and "length t \<le> k"
    and "\<And>p'. kept p p' \<Longrightarrow> pb_depth p' = pb_depth p \<Longrightarrow> f p' = t"
    and "\<And>p'. kept p p' \<Longrightarrow> filled (s @ t) (forward (length t) p') \<Longrightarrow> pb_depth p' = pb_depth p \<Longrightarrow> does C n p' Q (g p')"
  shows "does C n p Q (if_ok (ensure p k) (\<lambda>p. if_ok (emit (f p) p) g))"
proof (rule does_if_ok[OF ensure_does[OF assms(1,2)]])
  fix p1 assume p1: "kept p p1" "filled s p1 \<and> length s + k + 1 \<le> pb_length p1 \<and> pb_depth p1 = pb_depth p"
  then have "f p1 = t" using assms(4) by simp
  moreover have "does C n p1 Q (if_ok (emit t p1) g)"
    by (rule does_if_ok[OF emit_does[of s p1 t]]) (use p1 assms(3,5) kept_trans in \<open>auto\<close>)
  ultimately show "does C n p1 Q (if_ok (emit (f p1) p1) g)" by simp
qed

text \<open>A value is written behind \<open>s\<close>.\<close>

definition prints :: "cJSON \<Rightarrow> bool" where
  "prints v \<longleftrightarrow> (\<forall>C n s p t. filled s p \<longrightarrow> CHR 0x00 \<notin> set s \<longrightarrow> (C \<longrightarrow> pb_depth p + nesting v \<le> CJSON_NESTING_LIMIT) \<longrightarrow>
     t = pretty (pb_format p) (pb_depth p) v \<longrightarrow> length s + length t + 2 \<le> n \<longrightarrow>
     does C n p (\<lambda>p'. wrote (s @ t) p' \<and> pb_depth p' = pb_depth p) (print_value v p))"

lemma printsD:
  "prints v \<Longrightarrow> filled s p \<Longrightarrow> CHR 0x00 \<notin> set s \<Longrightarrow> C \<longrightarrow> pb_depth p + nesting v \<le> CJSON_NESTING_LIMIT \<Longrightarrow>
   length s + length (pretty (pb_format p) (pb_depth p) v) + 2 \<le> n \<Longrightarrow>
   does C n p (\<lambda>p'. wrote (s @ pretty (pb_format p) (pb_depth p) v) p' \<and> pb_depth p' = pb_depth p) (print_value v p)"
  by (simp add: prints_def)

lemma number_text_chars: "CHR 0x00 \<notin> set (number_text d i)"
proof -
  have "CHR 0x00 \<notin> set (fmt_g p x)" if "0 < p" for p x
    using decimal_chars(3)[OF fmt_g_decimal[OF that], of x] by (auto simp: isdigit_def)
  moreover have "CHR 0x00 \<notin> set (show_int i)" using show_int_chars[of "CHR 0x00" i] by (auto simp: isdigit_def)
  ultimately show ?thesis by (auto simp: number_text_def Let_def split_beta split: double.splits)
qed

lemma escaped_source: "CHR 0x00 \<notin> set s \<Longrightarrow> CHR 0x00 \<notin> set (escaped s)"
  using string_text_source[OF escaped_text] by blast

lemma join_no_nul: "CHR 0x00 \<notin> set sep \<Longrightarrow> (\<forall>t \<in> set ts. CHR 0x00 \<notin> set t) \<Longrightarrow> CHR 0x00 \<notin> set (join_with sep ts)"
  using set_join_with[of sep ts] by auto

lemma pretty_no_nul: "printable v \<Longrightarrow> CHR 0x00 \<notin> set (pretty f n v)"
proof (induction v arbitrary: n)
  case (cJSON_Array vs)
  then have "CHR 0x00 \<notin> set (join_with (if f then '', '' else '','') (map (pretty f (n + 1)) vs))" by (intro join_no_nul) auto
  then show ?case by simp
next
  case (cJSON_Object ms)
  have "CHR 0x00 \<notin> set (pretty f k (snd m))" if "m \<in> set ms" for m k
    using cJSON_Object.IH[OF that, of "snd m" k] cJSON_Object.prems that by (auto simp: snds.simps)
  then have "CHR 0x00 \<notin> set (join_with (if f then [CHR '','', CHR 0x0A] else '','')
       (map (\<lambda>m. (if f then replicate (n + 1) (CHR 0x09) else []) @ quoted (fst m) @ '':'' @
          (if f then [CHR 0x09] else []) @ pretty f (n + 1) (snd m)) ms))"
    using cJSON_Object.prems by (intro join_no_nul) (auto simp: quoted_def escaped_source)
  then show ?case by auto
qed (auto simp: quoted_def escaped_source number_text_chars)

lemma print_elements_does:
  assumes "\<forall>v \<in> set vs. prints v \<and> printable v" and "filled s p" and "CHR 0x00 \<notin> set s"
    and "C \<longrightarrow> (\<forall>v \<in> set vs. pb_depth p + nesting v \<le> CJSON_NESTING_LIMIT)"
    and "t = join_with (if pb_format p then '', '' else '','') (map (pretty (pb_format p) (pb_depth p)) vs) @ '']''"
    and "length s + length t + 2 \<le> n"
  shows "does C n p (\<lambda>p'. wrote (s @ t) p' \<and> pb_depth p' = pb_depth p - 1) (print_elements vs p)"
  using assms
proof (induction vs arbitrary: s p t)
  case Nil
  show ?case unfolding print_elements.simps
    by (rule write_text[OF Nil(2), of _ _ "'']''"]) (use Nil(5,6) in \<open>auto intro!: does_true\<close>)
next
  case (Cons v vs)
  let ?f = "pb_format p" and ?d = "pb_depth p"
  let ?tv = "pretty ?f ?d v" and ?sep = "if ?f then '', '' else '',''"
  let ?rest = "join_with ?sep (map (pretty ?f ?d) vs) @ '']''"
  have nul: "CHR 0x00 \<notin> set ?tv" using Cons.prems(1) by (simp add: pretty_no_nul)
  have t: "t = ?tv @ (if vs = [] then [] else ?sep) @ ?rest" using Cons.prems(5) by (cases vs) simp_all
  have "does C n p (\<lambda>p'. wrote (s @ ?tv) p' \<and> pb_depth p' = ?d) (print_value v p)"
    using Cons.prems(1-4,6) t unfolding prints_def by (auto simp del: pretty.simps)
  then show ?case unfolding print_elements.simps(2)
  proof (rule does_if_ok)
    fix p1 assume p1: "kept p p1" "wrote (s @ ?tv) p1 \<and> pb_depth p1 = ?d"
    show "does C n p1 (\<lambda>p'. wrote (s @ t) p' \<and> pb_depth p' = ?d - 1)
      (if_ok (then_true (update_offset p1)) (\<lambda>p. if vs = [] then print_elements [] p
        else let len = if pb_format p then 2 else 1 in if_ok (ensure p (len + 1)) (\<lambda>p.
          if_ok (emit (c_text (CHR '','' # (if pb_format p then '' '' else []))) p) (\<lambda>p. print_elements vs (forward len p)))))"
    proof (rule does_if_ok[OF update_offset_does[of "s @ ?tv" p1]])
      show "wrote (s @ ?tv) p1" "CHR 0x00 \<notin> set (s @ ?tv)" using p1 nul Cons.prems(3) by simp_all
      fix p2 assume p2: "kept p1 p2" "filled (s @ ?tv) p2 \<and> pb_depth p2 = pb_depth p1"
      have f2: "pb_format p2 = ?f" using p1(1) p2(1) by (simp add: kept_def)
      show "does C n p2 (\<lambda>p'. wrote (s @ t) p' \<and> pb_depth p' = ?d - 1) (if vs = [] then print_elements [] p2
        else let len = if pb_format p2 then 2 else 1 in if_ok (ensure p2 (len + 1)) (\<lambda>p.
          if_ok (emit (c_text (CHR '','' # (if pb_format p then '' '' else []))) p) (\<lambda>p. print_elements vs (forward len p))))"
      proof (cases "vs = []")
        case True
        from Cons.IH[of "s @ ?tv" p2 "'']''"] show ?thesis using True t p1 p2 Cons.prems(3,6) nul by simp
      next
        case False
        have ih: "does C n p3 (\<lambda>p'. wrote (s @ t) p' \<and> pb_depth p' = ?d - 1) (print_elements vs (forward (length ?sep) p3))"
          if "kept p2 p3" "filled ((s @ ?tv) @ ?sep) (forward (length ?sep) p3)" "pb_depth p3 = pb_depth p2" for p3
        proof -
          have "pb_format p3 = ?f" "pb_depth p3 = ?d" using that(1,3) p1 p2 f2 by (simp_all add: kept_def)
          with Cons.IH[of "(s @ ?tv) @ ?sep" "forward (length ?sep) p3" ?rest] show ?thesis
            using that(2) Cons.prems(1,3,4,6) nul t False by (auto simp: does_def kept_def room_def forward_def split: option.splits if_splits)
        qed
        have "0 < length ?rest" by simp
        then have len: "length (s @ ?tv) + (length ?sep + 1) + 1 \<le> n" using Cons.prems(6) t False by simp
        have "(if pb_format p2 then 2 else 1) = length ?sep" using f2 by simp
        then show ?thesis using False unfolding Let_def
          by (simp only: if_False) (rule write_text[OF conjunct1[OF p2(2)] len], use f2 ih in \<open>auto simp: kept_def\<close>)
      qed
    qed
  qed
qed

definition tabs :: "bool \<Rightarrow> nat \<Rightarrow> string" where
  "tabs f n = (if f then replicate n (CHR 0x09) else [])"

definition colon :: "bool \<Rightarrow> string" where
  "colon f = CHR '':'' # (if f then [CHR 0x09] else [])"

definition after_member :: "bool \<Rightarrow> bool \<Rightarrow> string" where
  "after_member f again = (if again then '','' else []) @ (if f then [CHR 0x0A] else [])"

text \<open>The members of an object, in the order in which the loop writes them.\<close>

fun members_text :: "bool \<Rightarrow> nat \<Rightarrow> (string \<times> cJSON) list \<Rightarrow> string" where
  "members_text f d [] = []"
| "members_text f d (m # ms) =
     tabs f d @ quoted (fst m) @ colon f @ pretty f d (snd m) @ after_member f (ms \<noteq> []) @ members_text f d ms"

lemma pretty_object:
  "pretty f n (cJSON_Object ms) = ''{'' @ (if f then [CHR 0x0A] else []) @ members_text f (n + 1) ms @ tabs f n @ ''}''"
proof -
  have "join_with (if f then [CHR '','', CHR 0x0A] else '','')
       (map (\<lambda>m. (if f then replicate d (CHR 0x09) else []) @ quoted (fst m) @ '':'' @
          (if f then [CHR 0x09] else []) @ pretty f d (snd m)) ms) @ (if f \<and> ms \<noteq> [] then [CHR 0x0A] else []) = members_text f d ms" for d
  proof (induction ms)
    case (Cons m ms)
    then show ?case by (cases ms) (auto simp: tabs_def colon_def after_member_def simp del: pretty.simps)
  qed simp
  from this[of "n + 1"] show ?thesis by (simp add: tabs_def)
qed

lemma indent_does:
  assumes "filled s p" and "length s + length (tabs (pb_format p) (pb_depth p)) + 1 \<le> n"
  shows "does C n p (\<lambda>p'. filled (s @ tabs (pb_format p) (pb_depth p)) p' \<and> pb_depth p' = pb_depth p)
    (if pb_format p
     then if_ok (ensure p (pb_depth p)) (\<lambda>p. if_ok (emit (replicate (pb_depth p) (CHR 0x09)) p) (\<lambda>p. Some (True, forward (pb_depth p) p)))
     else Some (True, p))"
proof (cases "pb_format p")
  case True
  have "does C n p (\<lambda>p'. filled (s @ tabs True (pb_depth p)) p' \<and> pb_depth p' = pb_depth p)
     (if_ok (ensure p (pb_depth p)) (\<lambda>p. if_ok (emit (replicate (pb_depth p) (CHR 0x09)) p) (\<lambda>p. Some (True, forward (pb_depth p) p))))"
    by (rule write_raw[OF assms(1), of _ _ "tabs True (pb_depth p)"]) (use True assms(2) in \<open>auto simp: tabs_def intro!: does_true\<close>)
  then show ?thesis using True by simp
qed (use assms(1) in \<open>simp add: tabs_def does_true\<close>)

text \<open>The call does what it does also from a state that has moved on.\<close>

lemma does_kept: "does C n p' Q r \<Longrightarrow> kept p p' \<Longrightarrow> does C n p Q r"
  by (auto simp: does_def kept_def split: option.splits if_splits)

lemma does_forward: "does C n (forward k p) Q r \<Longrightarrow> does C n p Q r"
  by (auto simp: does_def kept_def room_def forward_def split: option.splits if_splits)

lemma if_ok_assoc: "if_ok (if_ok r f) g = if_ok r (\<lambda>p. if_ok (f p) g)"
  by (auto simp: if_ok_def split_beta bind_eq_None_conv split: bind_splits)

lemma does_two:
  assumes "does C n p Q (if_ok r f)" and "\<And>p'. kept p p' \<Longrightarrow> Q p' \<Longrightarrow> does C n p' R (g p')"
  shows "does C n p R (if_ok r (\<lambda>p. if_ok (f p) g))"
  using does_if_ok[OF assms(1), of R g] assms(2) by (simp add: if_ok_assoc)

lemma print_members_does:
  assumes "\<forall>m \<in> set ms. prints (snd m) \<and> printable (snd m) \<and> CHR 0x00 \<notin> set (fst m)" and "filled s p" and "CHR 0x00 \<notin> set s"
    and "C \<longrightarrow> (\<forall>m \<in> set ms. pb_depth p + nesting (snd m) \<le> CJSON_NESTING_LIMIT)" and "0 < pb_depth p"
    and "t = members_text (pb_format p) (pb_depth p) ms @ tabs (pb_format p) (pb_depth p - 1) @ ''}''"
    and "length s + length t + 2 \<le> n"
  shows "does C n p (\<lambda>p'. wrote (s @ t) p' \<and> pb_depth p' = pb_depth p - 1) (print_members ms p)"
  using assms
proof (induction ms arbitrary: s p t)
  case Nil
  show ?case unfolding print_members.simps
    by (rule write_text[OF Nil(2), of _ _ "tabs (pb_format p) (pb_depth p - 1) @ ''}''"])
      (use Nil(5-7) in \<open>auto simp: tabs_def kept_def intro!: does_true\<close>)
next
  case (Cons m ms)
  let ?f = "pb_format p" and ?d = "pb_depth p"
  let ?a = "s @ tabs ?f ?d" let ?b = "?a @ quoted (fst m)" let ?c = "?b @ colon ?f" let ?e = "?c @ pretty ?f ?d (snd m)"
  let ?fin = "after_member ?f (ms \<noteq> [])"
  let ?rest = "members_text ?f ?d ms @ tabs ?f (?d - 1) @ ''}''"
  have t: "s @ t = ?e @ ?fin @ ?rest" using Cons.prems(6) by simp
  then have len: "length (?e @ ?fin @ ?rest) + 2 \<le> n" using Cons.prems(7) by (metis length_append add.assoc)
  have nul: "CHR 0x00 \<notin> set ?a" "CHR 0x00 \<notin> set ?b" "CHR 0x00 \<notin> set ?c" "CHR 0x00 \<notin> set ?e" "CHR 0x00 \<notin> set (?e @ ?fin)"
    using Cons.prems(1,3) by (auto simp: tabs_def quoted_def escaped_source colon_def after_member_def pretty_no_nul)
  let ?Q = "\<lambda>p'. wrote (s @ t) p' \<and> pb_depth p' = ?d - 1"
  let ?ok = "\<lambda>q. pb_format q = ?f \<and> pb_depth q = ?d"
  have last: "does C n q ?Q (let len = (if pb_format q then 1 else 0) + (if ms \<noteq> [] then 1 else 0) in
     if_ok (ensure q (len + 1)) (\<lambda>p.
     if_ok (emit (c_text ((if ms \<noteq> [] then '','' else []) @ (if pb_format p then [CHR 0x0A] else []))) p) (\<lambda>p.
     print_members ms (forward len p))))" if q: "filled ?e q" "?ok q" for q
  proof -
    have l: "(if pb_format q then 1 else 0) + (if ms \<noteq> [] then 1 else 0) = length ?fin" using q(2) by (simp add: after_member_def)
    have "does C n q' ?Q (print_members ms (forward (length ?fin) q'))"
      if "kept q q'" "filled (?e @ ?fin) (forward (length ?fin) q')" "pb_depth q' = pb_depth q" for q'
    proof (rule does_forward)
      have "pb_format q' = ?f" "pb_depth q' = ?d" using that q by (simp_all add: kept_def)
      then show "does C n (forward (length ?fin) q') ?Q (print_members ms (forward (length ?fin) q'))"
        using Cons.IH[of "?e @ ?fin" "forward (length ?fin) q'" ?rest] that(2) Cons.prems(1,4,5) nul(5) len t by simp
    qed
    then show ?thesis unfolding Let_def l
      by (intro write_text[OF q(1), of _ _ ?fin]) (use len q in \<open>auto simp: after_member_def kept_def\<close>)
  qed
  have val: "does C n q (\<lambda>q'. filled ?e q' \<and> pb_depth q' = ?d) (if_ok (print_value (snd m) q) (\<lambda>p. then_true (update_offset p)))"
    if q: "filled ?c q" "?ok q" for q
  proof (rule does_if_ok)
    show "does C n q (\<lambda>p'. wrote ?e p' \<and> pb_depth p' = pb_depth q) (print_value (snd m) q)"
      using printsD[of "snd m" ?c q C n] Cons.prems(1,4) q nul(3) len by simp
    fix q' assume "wrote ?e q' \<and> pb_depth q' = pb_depth q"
    then show "does C n q' (\<lambda>q'. filled ?e q' \<and> pb_depth q' = ?d) (then_true (update_offset q'))"
      using update_offset_does[of ?e q' C n] nul(4) q(2) by (auto intro: does_weaken)
  qed
  have key: "does C n q (\<lambda>q'. filled ?b q' \<and> pb_depth q' = ?d) (if_ok (print_string_ptr (fst m) q) (\<lambda>p. then_true (update_offset p)))"
    if q: "filled ?a q" "?ok q" for q
  proof (rule does_if_ok[OF print_string_does[OF q(1)]])
    show "length ?a + length (quoted (fst m)) + 2 \<le> n" using len by simp
    fix q' assume "wrote ?b q' \<and> pb_depth q' = pb_depth q"
    then show "does C n q' (\<lambda>q'. filled ?b q' \<and> pb_depth q' = ?d) (then_true (update_offset q'))"
      using update_offset_does[of ?b q' C n] nul(2) q(2) by (auto intro: does_weaken)
  qed
  show ?case unfolding print_members.simps(2)
  proof (rule does_if_ok[OF indent_does[OF Cons.prems(2)]])
    show "length s + length (tabs ?f ?d) + 1 \<le> n" using len by simp
    fix p1 assume p1: "kept p p1" "filled ?a p1 \<and> pb_depth p1 = ?d"
    then have ok1: "?ok p1" by (simp add: kept_def)
    show "does C n p1 ?Q (if_ok (print_string_ptr (fst m) p1) (\<lambda>p. if_ok (then_true (update_offset p)) (\<lambda>p.
       let len = (if pb_format p then 2 else 1) in
       if_ok (ensure p len) (\<lambda>p.
       if_ok (emit (CHR '':'' # (if pb_format p then [CHR 0x09] else [])) p) (\<lambda>p.
       if_ok (print_value (snd m) (forward len p)) (\<lambda>p.
       if_ok (then_true (update_offset p)) (\<lambda>p.
       let len = (if pb_format p then 1 else 0) + (if ms \<noteq> [] then 1 else 0) in
       if_ok (ensure p (len + 1)) (\<lambda>p.
       if_ok (emit (c_text ((if ms \<noteq> [] then '','' else []) @ (if pb_format p then [CHR 0x0A] else []))) p) (\<lambda>p.
       print_members ms (forward len p))))))))))"
    proof (rule does_two[OF key])
      show "filled ?a p1" "?ok p1" using p1 ok1 by simp_all
      fix p2 assume p2: "kept p1 p2" "filled ?b p2 \<and> pb_depth p2 = ?d"
      then have ok2: "?ok p2" using ok1 by (simp add: kept_def)
      have l: "(if pb_format p2 then 2 else 1) = length (colon ?f)" using ok2 by (simp add: colon_def)
      show "does C n p2 ?Q (let len = (if pb_format p2 then 2 else 1) in
       if_ok (ensure p2 len) (\<lambda>p.
       if_ok (emit (CHR '':'' # (if pb_format p then [CHR 0x09] else [])) p) (\<lambda>p.
       if_ok (print_value (snd m) (forward len p)) (\<lambda>p.
       if_ok (then_true (update_offset p)) (\<lambda>p.
       let len = (if pb_format p then 1 else 0) + (if ms \<noteq> [] then 1 else 0) in
       if_ok (ensure p (len + 1)) (\<lambda>p.
       if_ok (emit (c_text ((if ms \<noteq> [] then '','' else []) @ (if pb_format p then [CHR 0x0A] else []))) p) (\<lambda>p.
       print_members ms (forward len p))))))))"
        unfolding l unfolding Let_def[of "length (colon ?f)"]
      proof (rule write_raw[OF conjunct1[OF p2(2)], of _ _ "colon ?f"])
        show "length ?b + length (colon ?f) + 1 \<le> n" using len by simp
        fix p3 assume p3: "kept p2 p3" "filled ?c (forward (length (colon ?f)) p3)" "pb_depth p3 = pb_depth p2"
        then have ok3: "?ok (forward (length (colon ?f)) p3)" using ok2 by (simp add: kept_def)
        show "does C n p3 ?Q (if_ok (print_value (snd m) (forward (length (colon ?f)) p3)) (\<lambda>p.
         if_ok (then_true (update_offset p)) (\<lambda>p.
         let len = (if pb_format p then 1 else 0) + (if ms \<noteq> [] then 1 else 0) in
         if_ok (ensure p (len + 1)) (\<lambda>p.
         if_ok (emit (c_text ((if ms \<noteq> [] then '','' else []) @ (if pb_format p then [CHR 0x0A] else []))) p) (\<lambda>p.
         print_members ms (forward len p))))))"
          by (rule does_forward[where k = "length (colon ?f)"], rule does_two[OF val[OF p3(2) ok3]], rule last) (use ok3 in \<open>auto simp: kept_def\<close>)
      qed (use ok2 in \<open>auto simp: colon_def kept_def\<close>)
    qed
  qed
qed

lemma nesting_child:
  "v \<in> set vs \<Longrightarrow> Suc (nesting v) \<le> nesting (cJSON_Array vs)" "m \<in> set ms \<Longrightarrow> Suc (nesting (snd m)) \<le> nesting (cJSON_Object ms)"
  by (auto intro!: Max_ge)

lemma prints_array:
  assumes "\<forall>v \<in> set vs. prints v \<and> printable v"
  shows "prints (cJSON_Array vs)"
  unfolding prints_def
proof (intro allI impI)
  fix C n s p t
  assume a: "filled s p" "CHR 0x00 \<notin> set s" "C \<longrightarrow> pb_depth p + nesting (cJSON_Array vs) \<le> CJSON_NESTING_LIMIT"
    "t = pretty (pb_format p) (pb_depth p) (cJSON_Array vs)" "length s + length t + 2 \<le> n"
  let ?rest = "join_with (if pb_format p then '', '' else '','') (map (pretty (pb_format p) (pb_depth p + 1)) vs) @ '']''"
  have nest: "pb_depth p + 1 + nesting v \<le> CJSON_NESTING_LIMIT" if C "v \<in> set vs" for v
    using a(3) nesting_child(1)[OF that(2)] that(1) by linarith
  show "does C n p (\<lambda>p'. wrote (s @ t) p' \<and> pb_depth p' = pb_depth p) (print_value (cJSON_Array vs) p)"
  proof (cases "CJSON_NESTING_LIMIT \<le> pb_depth p")
    case True
    then show ?thesis using a(3) by (simp add: does_def)
  next
    case False
    have "does C n p (\<lambda>p'. wrote (s @ t) p' \<and> pb_depth p' = pb_depth p)
        (if_ok (ensure p 1) (\<lambda>p. if_ok (emit ''['' p) (\<lambda>p. print_elements vs (forward 1 p\<lparr>pb_depth := pb_depth p + 1\<rparr>))))"
    proof (rule write_raw[OF a(1), of 1 n "''[''"])
      fix p' assume p': "kept p p'" "filled (s @ ''['') (forward (length ''['') p')" "pb_depth p' = pb_depth p"
      let ?q = "forward 1 p'\<lparr>pb_depth := pb_depth p' + 1\<rparr>"
      have f: "pb_format ?q = pb_format p" "pb_depth ?q = pb_depth p + 1" using p' by (simp_all add: kept_def)
      have "does C n ?q (\<lambda>p'. wrote ((s @ ''['') @ ?rest) p' \<and> pb_depth p' = pb_depth ?q - 1) (print_elements vs ?q)"
        by (rule print_elements_does[OF assms]) (use a(1,2,4,5) p' f nest in \<open>auto simp del: nesting.simps\<close>)
      then show "does C n p' (\<lambda>p'. wrote (s @ t) p' \<and> pb_depth p' = pb_depth p) (print_elements vs ?q)"
        using a(4) f by (auto intro: does_kept[where p' = ?q])
    qed (use a(4,5) in auto)
    then show ?thesis using False by simp
  qed
qed

lemma prints_object:
  assumes "\<forall>m \<in> set ms. prints (snd m) \<and> printable (snd m) \<and> CHR 0x00 \<notin> set (fst m)"
  shows "prints (cJSON_Object ms)"
  unfolding prints_def
proof (intro allI impI)
  fix C n s p t
  assume a: "filled s p" "CHR 0x00 \<notin> set s" "C \<longrightarrow> pb_depth p + nesting (cJSON_Object ms) \<le> CJSON_NESTING_LIMIT"
    "t = pretty (pb_format p) (pb_depth p) (cJSON_Object ms)" "length s + length t + 2 \<le> n"
  let ?open = "CHR ''{'' # (if pb_format p then [CHR 0x0A] else [])"
  let ?rest = "members_text (pb_format p) (pb_depth p + 1) ms @ tabs (pb_format p) (pb_depth p) @ ''}''"
  have nest: "pb_depth p + 1 + nesting (snd m) \<le> CJSON_NESTING_LIMIT" if C "m \<in> set ms" for m
    using a(3) nesting_child(2)[OF that(2)] that(1) by linarith
  have t: "t = ?open @ ?rest" using a(4) unfolding pretty_object by simp
  show "does C n p (\<lambda>p'. wrote (s @ t) p' \<and> pb_depth p' = pb_depth p) (print_value (cJSON_Object ms) p)"
  proof (cases "CJSON_NESTING_LIMIT \<le> pb_depth p")
    case True
    then show ?thesis using a(3) by (simp add: does_def)
  next
    case False
    have "does C n p (\<lambda>p'. wrote (s @ t) p' \<and> pb_depth p' = pb_depth p)
        (if_ok (ensure p (length ?open + 1)) (\<lambda>p. if_ok (emit (CHR ''{'' # (if pb_format p then [CHR 0x0A] else [])) p)
          (\<lambda>p. print_members ms (forward (length ?open) p\<lparr>pb_depth := pb_depth p + 1\<rparr>))))"
    proof (rule write_raw[OF a(1), of "length ?open + 1" n ?open])
      have "0 < length ?rest" by simp
      then show "length s + (length ?open + 1) + 1 \<le> n" using a(5) unfolding t length_append by linarith
      fix p' assume p': "kept p p'" "filled (s @ ?open) (forward (length ?open) p')" "pb_depth p' = pb_depth p"
      let ?q = "forward (length ?open) p'\<lparr>pb_depth := pb_depth p' + 1\<rparr>"
      have f: "pb_format ?q = pb_format p" "pb_depth ?q = pb_depth p + 1" using p' by (simp_all add: kept_def)
      have "does C n ?q (\<lambda>p'. wrote ((s @ ?open) @ ?rest) p' \<and> pb_depth p' = pb_depth ?q - 1) (print_members ms ?q)"
        by (rule print_members_does[OF assms]) (use a(2,5) t p' f nest in \<open>auto simp del: nesting.simps\<close>)
      then show "does C n p' (\<lambda>p'. wrote (s @ t) p' \<and> pb_depth p' = pb_depth p) (print_members ms ?q)"
        using t f by (auto intro: does_kept[where p' = ?q])
    qed (auto simp: kept_def)
    moreover have "length ?open = (if pb_format p then 2 else 1)" by simp
    ultimately show ?thesis using False by (simp only: print_value.simps Let_def if_False)
  qed
qed

lemma prints_piece:
  assumes "\<And>p. print_value v p = if_ok (ensure p (length t + 1)) (\<lambda>p. emit (c_text t) p)" and "\<And>f n. pretty f n v = t"
  shows "prints v"
  unfolding prints_def assms by (auto intro!: does_weaken[OF piece_does])

lemma prints_all: "printable v \<Longrightarrow> prints v"
proof (induction v)
  case (cJSON_Array vs)
  then show ?case by (intro prints_array) auto
next
  case (cJSON_Object ms)
  then show ?case by (intro prints_object) (auto simp: snds.simps)
next
  case (cJSON_Number d i)
  then show ?case using print_number_does by (simp add: prints_def)
next
  case (cJSON_String s)
  then show ?case using print_string_does by (simp add: prints_def)
qed (rule prints_piece; simp add: eval_nat_numeral)+

end
