(* ===== verification/Cjson_Type.thy ===== *)
theory Cjson_Type
  imports Cjson_Safety Printf_Double
begin

text \<open>
  The trees that the JSON parser of \<^verbatim>\<open>extern/cJSON/cJSON.c\<close> builds are well formed, whatever its input: numbers
  are doubles and their two values agree, nothing is raw text, strings and names are C strings, and the nesting is within the limit.
\<close>

text \<open>A tree with at most \<open>n\<close> levels of nesting.\<close>

fun well_formed :: "nat \<Rightarrow> cJSON \<Rightarrow> bool" where
  "well_formed n (cJSON_Number d i) \<longleftrightarrow> is_double d \<and> i = saturate_int d"
| "well_formed n (cJSON_String s) \<longleftrightarrow> CHR 0x00 \<notin> set s"
| "well_formed n (cJSON_Raw s) \<longleftrightarrow> False"
| "well_formed n (cJSON_Array vs) \<longleftrightarrow> 0 < n \<and> (\<forall>v \<in> set vs. well_formed (n - 1) v)"
| "well_formed n (cJSON_Object ms) \<longleftrightarrow> 0 < n \<and> (\<forall>m \<in> set ms. CHR 0x00 \<notin> set (fst m) \<and> well_formed (n - 1) (snd m))"
| "well_formed n _ \<longleftrightarrow> True"

text \<open>An item that was read with the buffer at depth \<open>m\<close> before and at depth \<open>d\<close> afterwards.\<close>

definition forms :: "nat \<Rightarrow> presult \<Rightarrow> bool" where
  "forms d r \<longleftrightarrow> (\<forall>v b. r = Done (Some v) b \<longrightarrow> depth b = d \<and> well_formed (CJSON_NESTING_LIMIT - d) v)"

lemma forms_simps [simp]:
  "forms d (Done None b)" "forms d Exhausted" "forms d Fault"
  "forms d (Done (Some v) b) \<longleftrightarrow> depth b = d \<and> well_formed (CJSON_NESTING_LIMIT - d) v"
  by (auto simp: forms_def)

lemma c_string_no_nul: "CHR 0x00 \<notin> set (c_string s)"
  by (auto simp: c_string_def dest: set_takeWhileD)

lemma parse_string_forms:
  assumes "parse_string b = Some (r, b')"
  shows "depth b' = depth b \<and> (\<forall>s. r = Some s \<longrightarrow> CHR 0x00 \<notin> set s)"
proof -
  have "depth b1 = depth b" if "allocate b = (ok, b1)" for ok b1 using allocate_simps(3)[of b] that by simp
  with assms show ?thesis
    by (auto simp: parse_string_def Let_def buf_simps c_string_no_nul split: if_splits option.splits prod.splits decoded.splits)
qed

lemma parse_number_forms:
  assumes "parse_number b = (r, b')"
  shows "depth b' = depth b \<and> (\<forall>v. r = Some v \<longrightarrow> well_formed n v)"
proof -
  have "depth b1 = depth b" if "allocate b = (ok, b1)" for ok b1 using allocate_simps(3)[of b] that by simp
  moreover have "is_double d" if "strtod s = (d, k)" for s d k using strtod_is_double[of s] that by simp
  ultimately show ?thesis using assms by (auto simp: parse_number_def Let_def buf_simps split: if_splits prod.splits)
qed

text \<open>One step of the loops, given what the values in them come to.\<close>

lemma array_loop_forms:
  assumes val: "\<And>b. forms (depth b) (parse_value k b)"
    and loop: "\<And>b items. 0 < depth b \<Longrightarrow> depth b \<le> CJSON_NESTING_LIMIT \<Longrightarrow>
      \<forall>v \<in> set items. well_formed (CJSON_NESTING_LIMIT - depth b) v \<Longrightarrow> forms (depth b - 1) (array_loop k b items)"
    and b: "0 < depth b" "depth b \<le> CJSON_NESTING_LIMIT" "\<forall>v \<in> set items. well_formed (CJSON_NESTING_LIMIT - depth b) v"
  shows "forms (depth b - 1) (array_loop (Suc k) b items)"
proof -
  obtain ok b1 where b1: "allocate b = (ok, b1)" by fastforce
  then have d: "depth b1 = depth b" using allocate_simps(3)[of b] by simp
  let ?r = "parse_value k (buffer_skip_whitespace (advance 1 b1))"
  have v: "depth b2 = depth b \<and> well_formed (CJSON_NESTING_LIMIT - depth b) v" if "?r = Done (Some v) b2" for v b2
    using val[of "buffer_skip_whitespace (advance 1 b1)"] that d by (simp add: buf_simps)
  have lim: "CJSON_NESTING_LIMIT - (depth b - 1) - 1 = CJSON_NESTING_LIMIT - depth b" using b by simp
  have "forms (depth b - 1) (array_loop k (buffer_skip_whitespace b2) (items @ [v]))" if "?r = Done (Some v) b2" for v b2
    using loop[of "buffer_skip_whitespace b2" "items @ [v]"] v[OF that] b by (auto simp: buf_simps)
  then show ?thesis using b1 v b lim
    by (auto simp: array_loop.simps Let_def buf_simps split: presult.splits option.splits)
qed

lemma object_loop_forms:
  assumes val: "\<And>b. forms (depth b) (parse_value k b)"
    and loop: "\<And>b members. 0 < depth b \<Longrightarrow> depth b \<le> CJSON_NESTING_LIMIT \<Longrightarrow>
      \<forall>m \<in> set members. CHR 0x00 \<notin> set (fst m) \<and> well_formed (CJSON_NESTING_LIMIT - depth b) (snd m) \<Longrightarrow>
      forms (depth b - 1) (object_loop k b members)"
    and b: "0 < depth b" "depth b \<le> CJSON_NESTING_LIMIT"
      "\<forall>m \<in> set members. CHR 0x00 \<notin> set (fst m) \<and> well_formed (CJSON_NESTING_LIMIT - depth b) (snd m)"
  shows "forms (depth b - 1) (object_loop (Suc k) b members)"
proof -
  obtain ok b1 where b1: "allocate b = (ok, b1)" by fastforce
  then have d: "depth b1 = depth b" using allocate_simps(3)[of b] by simp
  have s: "depth b2 = depth b \<and> (\<forall>name. r = Some name \<longrightarrow> CHR 0x00 \<notin> set name)"
    if "parse_string (buffer_skip_whitespace (advance 1 b1)) = Some (r, b2)" for r b2
    using parse_string_forms[OF that] d by (simp add: buf_simps)
  let ?r = "\<lambda>b2. parse_value k (buffer_skip_whitespace (advance 1 (buffer_skip_whitespace b2)))"
  have v: "depth b3 = depth b \<and> well_formed (CJSON_NESTING_LIMIT - depth b) v"
    if "?r b2 = Done (Some v) b3" "depth b2 = depth b" for v b2 b3
    using val[of "buffer_skip_whitespace (advance 1 (buffer_skip_whitespace b2))"] that by (simp add: buf_simps)
  have lim: "CJSON_NESTING_LIMIT - (depth b - 1) - 1 = CJSON_NESTING_LIMIT - depth b" using b by simp
  have "forms (depth b - 1) (object_loop k (buffer_skip_whitespace b3) (members @ [(name, v)]))"
    if "?r b2 = Done (Some v) b3" "depth b2 = depth b" "CHR 0x00 \<notin> set name" for name v b2 b3
    using loop[of "buffer_skip_whitespace b3" "members @ [(name, v)]"] v[OF that(1,2)] that(3) b by (auto simp: buf_simps)
  then show ?thesis using b1 s v b lim
    by (auto simp: object_loop.simps Let_def buf_simps split: presult.splits option.splits)
qed

lemma nested_forms:
  assumes "\<And>b. 0 < depth b \<Longrightarrow> depth b \<le> CJSON_NESTING_LIMIT \<Longrightarrow> forms (depth b - 1) (array_loop k b [])"
    and "\<And>b. 0 < depth b \<Longrightarrow> depth b \<le> CJSON_NESTING_LIMIT \<Longrightarrow> forms (depth b - 1) (object_loop k b [])"
  shows "forms (depth b) (parse_array (Suc k) b)" "forms (depth b) (parse_object (Suc k) b)"
proof -
  let ?b = "step_back (buffer_skip_whitespace (advance 1 (b\<lparr>depth := depth b + 1\<rparr>)))"
  show "forms (depth b) (parse_array (Suc k) b)" using assms(1)[of ?b]
    by (auto simp: parse_array.simps Let_def buf_simps)
  show "forms (depth b) (parse_object (Suc k) b)" using assms(2)[of ?b]
    by (auto simp: parse_object.simps Let_def buf_simps)
qed

lemma value_forms:
  assumes "\<And>b. forms (depth b) (parse_array k b)" and "\<And>b. forms (depth b) (parse_object k b)"
  shows "forms (depth b) (parse_value (Suc k) b)"
proof -
  have "forms (depth b) (case parse_string b of None \<Rightarrow> Fault | Some (r, b) \<Rightarrow> Done (map_option cJSON_String r) b)"
  proof (cases "parse_string b")
    case (Some p)
    then show ?thesis using parse_string_forms[of b "fst p" "snd p"] by (cases p; cases "fst p") auto
  qed simp
  moreover have "forms (depth b) (let (r, b) = parse_number b in Done r b)"
    using parse_number_forms[of b "fst (parse_number b)" "snd (parse_number b)"]
    by (cases "parse_number b"; cases "fst (parse_number b)") auto
  ultimately show ?thesis using assms[of b] by (auto simp: parse_value.simps buf_simps)
qed

lemma parser_forms:
  "(\<forall>b. forms (depth b) (parse_value k b) \<and> forms (depth b) (parse_array k b) \<and> forms (depth b) (parse_object k b)) \<and>
   (\<forall>b items. 0 < depth b \<longrightarrow> depth b \<le> CJSON_NESTING_LIMIT \<longrightarrow>
      (\<forall>v \<in> set items. well_formed (CJSON_NESTING_LIMIT - depth b) v) \<longrightarrow> forms (depth b - 1) (array_loop k b items)) \<and>
   (\<forall>b members. 0 < depth b \<longrightarrow> depth b \<le> CJSON_NESTING_LIMIT \<longrightarrow>
      (\<forall>m \<in> set members. CHR 0x00 \<notin> set (fst m) \<and> well_formed (CJSON_NESTING_LIMIT - depth b) (snd m)) \<longrightarrow>
      forms (depth b - 1) (object_loop k b members))"
proof (induction k)
  case 0
  show ?case by (simp add: parser_simps)
next
  case (Suc k)
  then show ?case
    by (intro conjI allI impI value_forms nested_forms array_loop_forms object_loop_forms) auto
qed

lemma parse_with_length_forms:
  assumes "cJSON_ParseWithLengthOpts val require hs = Tree v b"
  shows "well_formed CJSON_NESTING_LIMIT v"
proof -
  obtain ok b0 where b0: "allocate \<lparr>content = val, offset = 0, depth = 0, hooks = hs\<rparr> = (ok, b0)" by fastforce
  then have "depth b0 = 0" using allocate_simps(3)[of "\<lparr>content = val, offset = 0, depth = 0, hooks = hs\<rparr>"] by simp
  then have "forms 0 (parse_value (3 * length val + 1) (buffer_skip_whitespace (skip_utf8_bom b0)))"
    using parser_forms[of "3 * length val + 1"] by (metis skip_utf8_bom_simps(2) skip_ws_simps(2))
  then show ?thesis using assms b0
    by (auto simp: cJSON_ParseWithLengthOpts_def Let_def split: if_splits presult.splits option.splits)
qed

text \<open>The number of a well-formed tree is an \<^verbatim>\<open>int\<close>.\<close>

lemma well_formed_int: "well_formed n (cJSON_Number d i) \<Longrightarrow> is_int32 i"
  by (simp add: saturate_int_range)

end
