(* ===== verification/Cjson_Output.thy ===== *)
theory Cjson_Output
  imports Cjson_Print Cjson_Type
begin

text \<open>
  What the entry points of the printer promise: no access out of bounds, the text of the tree or nothing, and
  the text when there is memory for it; and the parser reads the printed text back to the tree.
\<close>

section \<open>Entry points\<close>

lemma print_value_does:
  assumes "printable v" and "filled [] p" and "pb_depth p = 0"
  shows "does (nesting v \<le> CJSON_NESTING_LIMIT) (length (pretty (pb_format p) 0 v) + 2) p
    (\<lambda>p'. wrote (pretty (pb_format p) 0 v) p') (print_value v p)"
  using printsD[OF prints_all[OF assms(1)] assms(2)] assms(3) by (auto intro: does_weaken)

lemma wrote_read: "wrote t p \<Longrightarrow> CHR 0x00 \<notin> set t \<Longrightarrow> \<exists>mem. pb_buffer p = Some mem \<and> c_read mem = Some t"
  by (auto simp: wrote_def c_read_def c_len_text comp_def)

lemma wrote_finished:
  assumes "wrote t p" and "CHR 0x00 \<notin> set t"
  shows "\<exists>mem. update_offset p = Some (p\<lparr>pb_offset := length t\<rparr>) \<and> pb_buffer p = Some mem \<and> take (length t) mem = map Some t"
proof -
  obtain p' where "update_offset p = Some p'" "filled t p'"
    using update_offset_does[OF assms, of True 0] by (auto simp: does_def then_true_def split: option.splits)
  then show ?thesis by (fastforce simp: update_offset_def filled_def split: option.splits bind_splits)
qed

text \<open>The tree is not too deep, and its text has a length of type \<^verbatim>\<open>int\<close>.\<close>

definition prints_fully :: "bool \<Rightarrow> cJSON \<Rightarrow> bool" where
  "prints_fully f v \<longleftrightarrow> nesting v \<le> CJSON_NESTING_LIMIT \<and> int (length (pretty f 0 v)) + 2 \<le> INT_MAX"

text \<open>No fault; a null pointer or the text; and the text under a condition.\<close>

definition gives_text :: "bool \<Rightarrow> string \<Rightarrow> string option option \<Rightarrow> bool" where
  "gives_text C t r \<longleftrightarrow> r = Some (Some t) \<or> r = Some None \<and> \<not> C"

lemma supplied_alloc: "\<forall>x \<in> set hs. x \<Longrightarrow> fst (alloc hs) \<and> (\<forall>x \<in> set (snd (alloc hs)). x)"
  by (auto simp: alloc_def split: list.splits)

lemma print_tree_text:
  assumes "printable v"
  shows "gives_text ((\<forall>x \<in> set hs. x) \<and> prints_fully f v) (pretty f 0 v) (print_tree v f realloc hs)"
proof -
  let ?t = "pretty f 0 v"
  have nul: "CHR 0x00 \<notin> set ?t" by (rule pretty_no_nul[OF assms])
  define p where "p = \<lparr>pb_buffer = Some (replicate default_buffer_size None), pb_length = default_buffer_size,
    pb_offset = 0, pb_depth = 0, pb_noalloc = False, pb_format = f, pb_realloc = realloc, pb_hooks = snd (alloc hs)\<rparr>"
  have "does (nesting v \<le> CJSON_NESTING_LIMIT) (length ?t + 2) p (wrote ?t) (print_value v p)"
    using print_value_does[OF assms, of p] by (simp add: p_def filled_def)
  moreover have "room p (length ?t + 2)" "supplied p" if "\<forall>x \<in> set hs. x" "prints_fully f v"
    using that supplied_alloc[of hs] by (auto simp: p_def room_def supplied_def prints_fully_def)
  ultimately consider p' where "print_value v p = Some (False, p')" "\<not> ((\<forall>x \<in> set hs. x) \<and> prints_fully f v)"
    | p' where "print_value v p = Some (True, p')" "wrote ?t p'" "(\<forall>x \<in> set hs. x) \<and> prints_fully f v \<longrightarrow> supplied p'"
    by (auto simp: does_def kept_def prints_fully_def split: option.splits if_splits)
  then show ?thesis
  proof cases
    case 1
    then show ?thesis by (auto simp: print_tree_def gives_text_def split_beta p_def)
  next
    case (2 p')
    from wrote_finished[OF 2(2) nul] obtain mem where
      mem: "update_offset p' = Some (p'\<lparr>pb_offset := length ?t\<rparr>)" "pb_buffer p' = Some mem" "take (length ?t) mem = map Some ?t" by blast
    have "c_read (map Some ?t @ [Some (CHR 0x00)]) = Some ?t" using c_len_text[OF nul, of "[]"] by (simp add: c_read_def comp_def)
    then have "print_tree v f realloc hs = (if \<not> fst (alloc hs) \<or> \<not> fst (alloc (pb_hooks p')) then Some None else Some (Some ?t))"
      using 2(1) mem by (simp add: print_tree_def split_beta p_def)
    then show ?thesis using 2(3) supplied_alloc[of hs] supplied_alloc[of "pb_hooks p'"] by (auto simp: gives_text_def supplied_def)
  qed
qed

text \<open>With a first block of the caller's choice. An empty one needs a \<^verbatim>\<open>reallocate\<close>.\<close>

lemma cJSON_PrintBuffered_text:
  assumes "printable v" and "realloc \<or> 0 < prebuffer"
  shows "gives_text (0 \<le> prebuffer \<and> (\<forall>x \<in> set hs. x) \<and> prints_fully f v) (pretty f 0 v) (cJSON_PrintBuffered v prebuffer f realloc hs)"
proof -
  let ?t = "pretty f 0 v" and ?C = "(\<forall>x \<in> set hs. x) \<and> prints_fully f v"
  define p where "p = \<lparr>pb_buffer = Some (replicate (nat prebuffer) None), pb_length = nat prebuffer,
    pb_offset = 0, pb_depth = 0, pb_noalloc = False, pb_format = f, pb_realloc = realloc, pb_hooks = snd (alloc hs)\<rparr>"
  have "does (nesting v \<le> CJSON_NESTING_LIMIT) (length ?t + 2) p (wrote ?t) (print_value v p)"
    using print_value_does[OF assms(1), of p] assms(2) by (auto simp: p_def filled_def)
  moreover have "room p (length ?t + 2)" if ?C
    using that supplied_alloc[of hs] by (auto simp: p_def room_def supplied_def prints_fully_def)
  ultimately consider p' where "print_value v p = Some (False, p')" "\<not> ?C" | p' where "print_value v p = Some (True, p')" "wrote ?t p'"
    by (auto simp: does_def prints_fully_def split: option.splits if_splits)
  then show ?thesis
  proof cases
    case 1
    then show ?thesis by (auto simp: cJSON_PrintBuffered_def gives_text_def split_beta p_def)
  next
    case (2 p')
    from wrote_read[OF 2(2) pretty_no_nul[OF assms(1)]] obtain mem where mem: "pb_buffer p' = Some mem" "c_read mem = Some ?t" by blast
    have "cJSON_PrintBuffered v prebuffer f realloc hs = (if prebuffer < 0 \<or> \<not> fst (alloc hs) then Some None else Some (Some ?t))"
      using 2(1) mem by (simp add: cJSON_PrintBuffered_def split_beta p_def)
    then show ?thesis using supplied_alloc[of hs] by (auto simp: gives_text_def)
  qed
qed

text \<open>Into a block of the caller: it is enough that there are two bytes more than the text has.\<close>

lemma cJSON_PrintPreallocated_text:
  assumes "printable v" and "is_int32 len" and "int (length mem) = len"
  shows "\<exists>ok mem'. cJSON_PrintPreallocated v (Some mem) len f = Some (ok, mem') \<and>
    (ok \<longrightarrow> (\<exists>m. mem' = Some m \<and> c_read m = Some (pretty f 0 v))) \<and>
    (nesting v \<le> CJSON_NESTING_LIMIT \<and> int (length (pretty f 0 v)) + 2 \<le> len \<longrightarrow> ok)"
proof -
  let ?t = "pretty f 0 v"
  define p where "p = \<lparr>pb_buffer = Some mem, pb_length = nat len,
    pb_offset = 0, pb_depth = 0, pb_noalloc = True, pb_format = f, pb_realloc = True, pb_hooks = []\<rparr>"
  have d: "does (nesting v \<le> CJSON_NESTING_LIMIT) (length ?t + 2) p (wrote ?t) (print_value v p)"
    using print_value_does[OF assms(1), of p] assms(3) by (auto simp: p_def filled_def)
  then obtain ok p' where p': "print_value v p = Some (ok, p')" by (auto simp: does_def split: option.splits)
  have "room p (length ?t + 2)" if "int (length ?t) + 2 \<le> len" using that assms(2) by (auto simp: room_def p_def is_int32_def)
  then have "nesting v \<le> CJSON_NESTING_LIMIT \<and> int (length ?t) + 2 \<le> len \<longrightarrow> ok" using d p' by (auto simp: does_def split: if_splits)
  moreover have "ok \<longrightarrow> (\<exists>m. pb_buffer p' = Some m \<and> c_read m = Some ?t)"
    using d p' wrote_read[OF _ pretty_no_nul[OF assms(1)]] by (auto simp: does_def)
  moreover have "cJSON_PrintPreallocated v (Some mem) len f = Some (ok, pb_buffer p')"
    using p' assms(3) by (auto simp: cJSON_PrintPreallocated_def p_def)
  ultimately show ?thesis by blast
qed

section \<open>Reading the text back\<close>

text \<open>A printed number is read back as the value of its text, an infinite one as \<open>null\<close>.\<close>

fun reread :: "cJSON \<Rightarrow> cJSON" where
  "reread (cJSON_Number d i) =
     (case d of Infinite _ \<Rightarrow> cJSON_NULL | Finite _ \<Rightarrow> let d' = fst (strtod (number_text d i)) in cJSON_Number d' (saturate_int d'))"
| "reread (cJSON_Array vs) = cJSON_Array (map reread vs)"
| "reread (cJSON_Object ms) = cJSON_Object (map (\<lambda>m. (fst m, reread (snd m))) ms)"
| "reread v = v"

lemma saturate_int_int32: "is_int32 (saturate_int d)"
  by (auto simp: saturate_int_def is_int32_def split: double.splits)

lemma number_text_cases:
  "number_text (Finite x) i = show_int i \<and> x = of_int i \<or> number_text (Finite x) i = fmt_g 15 x \<or> number_text (Finite x) i = fmt_g 17 x"
  by (simp add: number_text_def Let_def split_beta)

lemma number_text_denotes:
  assumes "is_double d"
  shows "denotes n (reread (cJSON_Number d (saturate_int d))) (number_text d (saturate_int d))"
proof (cases d)
  case (Finite x)
  define t where "t = number_text d (saturate_int d)"
  consider "x = of_int (saturate_int d)" "t = show_int (saturate_int d)" | p where "t = fmt_g p x" "0 < p"
    using number_text_cases[of x "saturate_int d"] unfolding t_def Finite by force
  then have "denotes n (cJSON_Number (fst (strtod t)) (saturate_int (fst (strtod t)))) t"
  proof cases
    case 1
    then show ?thesis using show_int_text[OF saturate_int_int32] strtod_show_int[OF saturate_int_int32] saturate_int_id[OF saturate_int_int32] by simp
  next
    case (2 p)
    have dec: "decimal t" using fmt_g_decimal 2 by simp
    show ?thesis using decimal_chars[OF dec] strtod_decimal[OF dec]
      by (intro denotes.text_number) (auto simp: is_number_char_def prod_eq_iff)
  qed
  then show ?thesis using Finite by (simp add: t_def Let_def)
qed (simp add: number_text_def denotes.text_null)

text \<open>White space before the first item, behind each comma and behind the last item.\<close>

lemma padded_blank: "padded P t \<Longrightarrow> blank w \<Longrightarrow> blank w' \<Longrightarrow> padded P (w @ t @ w')"
proof -
  assume "padded P t" "blank w" "blank w'"
  then obtain w1 t' w2 where "t = w1 @ t' @ w2" "blank (w @ w1)" "blank (w2 @ w')" "P t'" by (auto simp: padded_def blank_def)
  then show ?thesis unfolding padded_def by (intro exI[of _ "w @ w1"] exI[of _ t'] exI[of _ "w2 @ w'"]) simp
qed

lemma join_blank:
  assumes "list_all2 (\<lambda>x. padded (P x)) xs ts" and "ts \<noteq> []" and "blank w" and "blank sep" and "blank w'"
  shows "\<exists>ts'. list_all2 (\<lambda>x. padded (P x)) xs ts' \<and> join_with '','' ts' = w @ join_with (CHR '','' # sep) ts @ w'"
  using assms
proof (induction arbitrary: w rule: list_all2_induct)
  case (Cons x xs t ts)
  show ?case
  proof (cases ts)
    case Nil
    then show ?thesis using Cons padded_blank[of "P x" t w w'] by (intro exI[of _ "[w @ t @ w']"]) simp
  next
    case (Cons t1 ts1)
    then obtain ts' where ts': "list_all2 (\<lambda>x. padded (P x)) xs ts'" "join_with '','' ts' = sep @ join_with (CHR '','' # sep) ts @ w'"
      using Cons.IH[of sep] Cons.prems by auto
    then have "ts' \<noteq> []" using Cons Cons.hyps by auto
    then show ?thesis using Cons Cons.hyps Cons.prems ts' padded_blank[of "P x" t w "[]"]
      by (intro exI[of _ "(w @ t) # ts'"]) (cases ts', auto simp: blank_def)
  qed
qed simp

lemma pretty_denotes: "well_formed k v \<Longrightarrow> denotes k (reread v) (pretty f n v)"
proof (induction v arbitrary: k n)
  case (cJSON_Number d i)
  then show ?case using number_text_denotes[of d k] by simp
next
  case (cJSON_String s)
  then show ?case by (auto simp: quoted_def intro: denotes.text_string escaped_text)
next
  case (cJSON_Array vs)
  let ?sep = "if f then '' '' else []" and ?ts = "map (pretty f (n + 1)) vs"
  obtain j where k: "k = Suc j" using cJSON_Array.prems by (cases k) auto
  have all: "list_all2 (\<lambda>v. padded (denotes j v)) (map reread vs) ?ts"
    using cJSON_Array k by (auto simp: list.rel_map intro!: list.rel_refl_strong padded_self)
  show ?case
  proof (cases "vs = []")
    case False
    then obtain ts where "list_all2 (\<lambda>v. padded (denotes j v)) (map reread vs) ts" "join_with '','' ts = join_with (CHR '','' # ?sep) ?ts"
      using join_blank[OF all, of "[]" ?sep "[]"] by (auto simp: blank_def)
    then show ?thesis using denotes.text_array[of "map reread vs" j ts] False k by (auto split: if_splits)
  qed (use k denotes.text_no_array[of "[]"] in \<open>simp add: blank_def\<close>)
next
  case (cJSON_Object ms)
  let ?nl = "if f then [CHR 0x0A] else []" and ?vs = "map (\<lambda>m. (fst m, reread (snd m))) ms"
  let ?mt = "\<lambda>m. tabs f (n + 1) @ quoted (fst m) @ '':'' @ (if f then [CHR 0x09] else []) @ pretty f (n + 1) (snd m)"
  obtain j where k: "k = Suc j" using cJSON_Object.prems by (cases k) auto
  have tabs: "blank (tabs f i)" "blank ?nl" "blank (?nl @ tabs f i)" for i by (auto simp: blank_def tabs_def)
  have member: "padded (member_text (denotes j (reread (snd m))) (fst m)) (?mt m)" if "m \<in> set ms" for m
  proof -
    have "denotes j (reread (snd m)) (pretty f (n + 1) (snd m))" "CHR 0x00 \<notin> set (fst m)"
      using cJSON_Object.IH[OF that, of "snd m" j "n + 1"] cJSON_Object.prems that k by (auto simp: snds.simps)
    then have "member_text (denotes j (reread (snd m))) (fst m) (quoted (fst m) @ '':'' @ (if f then [CHR 0x09] else []) @ pretty f (n + 1) (snd m))"
      unfolding member_text_def using padded_blank[OF padded_self, of "denotes j (reread (snd m))" _ "if f then [CHR 0x09] else []" "[]"]
      by (intro exI[of _ "escaped (fst m)"] exI[of _ "[]"] exI[of _ "(if f then [CHR 0x09] else []) @ pretty f (n + 1) (snd m)"])
        (auto simp: quoted_def blank_def escaped_text)
    from padded_blank[OF padded_self[of "member_text _ _", OF this] tabs(1)[of "n + 1"], of "[]"] show ?thesis by (simp add: blank_def)
  qed
  then have all: "list_all2 (\<lambda>m. padded (member_text (denotes j (snd m)) (fst m))) ?vs (map ?mt ms)"
    by (auto simp: list.rel_map intro!: list.rel_refl_strong)
  show ?case
  proof (cases "ms = []")
    case False
    then obtain ts where "list_all2 (\<lambda>m. padded (member_text (denotes j (snd m)) (fst m))) ?vs ts"
        "join_with '','' ts = ?nl @ join_with (CHR '','' # ?nl) (map ?mt ms) @ ?nl @ tabs f n"
      using join_blank[OF all _ tabs(2,2) tabs(3)[of n]] by auto
    then show ?thesis using denotes.text_object[of ?vs j ts] False k by (auto simp: tabs_def)
  qed (use k denotes.text_no_object[OF tabs(3)[of n], of j] in \<open>simp add: tabs_def\<close>)
qed (auto intro: denotes.intros)

lemma well_formed_printable: "well_formed n v \<Longrightarrow> printable v \<and> nesting v \<le> n"
proof (induction v arbitrary: n)
  case (cJSON_Array vs)
  then have "nesting v \<le> n - 1" if "v \<in> set vs" for v using that by auto
  then have "Max (insert 0 (set (map nesting vs))) \<le> n - 1" by (subst Max_le_iff) auto
  then have "nesting (cJSON_Array vs) \<le> n" using cJSON_Array.prems unfolding nesting.simps well_formed.simps by linarith
  then show ?case using cJSON_Array by auto
next
  case (cJSON_Object ms)
  then have ih: "printable (snd m) \<and> nesting (snd m) \<le> n - 1" if "m \<in> set ms" for m
    using cJSON_Object.IH[OF that, of "snd m" "n - 1"] that by (auto simp: snds.simps)
  then have "Max (insert 0 (set (map (\<lambda>m. nesting (snd m)) ms))) \<le> n - 1" by (subst Max_le_iff) auto
  then have "nesting (cJSON_Object ms) \<le> n" using cJSON_Object.prems unfolding nesting.simps well_formed.simps by linarith
  then show ?case using cJSON_Object.prems ih by auto
qed (auto simp: saturate_int_int32)

lemma reread_readable: "readable n v \<Longrightarrow> reread v = v \<and> well_formed n v"
proof (induction v arbitrary: n)
  case (cJSON_Number d i)
  then show ?case by (auto simp: number_text_def strtod_show_int saturate_int_id is_double_int Let_def)
next
  case (cJSON_Array vs)
  then show ?case by (auto intro!: map_idI)
next
  case (cJSON_Object ms)
  then have "reread (snd m) = snd m \<and> well_formed (n - 1) (snd m)" if "m \<in> set ms" for m
    using cJSON_Object.IH[OF that, of "snd m" "n - 1"] that by (auto simp: snds.simps)
  then show ?case using cJSON_Object.prems by (auto intro!: map_idI simp: prod_eq_iff)
qed simp_all

text \<open>The parser reads what the printer wrote.\<close>

lemma cJSON_Parse_pretty:
  assumes "well_formed CJSON_NESTING_LIMIT v" and "\<forall>x \<in> set hs. x"
  shows "\<exists>b. cJSON_Parse (pretty f 0 v) hs = Tree (reread v) b"
  using cJSON_Parse_denotes[OF pretty_denotes[OF assms(1), of f 0], of "[]" "[]" hs] assms(2) by (simp add: blank_def)

end
