(* ===== verification/Cjson_Heap.thy ===== *)
theory Cjson_Heap
  imports Cjson "HOL-Library.Monad_Syntax"
begin

text \<open>
  Items of \<^verbatim>\<open>extern/cJSON/cJSON.c\<close> in the heap, and the operations that link and unlink them. A heap maps the
  addresses of allocated items and of allocated texts to their contents; following a null or dangling pointer
  and freeing a block twice is the result \<open>None\<close>. An allocation takes the next address that was never used,
  or fails as the script of outcomes says.

  The children of an array or object are doubly linked: \<open>children\<close> relates the heap to their list. The
  previous pointer of the first child leads to the last one.
\<close>

named_theorems heap_simps \<open>what an update of the heap leaves alone\<close>

section \<open>Items and heaps\<close>

type_synonym addr = nat

text \<open>The low byte of \<^verbatim>\<open>type\<close>.\<close>

datatype kind = K_Invalid | K_False | K_True | K_NULL | K_Number | K_String | K_Array | K_Object | K_Raw

record item =
  i_next :: "addr option"
  i_prev :: "addr option"
  i_child :: "addr option"
  i_kind :: kind
  i_IsReference :: bool
  i_StringIsConst :: bool
  i_valuestring :: "addr option"
  i_valueint :: int
  i_valuedouble :: double
  i_string :: "addr option"

definition blank_item :: item where
  "blank_item = \<lparr>i_next = None, i_prev = None, i_child = None, i_kind = K_Invalid, i_IsReference = False,
     i_StringIsConst = False, i_valuestring = None, i_valueint = 0, i_valuedouble = Finite 0, i_string = None\<rparr>"

record heap_t =
  h_items :: "addr \<rightharpoonup> item"
  h_texts :: "addr \<rightharpoonup> string"
  h_next :: addr
  h_allocs :: allocs

definition upd :: "addr \<Rightarrow> (item \<Rightarrow> item) \<Rightarrow> heap_t \<Rightarrow> heap_t option" where
  "upd a f h = do { x \<leftarrow> h_items h a; Some (h\<lparr>h_items := (h_items h)(a \<mapsto> f x)\<rparr>) }"

definition free_item :: "addr \<Rightarrow> heap_t \<Rightarrow> heap_t option" where
  "free_item a h = do { x \<leftarrow> h_items h a; Some (h\<lparr>h_items := (h_items h)(a := None)\<rparr>) }"

definition free_text :: "addr \<Rightarrow> heap_t \<Rightarrow> heap_t option" where
  "free_text a h = do { x \<leftarrow> h_texts h a; Some (h\<lparr>h_texts := (h_texts h)(a := None)\<rparr>) }"

definition cJSON_New_Item :: "heap_t \<Rightarrow> addr option \<times> heap_t" where
  "cJSON_New_Item h =
     (let (ok, al) = alloc (h_allocs h) in
      if ok then (Some (h_next h), h\<lparr>h_items := (h_items h)(h_next h \<mapsto> blank_item), h_next := h_next h + 1, h_allocs := al\<rparr>)
      else (None, h\<lparr>h_allocs := al\<rparr>))"

definition cJSON_strdup :: "addr option \<Rightarrow> heap_t \<Rightarrow> (addr option \<times> heap_t) option" where
  "cJSON_strdup string h =
     (case string of
        None \<Rightarrow> Some (None, h)
      | Some a \<Rightarrow> do {
          s \<leftarrow> h_texts h a;
          let (ok, al) = alloc (h_allocs h);
          Some (if ok then (Some (h_next h), h\<lparr>h_texts := (h_texts h)(h_next h \<mapsto> s), h_next := h_next h + 1, h_allocs := al\<rparr>)
                else (None, h\<lparr>h_allocs := al\<rparr>)) })"

section \<open>Deleting\<close>

text \<open>The text that a pointer of an item leads to is freed, and the pointer set to null.\<close>

partial_function (option) cJSON_Delete :: "addr option \<Rightarrow> heap_t \<Rightarrow> heap_t option" where
  "cJSON_Delete p h =
     (case p of
        None \<Rightarrow> Some h
      | Some a \<Rightarrow> do {
          x \<leftarrow> h_items h a;
          let next = i_next x;
          h \<leftarrow> (if \<not> i_IsReference x \<and> i_child x \<noteq> None then cJSON_Delete (i_child x) h else Some h);
          x \<leftarrow> h_items h a;
          h \<leftarrow> (case i_valuestring x of
                 Some s \<Rightarrow> if \<not> i_IsReference x then do { h \<leftarrow> free_text s h; upd a (\<lambda>x. x\<lparr>i_valuestring := None\<rparr>) h } else Some h
               | None \<Rightarrow> Some h);
          x \<leftarrow> h_items h a;
          h \<leftarrow> (case i_string x of
                 Some s \<Rightarrow> if \<not> i_StringIsConst x then do { h \<leftarrow> free_text s h; upd a (\<lambda>x. x\<lparr>i_string := None\<rparr>) h } else Some h
               | None \<Rightarrow> Some h);
          h \<leftarrow> free_item a h;
          cJSON_Delete next h })"

section \<open>Looking up\<close>

fun walk_next :: "addr option \<Rightarrow> nat \<Rightarrow> heap_t \<Rightarrow> addr option option" where
  "walk_next None n h = Some None"
| "walk_next (Some a) 0 h = Some (Some a)"
| "walk_next (Some a) (Suc n) h = do { x \<leftarrow> h_items h a; walk_next (i_next x) n h }"

definition get_array_item :: "addr option \<Rightarrow> nat \<Rightarrow> heap_t \<Rightarrow> addr option option" where
  "get_array_item array index h =
     (case array of
        None \<Rightarrow> Some None
      | Some a \<Rightarrow> do { x \<leftarrow> h_items h a; walk_next (i_child x) index h })"

definition cJSON_GetArrayItem :: "addr option \<Rightarrow> int \<Rightarrow> heap_t \<Rightarrow> addr option option" where
  "cJSON_GetArrayItem array index h = (if index < 0 then Some None else get_array_item array (nat index) h)"

partial_function (option) count_next :: "addr option \<Rightarrow> nat \<Rightarrow> heap_t \<Rightarrow> nat option" where
  "count_next p n h = (case p of None \<Rightarrow> Some n | Some a \<Rightarrow> do { x \<leftarrow> h_items h a; count_next (i_next x) (n + 1) h })"

definition cJSON_GetArraySize_at :: "addr option \<Rightarrow> heap_t \<Rightarrow> int option" where
  "cJSON_GetArraySize_at array h =
     (case array of
        None \<Rightarrow> Some 0
      | Some a \<Rightarrow> do { x \<leftarrow> h_items h a; n \<leftarrow> count_next (i_child x) 0 h; Some (wrap32 (int n)) })"

text \<open>The text of a name that may be the null pointer; the loop stops at an item whose name fits.\<close>

definition name_at :: "addr option \<Rightarrow> heap_t \<Rightarrow> string option option" where
  "name_at p h = (case p of None \<Rightarrow> Some None | Some a \<Rightarrow> do { s \<leftarrow> h_texts h a; Some (Some s) })"

partial_function (option) find_name :: "bool \<Rightarrow> string \<Rightarrow> addr option \<Rightarrow> heap_t \<Rightarrow> addr option option" where
  "find_name case_sensitive name p h =
     (case p of
        None \<Rightarrow> Some None
      | Some a \<Rightarrow> do {
          x \<leftarrow> h_items h a;
          key \<leftarrow> name_at (i_string x) h;
          if same_name case_sensitive name key then Some (Some a) else find_name case_sensitive name (i_next x) h })"

definition get_object_item_at :: "addr option \<Rightarrow> addr option \<Rightarrow> bool \<Rightarrow> heap_t \<Rightarrow> addr option option" where
  "get_object_item_at object name case_sensitive h =
     (case (object, name) of
        (Some a, Some n) \<Rightarrow> do {
          x \<leftarrow> h_items h a;
          s \<leftarrow> h_texts h n;
          current_element \<leftarrow> find_name case_sensitive s (i_child x) h;
          case current_element of
            None \<Rightarrow> Some None
          | Some e \<Rightarrow> do { y \<leftarrow> h_items h e; Some (if i_string y = None then None else Some e) } }
      | _ \<Rightarrow> Some None)"

section \<open>Linking\<close>

abbreviation (input) put_next :: "addr \<Rightarrow> addr option \<Rightarrow> heap_t \<Rightarrow> heap_t option" where
  "put_next a p \<equiv> upd a (\<lambda>x. x\<lparr>i_next := p\<rparr>)"

abbreviation (input) put_prev :: "addr \<Rightarrow> addr option \<Rightarrow> heap_t \<Rightarrow> heap_t option" where
  "put_prev a p \<equiv> upd a (\<lambda>x. x\<lparr>i_prev := p\<rparr>)"

abbreviation (input) put_child :: "addr \<Rightarrow> addr option \<Rightarrow> heap_t \<Rightarrow> heap_t option" where
  "put_child a p \<equiv> upd a (\<lambda>x. x\<lparr>i_child := p\<rparr>)"

definition suffix_object :: "addr \<Rightarrow> addr \<Rightarrow> heap_t \<Rightarrow> heap_t option" where
  "suffix_object prev it h = do { h \<leftarrow> put_next prev (Some it) h; put_prev it (Some prev) h }"

definition create_reference :: "addr option \<Rightarrow> heap_t \<Rightarrow> (addr option \<times> heap_t) option" where
  "create_reference it h =
     (case it of
        None \<Rightarrow> Some (None, h)
      | Some a \<Rightarrow>
          (case cJSON_New_Item h of
             (None, h) \<Rightarrow> Some (None, h)
           | (Some reference, h) \<Rightarrow> do {
               x \<leftarrow> h_items h a;
               h \<leftarrow> upd reference (\<lambda>_. x\<lparr>i_string := None, i_IsReference := True, i_next := None, i_prev := None\<rparr>) h;
               Some (Some reference, h) }))"

definition add_item_to_array :: "addr option \<Rightarrow> addr option \<Rightarrow> heap_t \<Rightarrow> (bool \<times> heap_t) option" where
  "add_item_to_array array it h =
     (case (array, it) of
        (Some a, Some i) \<Rightarrow>
          if a = i then Some (False, h)
          else do {
            x \<leftarrow> h_items h a;
            h \<leftarrow> (case i_child x of
                    None \<Rightarrow> do { h \<leftarrow> put_child a (Some i) h; h \<leftarrow> put_prev i (Some i) h; put_next i None h }
                  | Some c \<Rightarrow> do {
                      y \<leftarrow> h_items h c;
                      case i_prev y of
                        None \<Rightarrow> Some h
                      | Some l \<Rightarrow> do {
                          h \<leftarrow> suffix_object l i h;
                          x \<leftarrow> h_items h a;
                          c \<leftarrow> i_child x;
                          put_prev c (Some i) h } });
            Some (True, h) }
      | _ \<Rightarrow> Some (False, h))"

definition cJSON_AddItemToArray :: "addr option \<Rightarrow> addr option \<Rightarrow> heap_t \<Rightarrow> (bool \<times> heap_t) option" where
  "cJSON_AddItemToArray array it h = add_item_to_array array it h"

definition add_item_to_object ::
    "addr option \<Rightarrow> addr option \<Rightarrow> addr option \<Rightarrow> bool \<Rightarrow> heap_t \<Rightarrow> (bool \<times> heap_t) option" where
  "add_item_to_object object string it constant_key h =
     (case (object, string, it) of
        (Some a, Some s, Some i) \<Rightarrow>
          if a = i then Some (False, h)
          else do {
            (new_key, h) \<leftarrow> (if constant_key then Some (Some s, h) else cJSON_strdup (Some s) h);
            if new_key = None then Some (False, h)
            else do {
              x \<leftarrow> h_items h i;
              h \<leftarrow> (case i_string x of
                      Some old \<Rightarrow> if \<not> i_StringIsConst x then free_text old h else Some h
                    | None \<Rightarrow> Some h);
              h \<leftarrow> upd i (\<lambda>x. x\<lparr>i_string := new_key, i_StringIsConst := constant_key\<rparr>) h;
              add_item_to_array object it h } }
      | _ \<Rightarrow> Some (False, h))"

definition cJSON_AddItemToObject :: "addr option \<Rightarrow> addr option \<Rightarrow> addr option \<Rightarrow> heap_t \<Rightarrow> (bool \<times> heap_t) option" where
  "cJSON_AddItemToObject object string it h = add_item_to_object object string it False h"

definition cJSON_AddItemToObjectCS :: "addr option \<Rightarrow> addr option \<Rightarrow> addr option \<Rightarrow> heap_t \<Rightarrow> (bool \<times> heap_t) option" where
  "cJSON_AddItemToObjectCS object string it h = add_item_to_object object string it True h"

definition cJSON_AddItemReferenceToArray :: "addr option \<Rightarrow> addr option \<Rightarrow> heap_t \<Rightarrow> (bool \<times> heap_t) option" where
  "cJSON_AddItemReferenceToArray array it h =
     (if array = None then Some (False, h)
      else do { (r, h) \<leftarrow> create_reference it h; add_item_to_array array r h })"

definition cJSON_AddItemReferenceToObject :: "addr option \<Rightarrow> addr option \<Rightarrow> addr option \<Rightarrow> heap_t \<Rightarrow> (bool \<times> heap_t) option" where
  "cJSON_AddItemReferenceToObject object string it h =
     (if object = None \<or> string = None then Some (False, h)
      else do { (r, h) \<leftarrow> create_reference it h; add_item_to_object object string r False h })"

section \<open>Unlinking\<close>

definition cJSON_DetachItemViaPointer :: "addr option \<Rightarrow> addr option \<Rightarrow> heap_t \<Rightarrow> (addr option \<times> heap_t) option" where
  "cJSON_DetachItemViaPointer parent it h =
     (case (parent, it) of
        (Some a, Some i) \<Rightarrow> do {
          x \<leftarrow> h_items h a;
          y \<leftarrow> h_items h i;
          if i_child x \<noteq> Some i \<and> i_prev y = None then Some (None, h)
          else do {
            h \<leftarrow> (if i_child x \<noteq> Some i then do { l \<leftarrow> i_prev y; put_next l (i_next y) h } else Some h);
            y \<leftarrow> h_items h i;
            h \<leftarrow> (case i_next y of Some n \<Rightarrow> put_prev n (i_prev y) h | None \<Rightarrow> Some h);
            x \<leftarrow> h_items h a;
            y \<leftarrow> h_items h i;
            h \<leftarrow> (if i_child x = Some i then put_child a (i_next y) h
                  else if i_next y = None then do { c \<leftarrow> i_child x; put_prev c (i_prev y) h } else Some h);
            h \<leftarrow> put_prev i None h;
            h \<leftarrow> put_next i None h;
            Some (Some i, h) } }
      | _ \<Rightarrow> Some (None, h))"

definition cJSON_DetachItemFromArray :: "addr option \<Rightarrow> int \<Rightarrow> heap_t \<Rightarrow> (addr option \<times> heap_t) option" where
  "cJSON_DetachItemFromArray array which h =
     (if which < 0 then Some (None, h)
      else do { p \<leftarrow> get_array_item array (nat which) h; cJSON_DetachItemViaPointer array p h })"

definition cJSON_DeleteItemFromArray :: "addr option \<Rightarrow> int \<Rightarrow> heap_t \<Rightarrow> heap_t option" where
  "cJSON_DeleteItemFromArray array which h = do { (p, h) \<leftarrow> cJSON_DetachItemFromArray array which h; cJSON_Delete p h }"

definition detach_from_object :: "addr option \<Rightarrow> addr option \<Rightarrow> bool \<Rightarrow> heap_t \<Rightarrow> (addr option \<times> heap_t) option" where
  "detach_from_object object string case_sensitive h =
     do { to_detach \<leftarrow> get_object_item_at object string case_sensitive h; cJSON_DetachItemViaPointer object to_detach h }"

definition cJSON_DetachItemFromObject :: "addr option \<Rightarrow> addr option \<Rightarrow> heap_t \<Rightarrow> (addr option \<times> heap_t) option" where
  "cJSON_DetachItemFromObject object string h = detach_from_object object string False h"

definition cJSON_DetachItemFromObjectCaseSensitive :: "addr option \<Rightarrow> addr option \<Rightarrow> heap_t \<Rightarrow> (addr option \<times> heap_t) option" where
  "cJSON_DetachItemFromObjectCaseSensitive object string h = detach_from_object object string True h"

definition cJSON_DeleteItemFromObject :: "addr option \<Rightarrow> addr option \<Rightarrow> heap_t \<Rightarrow> heap_t option" where
  "cJSON_DeleteItemFromObject object string h =
     do { (p, h) \<leftarrow> cJSON_DetachItemFromObject object string h; cJSON_Delete p h }"

definition cJSON_DeleteItemFromObjectCaseSensitive :: "addr option \<Rightarrow> addr option \<Rightarrow> heap_t \<Rightarrow> heap_t option" where
  "cJSON_DeleteItemFromObjectCaseSensitive object string h =
     do { (p, h) \<leftarrow> cJSON_DetachItemFromObjectCaseSensitive object string h; cJSON_Delete p h }"

section \<open>Inserting and replacing\<close>

definition cJSON_InsertItemInArray :: "addr option \<Rightarrow> int \<Rightarrow> addr option \<Rightarrow> heap_t \<Rightarrow> (bool \<times> heap_t) option" where
  "cJSON_InsertItemInArray array which newitem h =
     (case newitem of
        None \<Rightarrow> Some (False, h)
      | Some i \<Rightarrow>
          if which < 0 then Some (False, h)
          else do {
            after_inserted \<leftarrow> get_array_item array (nat which) h;
            case after_inserted of
              None \<Rightarrow> add_item_to_array array newitem h
            | Some b \<Rightarrow> do {
                a \<leftarrow> array;
                x \<leftarrow> h_items h a;
                y \<leftarrow> h_items h b;
                if i_child x \<noteq> Some b \<and> i_prev y = None then Some (False, h)
                else do {
                  h \<leftarrow> put_next i (Some b) h;
                  y \<leftarrow> h_items h b;
                  h \<leftarrow> put_prev i (i_prev y) h;
                  h \<leftarrow> put_prev b (Some i) h;
                  x \<leftarrow> h_items h a;
                  h \<leftarrow> (if i_child x = Some b then put_child a (Some i) h
                        else do { z \<leftarrow> h_items h i; l \<leftarrow> i_prev z; put_next l (Some i) h });
                  Some (True, h) } } })"

definition cJSON_ReplaceItemViaPointer :: "addr option \<Rightarrow> addr option \<Rightarrow> addr option \<Rightarrow> heap_t \<Rightarrow> (bool \<times> heap_t) option" where
  "cJSON_ReplaceItemViaPointer parent it replacement h =
     (case parent of
        None \<Rightarrow> Some (False, h)
      | Some a \<Rightarrow> do {
          x \<leftarrow> h_items h a;
          case (i_child x, it, replacement) of
            (Some c, Some i, Some r) \<Rightarrow>
              if r = i then Some (True, h)
              else do {
                y \<leftarrow> h_items h i;
                h \<leftarrow> put_next r (i_next y) h;
                y \<leftarrow> h_items h i;
                h \<leftarrow> put_prev r (i_prev y) h;
                z \<leftarrow> h_items h r;
                h \<leftarrow> (case i_next z of Some n \<Rightarrow> put_prev n (Some r) h | None \<Rightarrow> Some h);
                x \<leftarrow> h_items h a;
                h \<leftarrow> (if i_child x = Some i
                      then do {
                        y \<leftarrow> h_items h i;
                        h \<leftarrow> (if i_prev y = Some i then put_prev r (Some r) h else Some h);
                        put_child a (Some r) h }
                      else do {
                        z \<leftarrow> h_items h r;
                        h \<leftarrow> (case i_prev z of Some l \<Rightarrow> put_next l (Some r) h | None \<Rightarrow> Some h);
                        z \<leftarrow> h_items h r;
                        if i_next z = None then do { x \<leftarrow> h_items h a; c \<leftarrow> i_child x; put_prev c (Some r) h } else Some h });
                h \<leftarrow> put_next i None h;
                h \<leftarrow> put_prev i None h;
                h \<leftarrow> cJSON_Delete (Some i) h;
                Some (True, h) }
          | _ \<Rightarrow> Some (False, h) })"

definition cJSON_ReplaceItemInArray :: "addr option \<Rightarrow> int \<Rightarrow> addr option \<Rightarrow> heap_t \<Rightarrow> (bool \<times> heap_t) option" where
  "cJSON_ReplaceItemInArray array which newitem h =
     (if which < 0 then Some (False, h)
      else do { p \<leftarrow> get_array_item array (nat which) h; cJSON_ReplaceItemViaPointer array p newitem h })"

definition replace_item_in_object ::
    "addr option \<Rightarrow> addr option \<Rightarrow> addr option \<Rightarrow> bool \<Rightarrow> heap_t \<Rightarrow> (bool \<times> heap_t) option" where
  "replace_item_in_object object string replacement case_sensitive h =
     (case (replacement, string) of
        (Some r, Some s) \<Rightarrow> do {
          x \<leftarrow> h_items h r;
          h \<leftarrow> (case i_string x of
                  Some old \<Rightarrow> if \<not> i_StringIsConst x then free_text old h else Some h
                | None \<Rightarrow> Some h);
          (key, h) \<leftarrow> cJSON_strdup string h;
          h \<leftarrow> upd r (\<lambda>x. x\<lparr>i_string := key\<rparr>) h;
          if key = None then Some (False, h)
          else do {
            h \<leftarrow> upd r (\<lambda>x. x\<lparr>i_StringIsConst := False\<rparr>) h;
            p \<leftarrow> get_object_item_at object string case_sensitive h;
            cJSON_ReplaceItemViaPointer object p replacement h } }
      | _ \<Rightarrow> Some (False, h))"

definition cJSON_ReplaceItemInObject :: "addr option \<Rightarrow> addr option \<Rightarrow> addr option \<Rightarrow> heap_t \<Rightarrow> (bool \<times> heap_t) option" where
  "cJSON_ReplaceItemInObject object string newitem h = replace_item_in_object object string newitem False h"

definition cJSON_ReplaceItemInObjectCaseSensitive :: "addr option \<Rightarrow> addr option \<Rightarrow> addr option \<Rightarrow> heap_t \<Rightarrow> (bool \<times> heap_t) option" where
  "cJSON_ReplaceItemInObjectCaseSensitive object string newitem h = replace_item_in_object object string newitem True h"

section \<open>Lists of children\<close>

definition first :: "addr list \<Rightarrow> addr option" where
  "first cs = (case cs of [] \<Rightarrow> None | c # _ \<Rightarrow> Some c)"

text \<open>Where the pointers of a member lead: to its successor, and to its predecessor or, for the first, to the
  last.\<close>

fun next_in :: "addr list \<Rightarrow> addr \<Rightarrow> addr option" where
  "next_in [] b = None"
| "next_in (c # cs) b = (if b = c then first cs else next_in cs b)"

fun before_in :: "addr \<Rightarrow> addr list \<Rightarrow> addr \<Rightarrow> addr option" where
  "before_in p [] b = None"
| "before_in p (c # cs) b = (if b = c then Some p else before_in c cs b)"

definition prev_in :: "addr list \<Rightarrow> addr \<Rightarrow> addr option" where
  "prev_in cs b = before_in (last cs) cs b"

definition relink :: "addr list \<Rightarrow> (addr \<rightharpoonup> item) \<Rightarrow> addr \<rightharpoonup> item" where
  "relink cs m = (\<lambda>b. if b \<in> set cs then map_option (\<lambda>x. x\<lparr>i_next := next_in cs b, i_prev := prev_in cs b\<rparr>) (m b) else m b)"

text \<open>The heap in which the children of \<open>a\<close> are \<open>cs\<close>, and all else is as before.\<close>

definition put_list :: "addr \<Rightarrow> addr list \<Rightarrow> heap_t \<Rightarrow> heap_t" where
  "put_list a cs h = h\<lparr>h_items := (relink cs (h_items h))(a := map_option (\<lambda>x. x\<lparr>i_child := first cs\<rparr>) (h_items h a))\<rparr>"

definition children :: "heap_t \<Rightarrow> addr \<Rightarrow> addr list \<Rightarrow> bool" where
  "children h a cs \<longleftrightarrow> a \<notin> set cs \<and> distinct cs \<and>
     (\<exists>x. h_items h a = Some x \<and> i_child x = first cs) \<and>
     (\<forall>b \<in> set cs. \<exists>x. h_items h b = Some x \<and> i_next x = next_in cs b \<and> i_prev x = prev_in cs b)"

text \<open>An item that is in no list.\<close>

definition loose :: "addr \<Rightarrow> heap_t \<Rightarrow> bool" where
  "loose i h \<longleftrightarrow> (\<exists>x. h_items h i = Some x \<and> i_next x = None \<and> i_prev x = None)"

definition unlink :: "addr \<Rightarrow> heap_t \<Rightarrow> heap_t" where
  "unlink i h = h\<lparr>h_items := (h_items h)(i := map_option (\<lambda>x. x\<lparr>i_next := None, i_prev := None\<rparr>) (h_items h i))\<rparr>"

subsection \<open>Neighbours\<close>

lemma first_simps [simp]: "first [] = None" "first (c # cs) = Some c"
  by (simp_all add: first_def)

lemma first_append [simp]: "first (us @ vs) = (if us = [] then first vs else first us)"
  by (cases us) simp_all

lemma first_None [simp]: "first cs = None \<longleftrightarrow> cs = []" "None = first cs \<longleftrightarrow> cs = []"
  by (cases cs; simp)+

lemma first_Some: "cs \<noteq> [] \<Longrightarrow> first cs = Some (hd cs)"
  by (cases cs) simp_all

lemma next_in_out [simp]: "b \<notin> set cs \<Longrightarrow> next_in cs b = None"
  by (induction cs) auto

lemma next_in_insert:
  "distinct (us @ i # vs) \<Longrightarrow> next_in (us @ i # vs) b =
     (if b = i then first vs else if us \<noteq> [] \<and> b = last us then Some i else next_in (us @ vs) b)"
  by (induction us) auto

lemma before_in_out [simp]: "b \<notin> set cs \<Longrightarrow> before_in p cs b = None"
  by (induction cs arbitrary: p) auto

lemma before_in_append:
  "distinct (us @ vs) \<Longrightarrow> before_in p (us @ vs) b =
     (if b \<in> set us then before_in p us b else before_in (if us = [] then p else last us) vs b)"
  by (induction us arbitrary: p) auto

lemma before_in_start: "b \<noteq> hd cs \<Longrightarrow> before_in p cs b = before_in q cs b"
  by (cases cs) auto

lemma prev_in_out [simp]: "b \<notin> set cs \<Longrightarrow> prev_in cs b = None"
  by (simp add: prev_in_def)

lemma prev_in_first: "prev_in (c # cs) c = Some (last (c # cs))"
  by (simp add: prev_in_def)

lemma prev_in_insert:
  assumes "distinct (us @ i # vs)"
  shows "prev_in (us @ i # vs) b =
    (if b = i then Some (if us \<noteq> [] then last us else if vs \<noteq> [] then last vs else i)
     else if vs \<noteq> [] \<and> b = hd vs then Some i
     else if us \<noteq> [] \<and> vs = [] \<and> b = hd us then Some i
     else prev_in (us @ vs) b)"
proof (cases "us = []")
  case True
  then show ?thesis using assms by (cases vs) (auto simp: prev_in_def before_in_start)
next
  case False
  then obtain u us' where u: "us = u # us'" by (cases us) auto
  show ?thesis
  proof (cases "vs = []")
    case True
    then show ?thesis using assms u by (auto simp: prev_in_def before_in_append)
  next
    case False
    then show ?thesis using assms u by (cases vs) (auto simp: prev_in_def before_in_append)
  qed
qed

lemma ends_differ: "distinct (us @ vs) \<Longrightarrow> us \<noteq> [] \<Longrightarrow> vs \<noteq> [] \<Longrightarrow> last us \<noteq> hd vs \<and> hd us \<noteq> hd vs"
  by (metis IntI distinct_append empty_iff hd_in_set last_in_set)

lemma next_in_last: "distinct (us @ vs) \<Longrightarrow> us \<noteq> [] \<Longrightarrow> next_in (us @ vs) (last us) = first vs"
  by (induction us) auto

lemma prev_in_hd: "distinct (us @ vs) \<Longrightarrow> vs \<noteq> [] \<Longrightarrow> prev_in (us @ vs) (hd vs) = Some (if us = [] then last vs else last us)"
  by (cases vs) (auto simp: prev_in_def before_in_append)

lemma prev_in_start: "us \<noteq> [] \<Longrightarrow> prev_in (us @ vs) (hd us) = Some (last (us @ vs))"
  by (cases us) (simp_all add: prev_in_def)

subsection \<open>Heaps with lists\<close>

lemma children_put:
  assumes "a \<notin> set cs" and "distinct cs" and "h_items h a \<noteq> None" and "\<forall>b \<in> set cs. h_items h b \<noteq> None"
  shows "children (put_list a cs h) a cs"
  using assms by (auto simp: children_def put_list_def relink_def)

lemma put_list_id: "children h a cs \<Longrightarrow> put_list a cs h = h"
  by (cases h) (auto simp: children_def put_list_def relink_def fun_eq_iff)

lemma put_list_frame [heap_simps]:
  "b \<noteq> a \<Longrightarrow> b \<notin> set cs \<Longrightarrow> h_items (put_list a cs h) b = h_items h b"
  "h_texts (put_list a cs h) = h_texts h" "h_next (put_list a cs h) = h_next h" "h_allocs (put_list a cs h) = h_allocs h"
  by (simp_all add: put_list_def relink_def)

text \<open>The pointers of a member and of its parent.\<close>

lemma childrenD:
  assumes "children h a (us @ i # vs)"
  shows "a \<noteq> i" "a \<notin> set us" "a \<notin> set vs" "i \<notin> set us" "i \<notin> set vs" "distinct (us @ vs)"
    "\<exists>x. h_items h a = Some x \<and> i_child x = (if us = [] then Some i else first us)"
    "\<exists>x. h_items h i = Some x \<and> i_next x = first vs \<and>
       i_prev x = Some (if us \<noteq> [] then last us else if vs \<noteq> [] then last vs else i)"
  using assms by (auto simp: children_def next_in_insert prev_in_insert prev_in_first)

lemma children_member:
  assumes "children h a cs" and "b \<in> set cs"
  shows "\<exists>x. h_items h b = Some x \<and> i_next x = next_in cs b \<and> i_prev x = prev_in cs b"
  using assms by (simp add: children_def)

lemma upd_eq: "h_items h a = Some x \<Longrightarrow> upd a f h = Some (h\<lparr>h_items := (h_items h)(a \<mapsto> f x)\<rparr>)"
  by (simp add: upd_def)

lemma heap_eqI:
  "h_items h = h_items h' \<Longrightarrow> h_texts h = h_texts h' \<Longrightarrow> h_next h = h_next h' \<Longrightarrow> h_allocs h = h_allocs h' \<Longrightarrow> h = (h' :: heap_t)"
  by simp

subsection \<open>Operations\<close>

lemma walk_next_list:
  assumes "\<forall>b \<in> set cs. \<exists>x. h_items h b = Some x \<and> i_next x = next_in cs b" and "distinct cs"
  shows "walk_next (first cs) n h = Some (if n < length cs then Some (cs ! n) else None)"
  using assms
proof (induction cs arbitrary: n)
  case (Cons c cs)
  then obtain x where x: "h_items h c = Some x" "i_next x = first cs" by auto
  have "\<forall>b \<in> set cs. \<exists>x. h_items h b = Some x \<and> i_next x = next_in cs b"
  proof
    fix b assume "b \<in> set cs"
    then show "\<exists>x. h_items h b = Some x \<and> i_next x = next_in cs b" using Cons.prems by fastforce
  qed
  then have "walk_next (first cs) k h = Some (if k < length cs then Some (cs ! k) else None)" for k using Cons.IH Cons.prems(2) by simp
  with x show ?case by (cases n) simp_all
qed simp

lemma get_array_item_list:
  assumes "children h a cs"
  shows "get_array_item (Some a) n h = Some (if n < length cs then Some (cs ! n) else None)"
proof -
  obtain x where "h_items h a = Some x" "i_child x = first cs" using assms by (auto simp: children_def)
  moreover have "\<forall>b \<in> set cs. \<exists>x. h_items h b = Some x \<and> i_next x = next_in cs b" using assms by (auto simp: children_def)
  ultimately show ?thesis using walk_next_list[of cs h n] assms by (simp add: get_array_item_def children_def)
qed

definition change :: "addr \<Rightarrow> (item \<Rightarrow> item) \<Rightarrow> (addr \<rightharpoonup> item) \<Rightarrow> addr \<rightharpoonup> item" where
  "change a f m = m(a := map_option f (m a))"

lemma change_apply: "change a f m b = (if b = a then map_option f (m a) else m b)"
  by (simp add: change_def)

lemma upd_change: "h_items h a \<noteq> None \<Longrightarrow> upd a f h = Some (h\<lparr>h_items := change a f (h_items h)\<rparr>)"
  by (auto simp: upd_def change_def)

text \<open>The items next to a place in the list.\<close>

lemma children_around:
  assumes "children h a (us @ vs)"
  shows "us \<noteq> [] \<Longrightarrow> \<exists>v. h_items h (last us) = Some v" "us \<noteq> [] \<Longrightarrow> \<exists>v. h_items h (hd us) = Some v"
    "vs \<noteq> [] \<Longrightarrow> \<exists>v. h_items h (hd vs) = Some v"
    "us \<noteq> [] \<Longrightarrow> last us \<noteq> a \<and> hd us \<noteq> a" "vs \<noteq> [] \<Longrightarrow> hd vs \<noteq> a"
    "us \<noteq> [] \<Longrightarrow> vs \<noteq> [] \<Longrightarrow> last us \<noteq> hd vs \<and> hd us \<noteq> hd vs"
  using assms by (auto simp: children_def disjoint_iff dest: last_in_set hd_in_set)

lemma append_items:
  assumes "children h a cs" and "cs \<noteq> []" and "loose i h" and "i \<notin> set cs" and "i \<noteq> a"
  shows "h_items (put_list a (cs @ [i]) h) =
    change (hd cs) (\<lambda>x. x\<lparr>i_prev := Some i\<rparr>)
     (change i (\<lambda>x. x\<lparr>i_prev := Some (last cs)\<rparr>) (change (last cs) (\<lambda>x. x\<lparr>i_next := Some i\<rparr>) (h_items h)))"
  (is "?l = ?r")
proof
  fix b
  have d: "distinct (cs @ i # [])" and out: "a \<notin> set cs" using assms(1,4) by (auto simp: children_def)
  have inset: "last cs \<in> set cs" "hd cs \<in> set cs" using assms(2) by auto
  consider "b = a" | "b = i" | "b \<noteq> a" "b \<noteq> i" "b \<notin> set cs" | "b \<in> set cs" "b \<noteq> a" "b \<noteq> i" by blast
  then show "?l b = ?r b"
  proof cases
    case 1
    then show ?thesis using assms out inset by (auto simp: change_apply put_list_def children_def)
  next
    case 2
    then show ?thesis using assms inset next_in_insert[OF d, of i] prev_in_insert[OF d, of i]
      by (auto simp: change_apply put_list_def relink_def loose_def)
  next
    case 3
    then show ?thesis using inset by (auto simp: change_apply put_list_def relink_def)
  next
    case 4
    then obtain v where v: "h_items h b = Some v" "i_next v = next_in cs b" "i_prev v = prev_in cs b"
      using children_member[OF assms(1), of b] by auto
    have "?l b = Some (v\<lparr>i_next := if b = last cs then Some i else i_next v, i_prev := if b = hd cs then Some i else i_prev v\<rparr>)"
      using 4 v assms(2) next_in_insert[OF d, of b] prev_in_insert[OF d, of b] by (auto simp: put_list_def relink_def)
    then show ?thesis using 4 v(1) by (cases "b = last cs"; cases "b = hd cs") (auto simp: change_apply)
  qed
qed

lemma add_item_to_array_list:
  assumes "children h a cs" and "loose i h" and "i \<notin> set cs" and "i \<noteq> a"
  shows "add_item_to_array (Some a) (Some i) h = Some (True, put_list a (cs @ [i]) h)"
proof (cases "cs = []")
  case True
  then show ?thesis using assms
    by (auto simp: add_item_to_array_def children_def loose_def upd_def put_list_def relink_def fun_eq_iff prev_in_first intro!: heap_eqI)
next
  case False
  have inset: "last cs \<in> set cs" "hd cs \<in> set cs" using False by auto
  obtain x where x: "h_items h a = Some x" "i_child x = Some (hd cs)" using assms(1) False by (auto simp: children_def first_Some)
  obtain y where y: "h_items h (hd cs) = Some y" "i_prev y = Some (last cs)"
    using children_member[OF assms(1) inset(2)] prev_in_start[OF False, of "[]"] by auto
  obtain z where z: "h_items h (last cs) = Some z" using children_member[OF assms(1) inset(1)] by auto
  have out: "a \<noteq> last cs" "a \<noteq> hd cs" "i \<noteq> last cs" "i \<noteq> hd cs" using assms inset by (auto simp: children_def)
  have "add_item_to_array (Some a) (Some i) h = Some (True, h\<lparr>h_items := h_items (put_list a (cs @ [i]) h)\<rparr>)"
    unfolding append_items[OF assms(1) False assms(2-4)] using x y z out assms(2,4)
    by (auto simp: add_item_to_array_def suffix_object_def upd_change change_apply loose_def)
  then show ?thesis by (simp add: put_list_def)
qed

lemma detach_items:
  assumes "children h a (us @ i # vs)"
  shows "h_items (unlink i (put_list a (us @ vs) h)) =
    change i (\<lambda>x. x\<lparr>i_prev := None, i_next := None\<rparr>)
     ((if us = [] then change a (\<lambda>x. x\<lparr>i_child := first vs\<rparr>)
       else if vs = [] then change (hd us) (\<lambda>x. x\<lparr>i_prev := Some (last us)\<rparr>) else (\<lambda>m. m))
      ((if vs \<noteq> [] then change (hd vs) (\<lambda>x. x\<lparr>i_prev := Some (if us \<noteq> [] then last us else last vs)\<rparr>) else (\<lambda>m. m))
       ((if us \<noteq> [] then change (last us) (\<lambda>x. x\<lparr>i_next := first vs\<rparr>) else (\<lambda>m. m)) (h_items h))))"
  (is "?l = ?r")
proof
  fix b
  have d: "distinct (us @ i # vs)" "distinct (us @ vs)" using assms by (auto simp: children_def)
  note out = childrenD(1-5)[OF assms]
  have inset: "us \<noteq> [] \<Longrightarrow> last us \<in> set us \<and> hd us \<in> set us" "vs \<noteq> [] \<Longrightarrow> hd vs \<in> set vs" by auto
  consider "b = a" | "b = i" | "b \<noteq> a" "b \<noteq> i" "b \<notin> set (us @ vs)" | "b \<in> set (us @ vs)" "b \<noteq> a" "b \<noteq> i" by blast
  then show "?l b = ?r b"
  proof cases
    case 1
    then show ?thesis using childrenD(7)[OF assms] out inset
      by (cases "us = []"; cases "vs = []") (auto simp: change_apply unlink_def put_list_def)
  next
    case 2
    then show ?thesis using childrenD(8)[OF assms] out inset
      by (cases "us = []"; cases "vs = []") (auto simp: change_apply unlink_def put_list_def relink_def)
  next
    case 3
    then show ?thesis using inset
      by (cases "us = []"; cases "vs = []") (auto simp: change_apply unlink_def put_list_def relink_def)
  next
    case 4
    then obtain v where v: "h_items h b = Some v" "i_next v = next_in (us @ i # vs) b" "i_prev v = prev_in (us @ i # vs) b"
      using children_member[OF assms, of b] by auto
    have l: "?l b = Some (v\<lparr>i_next := next_in (us @ vs) b, i_prev := prev_in (us @ vs) b\<rparr>)"
      using 4 v by (auto simp: unlink_def put_list_def relink_def)
    have v': "i_next v = (if us \<noteq> [] \<and> b = last us then Some i else next_in (us @ vs) b)"
      "i_prev v = (if vs \<noteq> [] \<and> b = hd vs then Some i else if us \<noteq> [] \<and> vs = [] \<and> b = hd us then Some i else prev_in (us @ vs) b)"
      using v(2,3) 4(3) next_in_insert[OF d(1), of b] prev_in_insert[OF d(1), of b] by auto
    show ?thesis unfolding l using 4 v(1) v' ends_differ[OF d(2)] next_in_last[OF d(2)] prev_in_hd[OF d(2)] prev_in_start[of us vs]
      by (cases "us = []"; cases "vs = []"; cases "b = last us"; cases "b = hd vs"; cases "b = hd us") (auto simp: change_apply)
  qed
qed

lemma detach_list:
  assumes "children h a (us @ i # vs)"
  shows "cJSON_DetachItemViaPointer (Some a) (Some i) h = Some (Some i, unlink i (put_list a (us @ vs) h))"
proof -
  note out = childrenD(1-6)[OF assms]
  obtain x where x: "h_items h a = Some x" "i_child x = (if us = [] then Some i else first us)" using childrenD(7)[OF assms] by blast
  obtain y where y: "h_items h i = Some y" "i_next y = first vs"
      "i_prev y = Some (if us \<noteq> [] then last us else if vs \<noteq> [] then last vs else i)" using childrenD(8)[OF assms] by blast
  note ar = children_around[of h a us "i # vs", OF assms] children_around[of h a "us @ [i]" vs, simplified, OF assms]
  have "cJSON_DetachItemViaPointer (Some a) (Some i) h = Some (Some i, h\<lparr>h_items := h_items (unlink i (put_list a (us @ vs) h))\<rparr>)"
    unfolding detach_items[OF assms] using x y out ar
    by (cases "us = []"; cases "vs = []")
      (auto simp: cJSON_DetachItemViaPointer_def upd_change change_apply first_Some change_def fun_eq_iff)
  moreover have "h\<lparr>h_items := h_items (unlink i (put_list a (us @ vs) h))\<rparr> = unlink i (put_list a (us @ vs) h)"
    by (simp add: unlink_def put_list_def)
  ultimately show ?thesis by simp
qed

lemma insert_items:
  assumes "children h a (us @ vs)" and "vs \<noteq> []" and "h_items h i \<noteq> None" and "i \<notin> set (us @ vs)" and "i \<noteq> a"
  shows "h_items (put_list a (us @ i # vs) h) =
    (if us = [] then change a (\<lambda>x. x\<lparr>i_child := Some i\<rparr>) else change (last us) (\<lambda>x. x\<lparr>i_next := Some i\<rparr>))
     (change (hd vs) (\<lambda>x. x\<lparr>i_prev := Some i\<rparr>)
      (change i (\<lambda>x. x\<lparr>i_next := Some (hd vs), i_prev := Some (if us = [] then last vs else last us)\<rparr>) (h_items h)))"
  (is "?l = ?r")
proof
  fix b
  have d: "distinct (us @ i # vs)" "distinct (us @ vs)" and out: "a \<notin> set (us @ vs)" using assms(1,4) by (auto simp: children_def)
  have inset: "us \<noteq> [] \<Longrightarrow> last us \<in> set us" "hd vs \<in> set vs" using assms(2) by auto
  consider "b = a" | "b = i" | "b \<noteq> a" "b \<noteq> i" "b \<notin> set (us @ vs)" | "b \<in> set (us @ vs)" "b \<noteq> a" "b \<noteq> i" by blast
  then show "?l b = ?r b"
  proof cases
    case 1
    then show ?thesis using assms out inset by (cases "us = []") (auto simp: change_apply put_list_def children_def)
  next
    case 2
    then show ?thesis using assms(2-5) inset next_in_insert[OF d(1), of i] prev_in_insert[OF d(1), of i]
      by (cases "us = []") (auto simp: change_apply put_list_def relink_def first_Some)
  next
    case 3
    then show ?thesis using inset by (cases "us = []") (auto simp: change_apply put_list_def relink_def)
  next
    case 4
    then obtain v where v: "h_items h b = Some v" "i_next v = next_in (us @ vs) b" "i_prev v = prev_in (us @ vs) b"
      using children_member[OF assms(1), of b] by auto
    have "?l b = Some (v\<lparr>i_next := if us \<noteq> [] \<and> b = last us then Some i else i_next v, i_prev := if b = hd vs then Some i else i_prev v\<rparr>)"
      using 4 v assms(2) next_in_insert[OF d(1), of b] prev_in_insert[OF d(1), of b] by (auto simp: put_list_def relink_def)
    then show ?thesis using 4 v(1) assms(2) ends_differ[OF d(2)]
      by (cases "us = []"; cases "b = last us"; cases "b = hd vs") (auto simp: change_apply)
  qed
qed

lemma insert_list:
  assumes "children h a (us @ vs)" and "vs \<noteq> []" and "h_items h i \<noteq> None" and "i \<notin> set (us @ vs)" and "i \<noteq> a"
  shows "cJSON_InsertItemInArray (Some a) (int (length us)) (Some i) h = Some (True, put_list a (us @ i # vs) h)"
proof -
  have get: "get_array_item (Some a) (length us) h = Some (Some (hd vs))"
    using get_array_item_list[OF assms(1)] assms(2) by (simp add: nth_append hd_conv_nth)
  have d: "distinct (us @ vs)" and out: "a \<notin> set (us @ vs)" using assms(1) by (auto simp: children_def)
  obtain x where x: "h_items h a = Some x" "i_child x = first (us @ vs)" using assms(1) by (auto simp: children_def)
  obtain y where y: "h_items h (hd vs) = Some y" "i_prev y = Some (if us = [] then last vs else last us)"
    using children_member[OF assms(1), of "hd vs"] prev_in_hd[OF d assms(2)] assms(2) by auto
  note ar = children_around[OF assms(1)]
  have neq: "hd vs \<noteq> i" "us \<noteq> [] \<Longrightarrow> last us \<noteq> i" using assms(2,4) by (auto dest: hd_in_set last_in_set)
  have "us \<noteq> [] \<Longrightarrow> Some (hd us) \<noteq> Some (hd vs)" using ends_differ[OF d] assms(2) by auto
  then have "cJSON_InsertItemInArray (Some a) (int (length us)) (Some i) h = Some (True, h\<lparr>h_items := h_items (put_list a (us @ i # vs) h)\<rparr>)"
    unfolding insert_items[OF assms] using x y get ar assms(2,3,5) neq
    by (cases "us = []") (auto simp: cJSON_InsertItemInArray_def upd_change change_apply first_Some change_def fun_eq_iff)
  then show ?thesis by (simp add: put_list_def)
qed

lemma replace_items:
  assumes "children h a (us @ i # vs)" and "h_items h r \<noteq> None" and "r \<notin> set (us @ i # vs)" and "r \<noteq> a"
  shows "h_items (unlink i (put_list a (us @ r # vs) h)) =
    change i (\<lambda>x. x\<lparr>i_next := None, i_prev := None\<rparr>)
     ((if us = [] then change a (\<lambda>x. x\<lparr>i_child := Some r\<rparr>)
       else (\<lambda>m. (if vs = [] then change (hd us) (\<lambda>x. x\<lparr>i_prev := Some r\<rparr>) else (\<lambda>m. m)) (change (last us) (\<lambda>x. x\<lparr>i_next := Some r\<rparr>) m)))
      ((if vs \<noteq> [] then change (hd vs) (\<lambda>x. x\<lparr>i_prev := Some r\<rparr>) else (\<lambda>m. m))
       (change r (\<lambda>x. x\<lparr>i_next := first vs, i_prev := Some (if us \<noteq> [] then last us else if vs \<noteq> [] then last vs else r)\<rparr>) (h_items h))))"
  (is "?l = ?r")
proof
  fix b
  have d: "distinct (us @ i # vs)" "distinct (us @ r # vs)" "distinct (us @ vs)" using assms(1,3) by (auto simp: children_def)
  note out = childrenD(1-5)[OF assms(1)]
  have inset: "us \<noteq> [] \<Longrightarrow> last us \<in> set us \<and> hd us \<in> set us" "vs \<noteq> [] \<Longrightarrow> hd vs \<in> set vs" by auto
  consider "b = a" | "b = i" | "b = r" | "b \<noteq> a" "b \<noteq> i" "b \<noteq> r" "b \<notin> set (us @ vs)" | "b \<in> set (us @ vs)" "b \<noteq> a" "b \<noteq> i" "b \<noteq> r" by blast
  then show "?l b = ?r b"
  proof cases
    case 1
    then show ?thesis using childrenD(7)[OF assms(1)] assms(3,4) out inset
      by (cases "us = []"; cases "vs = []") (auto simp: change_apply unlink_def put_list_def)
  next
    case 2
    then show ?thesis using childrenD(8)[OF assms(1)] assms(3) out inset
      by (cases "us = []"; cases "vs = []") (auto simp: change_apply unlink_def put_list_def relink_def)
  next
    case 3
    then show ?thesis using assms(2-4) inset next_in_insert[OF d(2), of r] prev_in_insert[OF d(2), of r]
      by (cases "us = []"; cases "vs = []") (auto simp: change_apply unlink_def put_list_def relink_def)
  next
    case 4
    then show ?thesis using inset
      by (cases "us = []"; cases "vs = []") (auto simp: change_apply unlink_def put_list_def relink_def)
  next
    case 5
    then obtain v where v: "h_items h b = Some v" "i_next v = next_in (us @ i # vs) b" "i_prev v = prev_in (us @ i # vs) b"
      using children_member[OF assms(1), of b] by auto
    have l: "?l b = Some (v\<lparr>i_next := next_in (us @ r # vs) b, i_prev := prev_in (us @ r # vs) b\<rparr>)"
      using 5 v by (auto simp: unlink_def put_list_def relink_def)
    show ?thesis unfolding l using 5 v ends_differ[OF d(3)] next_in_insert[OF d(1), of b] prev_in_insert[OF d(1), of b]
        next_in_insert[OF d(2), of b] prev_in_insert[OF d(2), of b]
      by (cases "us = []"; cases "vs = []"; cases "b = last us"; cases "b = hd vs"; cases "b = hd us") (auto simp: change_apply)
  qed
qed

lemma replace_list:
  assumes "children h a (us @ i # vs)" and "h_items h r \<noteq> None" and "r \<notin> set (us @ i # vs)" and "r \<noteq> a"
  shows "cJSON_ReplaceItemViaPointer (Some a) (Some i) (Some r) h =
    do { h' \<leftarrow> cJSON_Delete (Some i) (unlink i (put_list a (us @ r # vs) h)); Some (True, h') }"
proof -
  note out = childrenD(1-6)[OF assms(1)]
  obtain x where x: "h_items h a = Some x" "i_child x = (if us = [] then Some i else first us)" using childrenD(7)[OF assms(1)] by blast
  obtain y where y: "h_items h i = Some y" "i_next y = first vs"
      "i_prev y = Some (if us \<noteq> [] then last us else if vs \<noteq> [] then last vs else i)" using childrenD(8)[OF assms(1)] by blast
  note ar = children_around[of h a us "i # vs", OF assms(1)] children_around[of h a "us @ [i]" vs, simplified, OF assms(1)]
  have neq: "us \<noteq> [] \<Longrightarrow> hd us \<noteq> r \<and> last us \<noteq> r" "vs \<noteq> [] \<Longrightarrow> hd vs \<noteq> r \<and> hd vs \<noteq> i \<and> last vs \<noteq> i"
    "us \<noteq> [] \<Longrightarrow> hd us \<noteq> i \<and> last us \<noteq> i"
    using assms(3) out by (auto dest: hd_in_set last_in_set)
  have h: "h\<lparr>h_items := h_items (unlink i (put_list a (us @ r # vs) h))\<rparr> = unlink i (put_list a (us @ r # vs) h)"
    by (simp add: unlink_def put_list_def)
  have "cJSON_ReplaceItemViaPointer (Some a) (Some i) (Some r) h =
    do { h' \<leftarrow> cJSON_Delete (Some i) (h\<lparr>h_items := h_items (unlink i (put_list a (us @ r # vs) h))\<rparr>); Some (True, h') }"
    unfolding replace_items[OF assms] using x y out ar assms(2-4) neq
    by (cases "us = []"; cases "vs = []")
      (auto simp: cJSON_ReplaceItemViaPointer_def upd_change change_apply first_Some change_def fun_upd_twist)
  then show ?thesis unfolding h .
qed

end
