(* ===== verification/Cjson_Own.thy ===== *)
theory Cjson_Own
  imports Cjson_Heap
begin

text \<open>
  Ownership of items and texts: the blocks that a list of items owns, which are the items below them and the
  texts of those, except for what is reached through a reference or is a constant name.
  \<^verbatim>\<open>cJSON_Delete\<close> frees exactly the blocks that the list owns, each of them once.
\<close>

section \<open>Trees in the heap\<close>

text \<open>An item with its address and the trees of its children. A reference owns no children.\<close>

datatype htree = HT (ht_addr: addr) (ht_item: item) (ht_kids: "htree list")

definition own_texts :: "item \<Rightarrow> addr list" where
  "own_texts x =
     (case i_valuestring x of Some s \<Rightarrow> if i_IsReference x then [] else [s] | None \<Rightarrow> []) @
     (case i_string x of Some s \<Rightarrow> if i_StringIsConst x then [] else [s] | None \<Rightarrow> [])"

primrec item_addrs :: "htree \<Rightarrow> addr list" where
  "item_addrs (HT a x ts) = a # concat (map item_addrs ts)"

primrec text_addrs :: "htree \<Rightarrow> addr list" where
  "text_addrs (HT a x ts) = own_texts x @ concat (map text_addrs ts)"

abbreviation items_of :: "htree list \<Rightarrow> addr list" where "items_of ts \<equiv> concat (map item_addrs ts)"
abbreviation texts_of :: "htree list \<Rightarrow> addr list" where "texts_of ts \<equiv> concat (map text_addrs ts)"

text \<open>The pointers to the neighbours are left out of the item of a tree; \<open>chained\<close> is about them.\<close>

definition strip :: "item \<Rightarrow> item" where
  "strip x = x\<lparr>i_next := None, i_prev := None\<rparr>"

fun chained :: "heap_t \<Rightarrow> addr list \<Rightarrow> bool" where
  "chained h [] \<longleftrightarrow> True"
| "chained h (c # cs) \<longleftrightarrow> (\<exists>y. h_items h c = Some y \<and> i_next y = first cs) \<and> chained h cs"

primrec holds :: "heap_t \<Rightarrow> htree \<Rightarrow> bool" where
  "holds h (HT a x ts) \<longleftrightarrow> map_option strip (h_items h a) = Some x \<and> (\<forall>s \<in> set (own_texts x). h_texts h s \<noteq> None) \<and>
     (if i_IsReference x then ts = [] else i_child x = first (map ht_addr ts)) \<and> chained h (map ht_addr ts) \<and> list_all (holds h) ts"

definition owned :: "heap_t \<Rightarrow> htree list \<Rightarrow> bool" where
  "owned h ts \<longleftrightarrow> chained h (map ht_addr ts) \<and> list_all (holds h) ts \<and> distinct (items_of ts) \<and> distinct (texts_of ts)"

definition without :: "addr set \<Rightarrow> addr set \<Rightarrow> heap_t \<Rightarrow> heap_t" where
  "without I T h = h\<lparr>h_items := h_items h |` (- I), h_texts := h_texts h |` (- T)\<rparr>"

section \<open>Lemmas\<close>

lemma without_simps [simp]:
  "h_items (without I T h) a = (if a \<in> I then None else h_items h a)"
  "h_texts (without I T h) s = (if s \<in> T then None else h_texts h s)"
  "h_next (without I T h) = h_next h" "h_allocs (without I T h) = h_allocs h"
  by (simp_all add: without_def restrict_map_def)

lemma without_empty [simp]: "without {} {} h = h"
  by (rule heap_eqI) (auto simp: fun_eq_iff)

lemma without_without [simp]: "without I T (without J U h) = without (I \<union> J) (T \<union> U) h"
  by (rule heap_eqI) (auto simp: fun_eq_iff)

lemma strip_simps [simp]:
  "i_child (strip x) = i_child x" "i_kind (strip x) = i_kind x" "i_IsReference (strip x) = i_IsReference x"
  "i_StringIsConst (strip x) = i_StringIsConst x" "i_valuestring (strip x) = i_valuestring x" "i_valueint (strip x) = i_valueint x"
  "i_valuedouble (strip x) = i_valuedouble x" "i_string (strip x) = i_string x" "i_next (strip x) = None" "i_prev (strip x) = None"
  "own_texts (strip x) = own_texts x" "strip (strip x) = strip x"
  by (simp_all add: strip_def own_texts_def split: option.split)

lemma ht_addr_in: "ht_addr t \<in> set (item_addrs t)"
  by (cases t) simp

lemma chained_cong: "chained h cs \<Longrightarrow> \<forall>c \<in> set cs. h_items h' c = h_items h c \<Longrightarrow> chained h' cs"
  by (induction cs) auto

lemma holds_cong:
  "holds h t \<Longrightarrow> \<forall>a \<in> set (item_addrs t). h_items h' a = h_items h a \<Longrightarrow> \<forall>s \<in> set (text_addrs t). h_texts h' s = h_texts h s \<Longrightarrow> holds h' t"
proof (induction t)
  case (HT a x ts)
  have "list_all (holds h') ts" unfolding list_all_iff
  proof
    fix t assume t: "t \<in> set ts"
    show "holds h' t" using HT.IH[OF t] HT.prems t by (fastforce simp: list_all_iff)
  qed
  moreover have "chained h' (map ht_addr ts)"
    by (rule chained_cong[of h]) (use HT.prems ht_addr_in in fastforce)+
  ultimately show ?case using HT.prems by auto
qed

lemma owned_cong:
  assumes "owned h ts" and "\<forall>a \<in> set (items_of ts). h_items h' a = h_items h a" and "\<forall>s \<in> set (texts_of ts). h_texts h' s = h_texts h s"
  shows "owned h' ts"
proof -
  have "holds h' t" if "t \<in> set ts" for t
    using assms that holds_cong[of h t h'] by (fastforce simp: owned_def list_all_iff)
  moreover have "chained h' (map ht_addr ts)"
    by (rule chained_cong[of h]) (use assms ht_addr_in in \<open>fastforce simp: owned_def\<close>)+
  ultimately show ?thesis using assms(1) by (simp add: owned_def list_all_iff)
qed

lemma owned_without:
  assumes "owned h ts" and "set (items_of ts) \<inter> I = {}" and "set (texts_of ts) \<inter> T = {}"
  shows "owned (without I T h) ts"
  by (rule owned_cong[OF assms(1)]) (use assms(2,3) in auto)

lemma owned_Cons:
  "owned h (HT a x ks # ts) \<longleftrightarrow> (\<exists>y. h_items h a = Some y \<and> strip y = x \<and> i_next y = first (map ht_addr ts)) \<and>
     (\<forall>s \<in> set (own_texts x). h_texts h s \<noteq> None) \<and>
     (if i_IsReference x then ks = [] else i_child x = first (map ht_addr ks)) \<and>
     owned h ks \<and> owned h ts \<and> a \<notin> set (items_of ks) \<and> a \<notin> set (items_of ts) \<and> set (items_of ks) \<inter> set (items_of ts) = {} \<and>
     distinct (own_texts x) \<and> set (own_texts x) \<inter> set (texts_of ks) = {} \<and> set (own_texts x) \<inter> set (texts_of ts) = {} \<and>
     set (texts_of ks) \<inter> set (texts_of ts) = {}"
  by (auto simp: owned_def)

text \<open>What the loop body does behind the recursive call.\<close>

lemma delete_texts:
  assumes "h_items h a = Some x" and "\<forall>s \<in> set (own_texts x). h_texts h s \<noteq> None" and "distinct (own_texts x)"
  shows "do { x \<leftarrow> h_items h a;
      h \<leftarrow> (case i_valuestring x of
             Some s \<Rightarrow> if \<not> i_IsReference x then do { h \<leftarrow> free_text s h; upd a (\<lambda>x. x\<lparr>i_valuestring := None\<rparr>) h } else Some h
           | None \<Rightarrow> Some h);
      x \<leftarrow> h_items h a;
      h \<leftarrow> (case i_string x of
             Some s \<Rightarrow> if \<not> i_StringIsConst x then do { h \<leftarrow> free_text s h; upd a (\<lambda>x. x\<lparr>i_string := None\<rparr>) h } else Some h
           | None \<Rightarrow> Some h);
      h \<leftarrow> free_item a h;
      k h } = k (without {a} (set (own_texts x)) h)"
proof -
  have "free_text s h = Some (h\<lparr>h_texts := (h_texts h)(s := None)\<rparr>)" if "h_texts h s \<noteq> None" for h s
    using that by (auto simp: free_text_def)
  then show ?thesis using assms
    by (cases "i_valuestring x"; cases "i_string x"; cases "i_IsReference x"; cases "i_StringIsConst x")
      (auto simp: own_texts_def upd_def free_item_def without_def fun_eq_iff restrict_map_def intro!: arg_cong[of _ _ k])
qed

theorem delete_owned:
  "owned h ts \<Longrightarrow> cJSON_Delete (first (map ht_addr ts)) h = Some (without (set (items_of ts)) (set (texts_of ts)) h)"
proof (induction "size_list size ts" arbitrary: ts h rule: less_induct)
  case less
  show ?case
  proof (cases ts)
    case Nil
    then show ?thesis by (simp add: cJSON_Delete.simps)
  next
    case (Cons t us)
    obtain a x' ks where t: "t = HT a x' ks" by (cases t)
    note own' = less.prems[unfolded Cons t owned_Cons]
    then obtain x where x: "h_items h a = Some x" "strip x = x'" "i_next x = first (map ht_addr us)" by blast
    note own = own'[folded x(2), simplified]
    have small: "size_list size ks < size_list size ts" "size_list size us < size_list size ts" by (simp_all add: Cons t)
    define h1 where "h1 = without (set (items_of ks)) (set (texts_of ks)) h"
    have kids: "(if \<not> i_IsReference x \<and> i_child x \<noteq> None then cJSON_Delete (i_child x) h else Some h) = Some h1"
      using less.hyps[OF small(1), of h] own by (auto simp: h1_def split: if_splits)
    have x1: "h_items h1 a = Some x" "\<forall>s \<in> set (own_texts x). h_texts h1 s \<noteq> None" "distinct (own_texts x)"
      using own x(1) by (auto simp: h1_def)
    define h2 where "h2 = without {a} (set (own_texts x)) h1"
    have "owned h2 us" unfolding h2_def h1_def without_without using own by (intro owned_without) auto
    then have rest: "cJSON_Delete (first (map ht_addr us)) h2 = Some (without (set (items_of us)) (set (texts_of us)) h2)"
      by (rule less.hyps[OF small(2)])
    note a = x(1,3)
    have "cJSON_Delete (Some a) h = Some (without (set (items_of us)) (set (texts_of us)) h2)"
      by (subst cJSON_Delete.simps) (simp only: option.case bind.bind_lunit a Let_def kids delete_texts[OF x1] rest flip: h2_def)
    then show ?thesis unfolding Cons t h2_def h1_def by (simp add: Un_ac flip: x(2))
  qed
qed

end
