(* ===== verification/Cjson_Build.thy ===== *)
theory Cjson_Build
  imports Cjson_Own
begin

text \<open>
  Building of trees in \<^verbatim>\<open>extern/cJSON/cJSON.c\<close>: new items, arrays from C arrays, new members of objects,
  references, and copies. Every function ends in a heap that has what it returns and nothing else that is
  new.
\<close>

section \<open>New items\<close>

definition create_item :: "(item \<Rightarrow> item) \<Rightarrow> heap_t \<Rightarrow> (addr option \<times> heap_t) option" where
  "create_item f h =
     (case cJSON_New_Item h of
        (None, h) \<Rightarrow> Some (None, h)
      | (Some a, h) \<Rightarrow> do { h \<leftarrow> upd a f h; Some (Some a, h) })"

definition cJSON_CreateNull :: "heap_t \<Rightarrow> (addr option \<times> heap_t) option" where
  "cJSON_CreateNull = create_item (\<lambda>x. x\<lparr>i_kind := K_NULL\<rparr>)"

definition cJSON_CreateTrue :: "heap_t \<Rightarrow> (addr option \<times> heap_t) option" where
  "cJSON_CreateTrue = create_item (\<lambda>x. x\<lparr>i_kind := K_True\<rparr>)"

definition cJSON_CreateFalse :: "heap_t \<Rightarrow> (addr option \<times> heap_t) option" where
  "cJSON_CreateFalse = create_item (\<lambda>x. x\<lparr>i_kind := K_False\<rparr>)"

definition cJSON_CreateBool :: "bool \<Rightarrow> heap_t \<Rightarrow> (addr option \<times> heap_t) option" where
  "cJSON_CreateBool boolean = create_item (\<lambda>x. x\<lparr>i_kind := if boolean then K_True else K_False\<rparr>)"

definition cJSON_CreateNumber :: "double \<Rightarrow> heap_t \<Rightarrow> (addr option \<times> heap_t) option" where
  "cJSON_CreateNumber num = create_item (\<lambda>x. x\<lparr>i_kind := K_Number, i_valuedouble := num, i_valueint := saturate_int num\<rparr>)"

definition cJSON_CreateArray :: "heap_t \<Rightarrow> (addr option \<times> heap_t) option" where
  "cJSON_CreateArray = create_item (\<lambda>x. x\<lparr>i_kind := K_Array\<rparr>)"

definition cJSON_CreateObject :: "heap_t \<Rightarrow> (addr option \<times> heap_t) option" where
  "cJSON_CreateObject = create_item (\<lambda>x. x\<lparr>i_kind := K_Object\<rparr>)"

text \<open>\<^verbatim>\<open>cJSON_CreateString\<close> and \<^verbatim>\<open>cJSON_CreateRaw\<close> differ in the type only.\<close>

definition create_text :: "kind \<Rightarrow> addr option \<Rightarrow> heap_t \<Rightarrow> (addr option \<times> heap_t) option" where
  "create_text k string h =
     (case cJSON_New_Item h of
        (None, h) \<Rightarrow> Some (None, h)
      | (Some a, h) \<Rightarrow> do {
          h \<leftarrow> upd a (\<lambda>x. x\<lparr>i_kind := k\<rparr>) h;
          (copy, h) \<leftarrow> cJSON_strdup string h;
          h \<leftarrow> upd a (\<lambda>x. x\<lparr>i_valuestring := copy\<rparr>) h;
          if copy = None then do { h \<leftarrow> cJSON_Delete (Some a) h; Some (None, h) } else Some (Some a, h) })"

definition cJSON_CreateString :: "addr option \<Rightarrow> heap_t \<Rightarrow> (addr option \<times> heap_t) option" where
  "cJSON_CreateString string h = create_text K_String string h"

definition cJSON_CreateRaw :: "addr option \<Rightarrow> heap_t \<Rightarrow> (addr option \<times> heap_t) option" where
  "cJSON_CreateRaw raw h = create_text K_Raw raw h"

definition cJSON_CreateStringReference :: "addr option \<Rightarrow> heap_t \<Rightarrow> (addr option \<times> heap_t) option" where
  "cJSON_CreateStringReference string = create_item (\<lambda>x. x\<lparr>i_kind := K_String, i_IsReference := True, i_valuestring := string\<rparr>)"

definition cJSON_CreateObjectReference :: "addr option \<Rightarrow> heap_t \<Rightarrow> (addr option \<times> heap_t) option" where
  "cJSON_CreateObjectReference c = create_item (\<lambda>x. x\<lparr>i_kind := K_Object, i_IsReference := True, i_child := c\<rparr>)"

definition cJSON_CreateArrayReference :: "addr option \<Rightarrow> heap_t \<Rightarrow> (addr option \<times> heap_t) option" where
  "cJSON_CreateArrayReference c = create_item (\<lambda>x. x\<lparr>i_kind := K_Array, i_IsReference := True, i_child := c\<rparr>)"

section \<open>Arrays of C arrays\<close>

text \<open>\<open>p\<close> is the item that was linked last; the loop links the next one behind it, or as the first child.\<close>

definition link_child :: "addr \<Rightarrow> addr option \<Rightarrow> addr \<Rightarrow> heap_t \<Rightarrow> heap_t option" where
  "link_child a p n h = (case p of None \<Rightarrow> put_child a (Some n) h | Some q \<Rightarrow> suffix_object q n h)"

text \<open>Behind the loop the first child gets its pointer to the last one.\<close>

definition close_list :: "addr \<Rightarrow> addr option \<Rightarrow> heap_t \<Rightarrow> heap_t option" where
  "close_list a n h = do { x \<leftarrow> h_items h a; case i_child x of Some c \<Rightarrow> put_prev c n h | None \<Rightarrow> Some h }"

text \<open>An element that is read beyond the end of the C array is \<open>None\<close>.\<close>

fun create_loop ::
    "('n \<Rightarrow> heap_t \<Rightarrow> (addr option \<times> heap_t) option) \<Rightarrow> addr \<Rightarrow> addr option \<Rightarrow> 'n option list \<Rightarrow> heap_t \<Rightarrow> (addr option \<times> heap_t) option" where
  "create_loop create a p [] h = do { h \<leftarrow> close_list a p h; Some (Some a, h) }"
| "create_loop create a p (v # vs) h = do {
     v \<leftarrow> v;
     (n, h) \<leftarrow> create v h;
     case n of
       None \<Rightarrow> do { h \<leftarrow> cJSON_Delete (Some a) h; Some (None, h) }
     | Some n \<Rightarrow> do { h \<leftarrow> link_child a p n h; create_loop create a (Some n) vs h } }"

definition create_array ::
    "('n \<Rightarrow> heap_t \<Rightarrow> (addr option \<times> heap_t) option) \<Rightarrow> 'n list option \<Rightarrow> int \<Rightarrow> heap_t \<Rightarrow> (addr option \<times> heap_t) option" where
  "create_array create numbers len h =
     (case numbers of
        None \<Rightarrow> Some (None, h)
      | Some ns \<Rightarrow>
          if len < 0 then Some (None, h)
          else do {
            (a, h) \<leftarrow> cJSON_CreateArray h;
            case a of
              None \<Rightarrow> Some (None, h)
            | Some a \<Rightarrow> create_loop create a None (map (\<lambda>i. if i < length ns then Some (ns ! i) else None) [0..<nat len]) h })"

definition cJSON_CreateIntArray :: "int list option \<Rightarrow> int \<Rightarrow> heap_t \<Rightarrow> (addr option \<times> heap_t) option" where
  "cJSON_CreateIntArray = create_array (\<lambda>n. cJSON_CreateNumber (Finite (of_int n)))"

text \<open>A \<^verbatim>\<open>float\<close> is a double.\<close>

definition cJSON_CreateFloatArray :: "double list option \<Rightarrow> int \<Rightarrow> heap_t \<Rightarrow> (addr option \<times> heap_t) option" where
  "cJSON_CreateFloatArray = create_array cJSON_CreateNumber"

definition cJSON_CreateDoubleArray :: "double list option \<Rightarrow> int \<Rightarrow> heap_t \<Rightarrow> (addr option \<times> heap_t) option" where
  "cJSON_CreateDoubleArray = create_array cJSON_CreateNumber"

definition cJSON_CreateStringArray :: "addr option list option \<Rightarrow> int \<Rightarrow> heap_t \<Rightarrow> (addr option \<times> heap_t) option" where
  "cJSON_CreateStringArray = create_array cJSON_CreateString"

section \<open>New members of objects\<close>

definition add_new :: "(heap_t \<Rightarrow> (addr option \<times> heap_t) option) \<Rightarrow> addr option \<Rightarrow> addr option \<Rightarrow> heap_t \<Rightarrow> (addr option \<times> heap_t) option" where
  "add_new create object name h = do {
     (it, h) \<leftarrow> create h;
     (ok, h) \<leftarrow> add_item_to_object object name it False h;
     if ok then Some (it, h) else do { h \<leftarrow> cJSON_Delete it h; Some (None, h) } }"

definition cJSON_AddNullToObject :: "addr option \<Rightarrow> addr option \<Rightarrow> heap_t \<Rightarrow> (addr option \<times> heap_t) option" where
  "cJSON_AddNullToObject = add_new cJSON_CreateNull"

definition cJSON_AddTrueToObject :: "addr option \<Rightarrow> addr option \<Rightarrow> heap_t \<Rightarrow> (addr option \<times> heap_t) option" where
  "cJSON_AddTrueToObject = add_new cJSON_CreateTrue"

definition cJSON_AddFalseToObject :: "addr option \<Rightarrow> addr option \<Rightarrow> heap_t \<Rightarrow> (addr option \<times> heap_t) option" where
  "cJSON_AddFalseToObject = add_new cJSON_CreateFalse"

definition cJSON_AddBoolToObject :: "addr option \<Rightarrow> addr option \<Rightarrow> bool \<Rightarrow> heap_t \<Rightarrow> (addr option \<times> heap_t) option" where
  "cJSON_AddBoolToObject object name boolean = add_new (cJSON_CreateBool boolean) object name"

definition cJSON_AddNumberToObject :: "addr option \<Rightarrow> addr option \<Rightarrow> double \<Rightarrow> heap_t \<Rightarrow> (addr option \<times> heap_t) option" where
  "cJSON_AddNumberToObject object name number = add_new (cJSON_CreateNumber number) object name"

definition cJSON_AddStringToObject :: "addr option \<Rightarrow> addr option \<Rightarrow> addr option \<Rightarrow> heap_t \<Rightarrow> (addr option \<times> heap_t) option" where
  "cJSON_AddStringToObject object name string = add_new (cJSON_CreateString string) object name"

definition cJSON_AddRawToObject :: "addr option \<Rightarrow> addr option \<Rightarrow> addr option \<Rightarrow> heap_t \<Rightarrow> (addr option \<times> heap_t) option" where
  "cJSON_AddRawToObject object name raw = add_new (cJSON_CreateRaw raw) object name"

definition cJSON_AddObjectToObject :: "addr option \<Rightarrow> addr option \<Rightarrow> heap_t \<Rightarrow> (addr option \<times> heap_t) option" where
  "cJSON_AddObjectToObject = add_new cJSON_CreateObject"

definition cJSON_AddArrayToObject :: "addr option \<Rightarrow> addr option \<Rightarrow> heap_t \<Rightarrow> (addr option \<times> heap_t) option" where
  "cJSON_AddArrayToObject = add_new cJSON_CreateArray"

section \<open>Changing values\<close>

text \<open>The result \<open>None\<close> stands for \<^verbatim>\<open>NAN\<close>.\<close>

definition cJSON_SetNumberHelper :: "addr option \<Rightarrow> double \<Rightarrow> heap_t \<Rightarrow> (double option \<times> heap_t) option" where
  "cJSON_SetNumberHelper object number h =
     (case object of
        None \<Rightarrow> Some (None, h)
      | Some a \<Rightarrow> do {
          h \<leftarrow> upd a (\<lambda>x. x\<lparr>i_valueint := saturate_int number, i_valuedouble := number\<rparr>) h;
          Some (Some number, h) })"

text \<open>Two texts overlap when they are the same block. A shorter text is written into the block that is there.\<close>

definition cJSON_SetValuestring :: "addr option \<Rightarrow> addr option \<Rightarrow> heap_t \<Rightarrow> (addr option \<times> heap_t) option" where
  "cJSON_SetValuestring object string h =
     (case object of
        None \<Rightarrow> Some (None, h)
      | Some a \<Rightarrow> do {
          x \<leftarrow> h_items h a;
          if i_kind x \<noteq> K_String \<or> i_IsReference x then Some (None, h)
          else case (i_valuestring x, string) of
            (Some old, Some new) \<Rightarrow> do {
              v1 \<leftarrow> h_texts h new;
              v2 \<leftarrow> h_texts h old;
              if length v1 \<le> length v2
              then if new = old then Some (None, h)
                   else Some (Some old, h\<lparr>h_texts := (h_texts h)(old \<mapsto> v1)\<rparr>)
              else do {
                (copy, h) \<leftarrow> cJSON_strdup (Some new) h;
                if copy = None then Some (None, h)
                else do {
                  h \<leftarrow> free_text old h;
                  h \<leftarrow> upd a (\<lambda>x. x\<lparr>i_valuestring := copy\<rparr>) h;
                  Some (copy, h) } } }
          | _ \<Rightarrow> Some (None, h) })"

section \<open>Copies\<close>

abbreviation (input) CJSON_CIRCULAR_LIMIT :: nat where "CJSON_CIRCULAR_LIMIT \<equiv> 10000"

text \<open>The loop over the children: \<open>rec\<close> copies a child, and is \<open>None\<close> at the depth limit. The result says whether all went
  well, and which item was linked last.\<close>

partial_function (option) dup_loop ::
    "(addr \<Rightarrow> heap_t \<Rightarrow> (addr option \<times> heap_t) option) option \<Rightarrow> addr \<Rightarrow> addr option \<Rightarrow> addr option \<Rightarrow> heap_t \<Rightarrow>
     (bool \<times> addr option \<times> heap_t) option" where
  "dup_loop rec newitem c next h =
     (case c of
        None \<Rightarrow> Some (True, next, h)
      | Some a \<Rightarrow>
          (case rec of
             None \<Rightarrow> Some (False, next, h)
           | Some f \<Rightarrow> do {
               (newchild, h) \<leftarrow> f a h;
               case newchild of
                 None \<Rightarrow> Some (False, next, h)
               | Some n \<Rightarrow> do {
                   h \<leftarrow> link_child newitem next n h;
                   x \<leftarrow> h_items h a;
                   dup_loop rec newitem (i_next x) (Some n) h } }))"

definition dup_fail :: "addr \<Rightarrow> heap_t \<Rightarrow> (addr option \<times> heap_t) option" where
  "dup_fail newitem h = do { h \<leftarrow> cJSON_Delete (Some newitem) h; Some (None, h) }"

definition dup_item ::
    "(addr \<Rightarrow> heap_t \<Rightarrow> (addr option \<times> heap_t) option) option \<Rightarrow> addr option \<Rightarrow> bool \<Rightarrow> heap_t \<Rightarrow> (addr option \<times> heap_t) option" where
  "dup_item rec it recurse h =
     (case it of
        None \<Rightarrow> Some (None, h)
      | Some a \<Rightarrow>
          (case cJSON_New_Item h of
             (None, h) \<Rightarrow> Some (None, h)
           | (Some b, h) \<Rightarrow> do {
               x \<leftarrow> h_items h a;
               h \<leftarrow> upd b (\<lambda>y. y\<lparr>i_kind := i_kind x, i_StringIsConst := i_StringIsConst x, i_IsReference := False,
                      i_valueint := i_valueint x, i_valuedouble := i_valuedouble x\<rparr>) h;
               (v, h) \<leftarrow> cJSON_strdup (i_valuestring x) h;
               h \<leftarrow> upd b (\<lambda>y. y\<lparr>i_valuestring := v\<rparr>) h;
               if i_valuestring x \<noteq> None \<and> v = None then dup_fail b h
               else do {
                 (s, h) \<leftarrow> (if i_StringIsConst x then Some (i_string x, h) else cJSON_strdup (i_string x) h);
                 h \<leftarrow> upd b (\<lambda>y. y\<lparr>i_string := s\<rparr>) h;
                 if i_string x \<noteq> None \<and> s = None then dup_fail b h
                 else if \<not> recurse then Some (Some b, h)
                 else do {
                   (ok, last, h) \<leftarrow> dup_loop rec b (i_child x) None h;
                   if \<not> ok then dup_fail b h
                   else do { h \<leftarrow> close_list b last h; Some (Some b, h) } } } }))"

text \<open>\<open>k\<close> is the number of levels that are left below the limit.\<close>

fun cJSON_Duplicate_rec :: "nat \<Rightarrow> addr option \<Rightarrow> bool \<Rightarrow> heap_t \<Rightarrow> (addr option \<times> heap_t) option" where
  "cJSON_Duplicate_rec 0 it recurse h = dup_item None it recurse h"
| "cJSON_Duplicate_rec (Suc k) it recurse h = dup_item (Some (\<lambda>a. cJSON_Duplicate_rec k (Some a) True)) it recurse h"

definition cJSON_Duplicate :: "addr option \<Rightarrow> bool \<Rightarrow> heap_t \<Rightarrow> (addr option \<times> heap_t) option" where
  "cJSON_Duplicate it recurse h = cJSON_Duplicate_rec CJSON_CIRCULAR_LIMIT it recurse h"

section \<open>Lists under construction\<close>

text \<open>The first child has no previous pointer yet.\<close>

definition growing :: "heap_t \<Rightarrow> addr \<Rightarrow> addr list \<Rightarrow> bool" where
  "growing h a cs \<longleftrightarrow> a \<notin> set cs \<and> distinct cs \<and>
     (\<exists>x. h_items h a = Some x \<and> i_child x = first cs) \<and>
     (\<forall>c \<in> set cs. \<exists>y. h_items h c = Some y \<and> i_next y = next_in cs c \<and> i_prev y = (if c = hd cs then None else prev_in cs c))"

definition last_of :: "addr list \<Rightarrow> addr option" where
  "last_of cs = (if cs = [] then None else Some (last cs))"

text \<open>The items after a new one has been linked.\<close>

definition linked_map :: "addr \<Rightarrow> addr list \<Rightarrow> addr \<Rightarrow> (addr \<rightharpoonup> item) \<Rightarrow> addr \<rightharpoonup> item" where
  "linked_map a cs n m =
     (if cs = [] then change a (\<lambda>x. x\<lparr>i_child := Some n\<rparr>) m
      else change n (\<lambda>x. x\<lparr>i_prev := Some (last cs)\<rparr>) (change (last cs) (\<lambda>x. x\<lparr>i_next := Some n\<rparr>) m))"

lemma link_child_map:
  assumes "growing h a cs" and "loose n h" and "n \<notin> set cs" and "n \<noteq> a"
  shows "link_child a (last_of cs) n h = Some (h\<lparr>h_items := linked_map a cs n (h_items h)\<rparr>)"
proof (cases "cs = []")
  case True
  then show ?thesis using assms(1) by (auto simp: link_child_def last_of_def linked_map_def upd_change growing_def)
next
  case False
  then have "last cs \<in> set cs" by simp
  then have "h_items h (last cs) \<noteq> None" "n \<noteq> last cs" using assms(1,3) by (auto simp: growing_def)
  then show ?thesis using False assms(2)
    by (auto simp: link_child_def last_of_def linked_map_def suffix_object_def upd_change change_apply loose_def)
qed

lemma growing_link:
  assumes "growing h a cs" and "loose n h" and "n \<notin> set cs" and "n \<noteq> a"
  shows "growing (h\<lparr>h_items := linked_map a cs n (h_items h)\<rparr>) a (cs @ [n])"
proof -
  let ?m = "linked_map a cs n (h_items h)"
  have d: "distinct (cs @ n # [])" and out: "a \<notin> set cs" using assms(1,3) by (auto simp: growing_def)
  obtain w where w: "h_items h n = Some w" "i_next w = None" "i_prev w = None" using assms(2) by (auto simp: loose_def)
  have "\<exists>x. ?m a = Some x \<and> i_child x = first (cs @ [n])"
    using assms(1,4) out last_in_set[of cs] by (cases "cs = []") (auto simp: growing_def linked_map_def change_apply)
  moreover have "\<exists>y. ?m c = Some y \<and> i_next y = next_in (cs @ [n]) c \<and> i_prev y = (if c = hd (cs @ [n]) then None else prev_in (cs @ [n]) c)"
    if c: "c \<in> set (cs @ [n])" for c
  proof (cases "c = n")
    case True
    then show ?thesis using w assms(3,4) last_in_set[of cs] prev_in_insert[OF d, of n] next_in_insert[OF d, of n]
      by (cases "cs = []") (auto simp: linked_map_def change_apply hd_append)
  next
    case False
    then have cs: "c \<in> set cs" "cs \<noteq> []" using c by auto
    then obtain y where y: "h_items h c = Some y" "i_next y = next_in cs c" "i_prev y = (if c = hd cs then None else prev_in cs c)"
      using assms(1) by (auto simp: growing_def)
    then show ?thesis using False cs prev_in_insert[OF d, of c] next_in_insert[OF d, of c]
      by (cases "c = last cs") (auto simp: linked_map_def change_apply hd_append)
  qed
  ultimately show ?thesis using assms(4) d out by (simp add: growing_def)
qed

lemma close_list_put:
  assumes "growing h a cs"
  shows "close_list a (last_of cs) h = Some (put_list a cs h)"
proof (cases "cs = []")
  case True
  then show ?thesis using assms
    by (auto simp: close_list_def growing_def last_of_def put_list_def relink_def fun_eq_iff intro!: heap_eqI)
next
  case False
  obtain x where x: "h_items h a = Some x" "i_child x = Some (hd cs)" using assms False by (auto simp: growing_def first_Some)
  have hd: "hd cs \<in> set cs" using False by simp
  then have "h_items h (hd cs) \<noteq> None" using assms by (auto simp: growing_def)
  then have "close_list a (last_of cs) h = Some (h\<lparr>h_items := change (hd cs) (\<lambda>y. y\<lparr>i_prev := Some (last cs)\<rparr>) (h_items h)\<rparr>)"
    using x False by (auto simp: close_list_def last_of_def upd_change)
  moreover have "change (hd cs) (\<lambda>y. y\<lparr>i_prev := Some (last cs)\<rparr>) (h_items h) = h_items (put_list a cs h)"
  proof
    fix b
    consider "b = a" | "b \<in> set cs" "b \<noteq> a" | "b \<notin> set cs" "b \<noteq> a" by blast
    then show "change (hd cs) (\<lambda>y. y\<lparr>i_prev := Some (last cs)\<rparr>) (h_items h) b = h_items (put_list a cs h) b"
    proof cases
      case 1
      then show ?thesis using assms x hd by (auto simp: change_apply put_list_def growing_def first_Some[OF False])
    next
      case 2
      then obtain y where y: "h_items h b = Some y" "i_next y = next_in cs b" "i_prev y = (if b = hd cs then None else prev_in cs b)"
        using assms by (auto simp: growing_def)
      then show ?thesis using 2 prev_in_start[OF False, of "[]"] by (auto simp: change_apply put_list_def relink_def)
    next
      case 3
      then show ?thesis using hd by (auto simp: change_apply put_list_def relink_def)
    qed
  qed
  ultimately show ?thesis by (simp add: put_list_def)
qed

lemma growing_children:
  assumes "growing h a cs"
  shows "children (put_list a cs h) a cs"
  by (rule children_put) (use assms in \<open>auto simp: growing_def\<close>)

end
