(* ===== verification/Cjson_Copy.thy ===== *)
theory Cjson_Copy
  imports Cjson_Build
begin

text \<open>
  What the building functions promise: a new tree that owns all of the blocks that are new, or no change
  and a reason for it. \<^verbatim>\<open>cJSON_Duplicate\<close> gives a tree of the same content with lists in order.
\<close>

section \<open>Specification\<close>

text \<open>No address beyond the next one is in use.\<close>

definition alloc_ok :: "heap_t \<Rightarrow> bool" where
  "alloc_ok h \<longleftrightarrow> (\<forall>a. h_items h a \<noteq> None \<longrightarrow> a < h_next h) \<and> (\<forall>s. h_texts h s \<noteq> None \<longrightarrow> s < h_next h)"

definition never_fails :: "heap_t \<Rightarrow> bool" where
  "never_fails h \<longleftrightarrow> (\<forall>ok \<in> set (h_allocs h). ok)"

text \<open>The heap has got the items \<open>I\<close> and the texts \<open>T\<close>, and nothing else has changed.\<close>

definition extends :: "addr set \<Rightarrow> addr set \<Rightarrow> heap_t \<Rightarrow> heap_t \<Rightarrow> bool" where
  "extends I T h h' \<longleftrightarrow> alloc_ok h' \<and> h_next h \<le> h_next h' \<and> (never_fails h \<longrightarrow> never_fails h') \<and>
     I \<subseteq> {h_next h..<h_next h'} \<and> T \<subseteq> {h_next h..<h_next h'} \<and>
     (\<forall>a. a \<notin> I \<longrightarrow> h_items h' a = h_items h a) \<and> (\<forall>s. s \<notin> T \<longrightarrow> h_texts h' s = h_texts h s)"

text \<open>Trees whose lists of children are in order, throughout.\<close>

primrec linked_tree :: "heap_t \<Rightarrow> htree \<Rightarrow> bool" where
  "linked_tree h (HT a x ts) \<longleftrightarrow> children h a (map ht_addr ts) \<and> list_all (linked_tree h) ts"

text \<open>Success is a new tree with \<open>Q\<close>; failure has a reason.\<close>

definition built :: "bool \<Rightarrow> (heap_t \<Rightarrow> htree \<Rightarrow> bool) \<Rightarrow> heap_t \<Rightarrow> (addr option \<times> heap_t) option \<Rightarrow> bool" where
  "built C Q h r \<longleftrightarrow>
     (\<exists>p h'. r = Some (p, h') \<and>
        (case p of
           None \<Rightarrow> extends {} {} h h' \<and> \<not> (C \<and> never_fails h)
         | Some b \<Rightarrow> \<exists>t. ht_addr t = b \<and> owned h' [t] \<and> loose b h' \<and> linked_tree h' t \<and>
             extends (set (item_addrs t)) (set (text_addrs t)) h h' \<and> Q h' t))"

text \<open>The content of a tree, without addresses.\<close>

datatype content = Content kind int double "string option" "string option" bool "content list"

definition text_at :: "heap_t \<Rightarrow> addr option \<Rightarrow> string option" where
  "text_at h p = (case p of None \<Rightarrow> None | Some s \<Rightarrow> h_texts h s)"

primrec content_of :: "heap_t \<Rightarrow> htree \<Rightarrow> content" where
  "content_of h (HT a x ts) = Content (i_kind x) (i_valueint x) (i_valuedouble x) (text_at h (i_valuestring x)) (text_at h (i_string x))
     (i_StringIsConst x) (map (content_of h) ts)"

text \<open>Trees whose texts can be read, and that can be read as a whole, through references too.\<close>

primrec texts_ok :: "heap_t \<Rightarrow> htree \<Rightarrow> bool" where
  "texts_ok h (HT a x ts) \<longleftrightarrow> (i_valuestring x \<noteq> None \<longrightarrow> text_at h (i_valuestring x) \<noteq> None) \<and>
     (i_string x \<noteq> None \<longrightarrow> text_at h (i_string x) \<noteq> None) \<and> list_all (texts_ok h) ts"

primrec readable_tree :: "heap_t \<Rightarrow> htree \<Rightarrow> bool" where
  "readable_tree h (HT a x ts) \<longleftrightarrow> map_option strip (h_items h a) = Some x \<and>
     i_child x = first (map ht_addr ts) \<and> chained h (map ht_addr ts) \<and> list_all (readable_tree h) ts"

primrec height :: "htree \<Rightarrow> nat" where
  "height (HT a x ts) = (if ts = [] then 0 else Suc (Max (set (map height ts))))"

section \<open>Lemmas: extensions\<close>

lemma extendsD:
  assumes "extends I T h h'"
  shows "alloc_ok h'" "h_next h \<le> h_next h'" "never_fails h \<Longrightarrow> never_fails h'"
    "a \<in> I \<Longrightarrow> h_next h \<le> a \<and> a < h_next h'" "s \<in> T \<Longrightarrow> h_next h \<le> s \<and> s < h_next h'"
    "a \<notin> I \<Longrightarrow> h_items h' a = h_items h a" "s \<notin> T \<Longrightarrow> h_texts h' s = h_texts h s"
  using assms unfolding extends_def by auto

lemma extendsI:
  assumes "alloc_ok h'" and "h_next h \<le> h_next h'" and "never_fails h \<Longrightarrow> never_fails h'"
    and "\<And>a. a \<in> I \<Longrightarrow> h_next h \<le> a \<and> a < h_next h'" and "\<And>s. s \<in> T \<Longrightarrow> h_next h \<le> s \<and> s < h_next h'"
    and "\<And>a. a \<notin> I \<Longrightarrow> h_items h' a = h_items h a" and "\<And>s. s \<notin> T \<Longrightarrow> h_texts h' s = h_texts h s"
  shows "extends I T h h'"
  using assms unfolding extends_def by auto

lemma extends_refl [simp]: "alloc_ok h \<Longrightarrow> extends {} {} h h"
  by (simp add: extends_def)

lemma extends_trans:
  assumes "extends I T h h1" and "extends J U h1 h2"
  shows "extends (I \<union> J) (T \<union> U) h h2"
proof (rule extendsI)
  show "alloc_ok h2" "h_next h \<le> h_next h2" "never_fails h \<Longrightarrow> never_fails h2"
    using extendsD(1-3)[OF assms(1)] extendsD(1-3)[OF assms(2)] by auto
  show "h_next h \<le> a \<and> a < h_next h2" if "a \<in> I \<union> J" for a
    using that extendsD(2)[OF assms(1)] extendsD(2)[OF assms(2)] extendsD(4)[OF assms(1), of a] extendsD(4)[OF assms(2), of a] by auto
  show "h_next h \<le> s \<and> s < h_next h2" if "s \<in> T \<union> U" for s
    using that extendsD(2)[OF assms(1)] extendsD(2)[OF assms(2)] extendsD(5)[OF assms(1), of s] extendsD(5)[OF assms(2), of s] by auto
  show "h_items h2 a = h_items h a" if "a \<notin> I \<union> J" for a using that extendsD(6)[OF assms(1)] extendsD(6)[OF assms(2)] by simp
  show "h_texts h2 s = h_texts h s" if "s \<notin> T \<union> U" for s using that extendsD(7)[OF assms(1)] extendsD(7)[OF assms(2)] by simp
qed

lemma old_address:
  assumes "alloc_ok h" and "extends I T h h'"
  shows "h_items h a \<noteq> None \<Longrightarrow> a \<notin> I" "h_texts h s \<noteq> None \<Longrightarrow> s \<notin> T"
  using assms(1) extendsD(4)[OF assms(2), of a] extendsD(5)[OF assms(2), of s] unfolding alloc_ok_def by force+

lemma old_item: "alloc_ok h \<Longrightarrow> extends I T h h' \<Longrightarrow> h_items h a = Some x \<Longrightarrow> h_items h' a = Some x"
  using old_address(1)[of h I T h' a] extendsD(6)[of I T h h' a] by simp

lemma old_text: "alloc_ok h \<Longrightarrow> extends I T h h' \<Longrightarrow> h_texts h s = Some x \<Longrightarrow> h_texts h' s = Some x"
  using old_address(2)[of h I T h' s] extendsD(7)[of I T h h' s] by simp

text \<open>Freeing all that is new.\<close>

lemma extends_freed:
  assumes "extends I T h h'" and "alloc_ok h"
  shows "extends {} {} h (without I T h')"
proof (rule extendsI)
  show "alloc_ok (without I T h')" using extendsD(1)[OF assms(1)] by (simp add: alloc_ok_def)
  show "never_fails h \<Longrightarrow> never_fails (without I T h')" using extendsD(3)[OF assms(1)] by (simp add: never_fails_def)
  show "h_next h \<le> h_next (without I T h')" using extendsD(2)[OF assms(1)] by simp
  show "h_items (without I T h') a = h_items h a" for a
    using old_address(1)[OF assms(2,1), of a] extendsD(6)[OF assms(1), of a] by (cases "h_items h a") auto
  show "h_texts (without I T h') s = h_texts h s" for s
    using old_address(2)[OF assms(2,1), of s] extendsD(7)[OF assms(1), of s] by (cases "h_texts h s") auto
qed simp_all

lemma text_at_items [simp]: "text_at (h\<lparr>h_items := m\<rparr>) p = text_at h p"
  by (simp add: text_at_def split: option.split)

lemma text_at_kept:
  "\<forall>s. h_texts h s \<noteq> None \<longrightarrow> h_texts h' s = h_texts h s \<Longrightarrow> p \<noteq> None \<longrightarrow> text_at h p \<noteq> None \<Longrightarrow> text_at h' p = text_at h p"
  by (auto simp: text_at_def split: option.splits)

lemma content_kept:
  assumes "\<forall>s. h_texts h s \<noteq> None \<longrightarrow> h_texts h' s = h_texts h s"
  shows "texts_ok h t \<Longrightarrow> texts_ok h' t \<and> content_of h' t = content_of h t"
proof (induction t)
  case (HT a x ts)
  have "text_at h' (i_valuestring x) = text_at h (i_valuestring x)" "text_at h' (i_string x) = text_at h (i_string x)"
    using HT.prems by (auto intro!: text_at_kept[OF assms])
  moreover have "texts_ok h' t \<and> content_of h' t = content_of h t" if "t \<in> set ts" for t
    using HT.IH[OF that] HT.prems that by (simp add: list_all_iff)
  ultimately show ?case using HT.prems by (simp add: list_all_iff)
qed

lemma extends_content:
  assumes "alloc_ok h" and "extends I T h h'" and "texts_ok h t"
  shows "texts_ok h' t \<and> content_of h' t = content_of h t"
  by (rule content_kept[OF _ assms(3)]) (use old_text[OF assms(1,2)] in auto)

lemma chained_old: "alloc_ok h \<Longrightarrow> extends I T h h' \<Longrightarrow> chained h cs \<Longrightarrow> chained h' cs"
  by (induction cs) (auto dest: old_item)

lemma readable_extends:
  assumes "alloc_ok h" and "extends I T h h'"
  shows "readable_tree h t \<Longrightarrow> readable_tree h' t"
proof (induction t)
  case (HT a x ts)
  have "map_option strip (h_items h' a) = Some x" using HT.prems old_item[OF assms] by auto
  moreover have "readable_tree h' t" if "t \<in> set ts" for t using HT.IH[OF that] HT.prems that by (simp add: list_all_iff)
  ultimately show ?case using HT.prems chained_old[OF assms] by (simp add: list_all_iff)
qed

section \<open>Lemmas: growing trees\<close>

lemma linked_tree_cong:
  assumes "linked_tree h t" and "map_option strip (h_items h' (ht_addr t)) = map_option strip (h_items h (ht_addr t))"
    and "\<forall>a \<in> set (items_of (ht_kids t)). h_items h' a = h_items h a"
  shows "linked_tree h' t"
  using assms
proof (induction t)
  case (HT a x ts)
  have kid: "h_items h' (ht_addr t) = h_items h (ht_addr t)" "\<forall>a \<in> set (items_of (ht_kids t)). h_items h' a = h_items h a"
    if "t \<in> set ts" for t
  proof -
    have "set (item_addrs t) \<subseteq> set (items_of ts)" using that by auto
    then show "h_items h' (ht_addr t) = h_items h (ht_addr t)" using HT.prems(3) ht_addr_in[of t] by auto
    show "\<forall>a \<in> set (items_of (ht_kids t)). h_items h' a = h_items h a"
      using HT.prems(3) \<open>set (item_addrs t) \<subseteq> set (items_of ts)\<close> by (cases t) auto
  qed
  have "linked_tree h' t" if "t \<in> set ts" for t
    using HT.IH[OF that] HT.prems(1) kid[OF that] that by (simp add: list_all_iff)
  moreover have "children h' a (map ht_addr ts)"
  proof -
    have c: "children h a (map ht_addr ts)" using HT.prems(1) by simp
    then obtain x0 where x0: "h_items h a = Some x0" "i_child x0 = first (map ht_addr ts)" by (auto simp: children_def)
    then obtain x1 where x1: "h_items h' a = Some x1" "strip x1 = strip x0" using HT.prems(2) by auto
    have "i_child x1 = i_child x0" using x1(2) strip_simps(1) by metis
    then show ?thesis using c x0 x1 kid(1) by (auto simp: children_def)
  qed
  ultimately show ?case by (simp add: list_all_iff)
qed

lemma holds_root:
  assumes "holds h t" and "map_option strip (h_items h' (ht_addr t)) = map_option strip (h_items h (ht_addr t))"
    and "\<forall>a \<in> set (items_of (ht_kids t)). h_items h' a = h_items h a" and "\<forall>s \<in> set (text_addrs t). h_texts h' s = h_texts h s"
  shows "holds h' t"
proof -
  obtain a x ts where t: "t = HT a x ts" by (cases t)
  have "holds h' u" if "u \<in> set ts" for u
    using holds_cong[of h u h'] assms that unfolding t by (fastforce simp: list_all_iff)
  moreover have "chained h' (map ht_addr ts)"
    by (rule chained_cong[of h]) (use assms ht_addr_in in \<open>fastforce simp: t\<close>)+
  ultimately show ?thesis using assms unfolding t by (simp add: list_all_iff)
qed

text \<open>The new tree so far: \<open>z\<close> is its root without children.\<close>

definition sofar :: "item \<Rightarrow> htree list \<Rightarrow> addr \<Rightarrow> htree" where
  "sofar z us b = HT b (z\<lparr>i_child := first (map ht_addr us)\<rparr>) us"

definition partial :: "heap_t \<Rightarrow> heap_t \<Rightarrow> addr \<Rightarrow> item \<Rightarrow> htree list \<Rightarrow> bool" where
  "partial h0 h b z us \<longleftrightarrow> owned h [sofar z us b] \<and> loose b h \<and> growing h b (map ht_addr us) \<and> list_all (linked_tree h) us \<and>
     extends (set (item_addrs (sofar z us b))) (set (text_addrs (sofar z us b))) h0 h"

lemma owned_single:
  "owned h [HT b x us] \<longleftrightarrow> (\<exists>y. h_items h b = Some y \<and> strip y = x \<and> i_next y = None) \<and>
     (\<forall>s \<in> set (own_texts x). h_texts h s \<noteq> None) \<and>
     (if i_IsReference x then us = [] else i_child x = first (map ht_addr us)) \<and> owned h us \<and> b \<notin> set (items_of us) \<and>
     distinct (own_texts x) \<and> set (own_texts x) \<inter> set (texts_of us) = {}"
  by (auto simp: owned_Cons) (auto simp: owned_def)

lemma own_texts_child [simp]: "own_texts (x\<lparr>i_child := c\<rparr>) = own_texts x"
  by (simp add: own_texts_def split: option.split)

lemma linked_map_strip:
  assumes "c \<noteq> a"
  shows "map_option strip (linked_map a cs n m c) = map_option strip (m c)"
  using assms by (auto simp: linked_map_def change_apply strip_def[abs_def] option.map_comp comp_def)

lemma linked_map_other:
  "c \<noteq> a \<Longrightarrow> c \<noteq> n \<Longrightarrow> c \<notin> set cs \<Longrightarrow> linked_map a cs n m c = m c"
  by (auto simp: linked_map_def change_apply)

lemma change_None: "change a f m c = None \<longleftrightarrow> m c = None"
  by (cases "c = a") (simp_all add: change_apply)

lemma linked_map_None: "linked_map a cs n m c = None \<longleftrightarrow> m c = None"
  unfolding linked_map_def by (cases "cs = []") (simp_all only: change_None if_True if_False simp_thms)

lemma strip_child: "strip (x\<lparr>i_child := c\<rparr>) = (strip x)\<lparr>i_child := c\<rparr>"
  by (simp add: strip_def)

text \<open>A heap in which only lists of roots were linked.\<close>

lemma owned_roots:
  assumes "list_all (holds h) us" and "distinct (items_of us)" and "distinct (texts_of us)" and "chained h' (map ht_addr us)"
    and "\<And>t. t \<in> set us \<Longrightarrow> map_option strip (h_items h' (ht_addr t)) = map_option strip (h_items h (ht_addr t))"
    and "\<And>t a. t \<in> set us \<Longrightarrow> a \<in> set (items_of (ht_kids t)) \<Longrightarrow> h_items h' a = h_items h a"
    and "h_texts h' = h_texts h"
  shows "owned h' us"
proof -
  have "holds h' t" if "t \<in> set us" for t
    using holds_root[of h t h'] assms that by (auto simp: list_all_iff)
  then show ?thesis using assms by (simp add: owned_def list_all_iff)
qed

lemma chained_next: "\<forall>c \<in> set cs. \<exists>y. h_items h c = Some y \<and> i_next y = next_in cs c \<Longrightarrow> distinct cs \<Longrightarrow> chained h cs"
proof (induction cs)
  case (Cons c cs)
  have "\<forall>b \<in> set cs. \<exists>y. h_items h b = Some y \<and> i_next y = next_in cs b" using Cons.prems by fastforce
  then show ?case using Cons by auto
qed simp

lemma growing_chained: "growing h a cs \<Longrightarrow> chained h cs"
  by (rule chained_next) (auto simp: growing_def)

lemma extends_inner:
  assumes "extends I T h0 h" and "\<And>a. a \<notin> I \<Longrightarrow> m a = h_items h a" and "\<And>a. m a \<noteq> None \<Longrightarrow> h_items h a \<noteq> None"
  shows "extends I T h0 (h\<lparr>h_items := m\<rparr>)"
proof (rule extendsI)
  show "alloc_ok (h\<lparr>h_items := m\<rparr>)" using extendsD(1)[OF assms(1)] assms(3) by (auto simp: alloc_ok_def)
  show "never_fails h0 \<Longrightarrow> never_fails (h\<lparr>h_items := m\<rparr>)" using extendsD(3)[OF assms(1)] by (simp add: never_fails_def)
qed (use extendsD(2,4-7)[OF assms(1)] assms(2) in auto)

lemma growing_cong: "growing h a cs \<Longrightarrow> \<forall>c \<in> insert a (set cs). h_items h' c = h_items h c \<Longrightarrow> growing h' a cs"
  by (auto simp: growing_def)

lemma owned_allocated:
  assumes "owned h ts"
  shows "a \<in> set (items_of ts) \<Longrightarrow> h_items h a \<noteq> None" "s \<in> set (texts_of ts) \<Longrightarrow> h_texts h s \<noteq> None"
proof -
  have "holds h t \<Longrightarrow> (\<forall>a \<in> set (item_addrs t). h_items h a \<noteq> None) \<and> (\<forall>s \<in> set (text_addrs t). h_texts h s \<noteq> None)" for t
    by (induction t) (auto simp: list_all_iff)
  then show "a \<in> set (items_of ts) \<Longrightarrow> h_items h a \<noteq> None" "s \<in> set (texts_of ts) \<Longrightarrow> h_texts h s \<noteq> None"
    using assms by (auto simp: owned_def list_all_iff)
qed

lemma kids_sub: "set (items_of (ht_kids u)) \<subseteq> set (item_addrs u)"
  by (cases u) auto

lemma root_not_inner:
  "distinct (items_of ts) \<Longrightarrow> u \<in> set ts \<Longrightarrow> v \<in> set ts \<Longrightarrow> ht_addr v \<notin> set (items_of (ht_kids u))"
proof (induction ts)
  case (Cons w ts)
  have w: "ht_addr w \<notin> set (items_of (ht_kids w))" "ht_addr w \<notin> set (items_of ts)" "set (items_of (ht_kids w)) \<inter> set (items_of ts) = {}"
    using Cons.prems(1) by (cases w; auto)+
  have sub: "set (items_of (ht_kids x)) \<subseteq> set (items_of ts)" "ht_addr x \<in> set (items_of ts)" if "x \<in> set ts" for x
    using that kids_sub[of x] ht_addr_in[of x] by auto
  consider "u = w" "v = w" | "u = w" "v \<in> set ts" | "u \<in> set ts" "v = w" | "u \<in> set ts" "v \<in> set ts" using Cons.prems by auto
  then show ?case
  proof cases
    case 2
    then show ?thesis using w(3) sub(2)[of v] by blast
  next
    case 3
    then show ?thesis using w(2) sub(1)[of u] by blast
  qed (use w Cons in auto)
qed simp

lemma partial_link:
  assumes "partial h0 h b z us" and "\<not> i_IsReference z" and t: "owned h1 [t]" "loose (ht_addr t) h1" "linked_tree h1 t"
    and ext: "extends (set (item_addrs t)) (set (text_addrs t)) h h1"
  defines "h2 \<equiv> h1\<lparr>h_items := linked_map b (map ht_addr us) (ht_addr t) (h_items h1)\<rparr>"
  shows "link_child b (last_of (map ht_addr us)) (ht_addr t) h1 = Some h2 \<and> partial h0 h2 b z (us @ [t])"
proof -
  let ?cs = "map ht_addr us" and ?n = "ht_addr t" and ?m = "linked_map b (map ht_addr us) (ht_addr t) (h_items h1)"
  note part = assms(1)[unfolded partial_def]
  have ok: "alloc_ok h" using part extendsD(1) by blast
  have own: "owned h [sofar z us b]" using part by blast
  have own_us: "owned h us" "b \<notin> set (items_of us)" "distinct (own_texts z)" "set (own_texts z) \<inter> set (texts_of us) = {}"
    "\<forall>s \<in> set (own_texts z). h_texts h s \<noteq> None"
    using own unfolding sofar_def owned_single by auto
  obtain y where y: "h_items h b = Some y" "strip y = z\<lparr>i_child := first ?cs\<rparr>" using own unfolding sofar_def owned_single by auto
  have old: "a \<notin> set (item_addrs t) \<and> h_items h1 a = h_items h a" if "a = b \<or> a \<in> set (items_of us)" for a
    using old_address(1)[OF ok ext, of a] extendsD(6)[OF ext, of a] owned_allocated(1)[OF own_us(1), of a] y(1) that by auto
  have oldt: "s \<notin> set (text_addrs t) \<and> h_texts h1 s = h_texts h s" if "s \<in> set (own_texts z) \<or> s \<in> set (texts_of us)" for s
    using old_address(2)[OF ok ext, of s] extendsD(7)[OF ext, of s] owned_allocated(2)[OF own_us(1), of s] own_us(5) that by auto
  have roots: "ht_addr u \<in> set (items_of us)" if "u \<in> set us" for u using that ht_addr_in by fastforce
  have n: "?n \<notin> set ?cs" "?n \<noteq> b" using old roots ht_addr_in[of t] by auto
  have "growing h1 b ?cs" by (rule growing_cong[of h]) (use part old roots in auto)
  note link = link_child_map[OF this t(2) n] growing_link[OF this t(2) n]
  have own1: "owned h1 us" by (rule owned_cong[OF own_us(1)]) (use old oldt in auto)
  have dist: "distinct (items_of (us @ [t]))" "distinct (texts_of (us @ [t]))"
    using own1 t(1) old oldt unfolding owned_def by (auto simp: disjoint_iff)
  have kid: "?m a = h_items h1 a" if u: "u \<in> set (us @ [t])" "a \<in> set (items_of (ht_kids u))" for u a
  proof (rule linked_map_other)
    have "a \<noteq> ht_addr v" if "v \<in> set (us @ [t])" for v using root_not_inner[OF dist(1) u(1) that] u(2) by auto
    then show "a \<noteq> ?n" "a \<notin> set ?cs" by auto
    have "a \<in> set (items_of (us @ [t]))" using u kids_sub[of u] by auto
    then show "a \<noteq> b" using own_us(2) old[of b] by auto
  qed
  have root: "map_option strip (?m (ht_addr u)) = map_option strip (h_items h1 (ht_addr u))" if "u \<in> set (us @ [t])" for u
    using that n(2) roots own_us(2) by (intro linked_map_strip) auto
  have "list_all (holds h1) (us @ [t])" using own1 t(1) by (simp add: owned_def)
  then have own2: "owned h2 (us @ [t])"
    by (rule owned_roots[OF _ dist]) (use growing_chained[OF link(2)] root kid in \<open>auto simp: h2_def\<close>)
  have "linked_tree h2 u" if u: "u \<in> set (us @ [t])" for u
  proof (rule linked_tree_cong)
    have "linked_tree h1 u" if "u \<in> set us"
      by (rule linked_tree_cong[of h]) (use part that old roots[OF that] kids_sub[of u] in \<open>auto simp: list_all_iff\<close>)
    then show "linked_tree h1 u" using u t(3) by auto
  qed (use root[OF u] kid[OF u] in \<open>auto simp: h2_def\<close>)
  moreover obtain w where w: "h_items h2 b = Some w" "strip w = z\<lparr>i_child := first (map ht_addr (us @ [t]))\<rparr>" "i_next w = None" "i_prev w = None"
  proof -
    have y0: "i_next y = None" "i_prev y = None" "h_items h1 b = Some y" using part y(1) old[of b] by (auto simp: loose_def)
    show ?thesis
    proof (cases "us = []")
      case True
      then show ?thesis using y0 y(2) by (intro that[of "y\<lparr>i_child := Some ?n\<rparr>"]) (simp_all add: h2_def linked_map_def change_apply strip_child)
    next
      case False
      then have "ht_addr (last us) \<in> set (items_of us)" using roots[of "last us"] by simp
      then have "b \<noteq> last ?cs" using own_us(2) False by (metis last_map)
      then show ?thesis using y0 y(2) False n(2) by (intro that[of y]) (auto simp: h2_def linked_map_def change_apply)
    qed
  qed
  moreover have "extends (set (item_addrs (sofar z (us @ [t]) b))) (set (text_addrs (sofar z (us @ [t]) b))) h0 h2"
  proof -
    have sets: "set (item_addrs (sofar z (us @ [t]) b)) = set (item_addrs (sofar z us b)) \<union> set (item_addrs t)"
      "set (text_addrs (sofar z (us @ [t]) b)) = set (text_addrs (sofar z us b)) \<union> set (text_addrs t)" by (auto simp: sofar_def)
    have "extends (set (item_addrs (sofar z us b)) \<union> set (item_addrs t)) (set (text_addrs (sofar z us b)) \<union> set (text_addrs t)) h0 h1"
      using extends_trans part ext by blast
    then show ?thesis unfolding h2_def sets
    proof (rule extends_inner)
      show "?m a = h_items h1 a" if "a \<notin> set (item_addrs (sofar z us b)) \<union> set (item_addrs t)" for a
        by (rule linked_map_other) (use that ht_addr_in roots in \<open>auto simp: sofar_def\<close>)
    qed (simp only: linked_map_None not_False_eq_True)
  qed
  moreover have "owned h2 [sofar z (us @ [t]) b]"
  proof -
    have "b \<notin> set (items_of (us @ [t]))" "set (own_texts z) \<inter> set (texts_of (us @ [t])) = {}" "\<forall>s \<in> set (own_texts z). h_texts h2 s \<noteq> None"
      using own_us old[of b] oldt by (auto simp: h2_def disjoint_iff)
    then show ?thesis unfolding sofar_def owned_single using w own2 own_us(3) assms(2) by auto
  qed
  ultimately show ?thesis using link unfolding partial_def h2_def[symmetric] by (auto simp: list_all_iff loose_def h2_def)
qed

text \<open>The end of the construction: the list is closed, or all is thrown away.\<close>

lemma partial_close:
  assumes "partial h0 h b z us" and "\<not> i_IsReference z"
  defines "h' \<equiv> put_list b (map ht_addr us) h"
  shows "close_list b (last_of (map ht_addr us)) h = Some h' \<and> owned h' [sofar z us b] \<and> loose b h' \<and> linked_tree h' (sofar z us b) \<and>
    extends (set (item_addrs (sofar z us b))) (set (text_addrs (sofar z us b))) h0 h' \<and> h_texts h' = h_texts h"
proof -
  let ?cs = "map ht_addr us"
  note part = assms(1)[unfolded partial_def]
  have grow: "growing h b ?cs" using part by blast
  have own: "owned h us" "b \<notin> set (items_of us)" "distinct (items_of us)" using part unfolding sofar_def owned_single by (auto simp: owned_def)
  obtain y where y: "h_items h b = Some y" "strip y = z\<lparr>i_child := first ?cs\<rparr>" "i_next y = None" "i_prev y = None" "i_child y = first ?cs"
    using part grow unfolding sofar_def owned_single by (auto simp: loose_def growing_def)
  have kids: "children h' b ?cs" unfolding h'_def by (rule growing_children[OF grow])
  have root: "map_option strip (h_items h' (ht_addr u)) = map_option strip (h_items h (ht_addr u))" if "u \<in> set us" for u
  proof -
    have "ht_addr u \<noteq> b" using grow that by (auto simp: growing_def)
    then show ?thesis by (auto simp: h'_def put_list_def relink_def option.map_comp comp_def strip_def[abs_def])
  qed
  have inner: "h_items h' a = h_items h a" if u: "u \<in> set us" "a \<in> set (items_of (ht_kids u))" for u a
  proof -
    have "a \<notin> set ?cs" using root_not_inner[OF own(3) u(1)] u(2) by auto
    moreover have "a \<noteq> b" using u kids_sub[of u] own(2) by auto
    ultimately show ?thesis by (simp add: h'_def put_list_frame)
  qed
  have b: "h_items h' b = Some y" using y by (simp add: h'_def put_list_def)
  have "chained h' ?cs" using kids by (intro chained_next) (auto simp: children_def)
  then have own': "owned h' us" using own part root inner
    by (intro owned_roots[of h]) (auto simp: owned_def h'_def put_list_frame)
  have "linked_tree h' u" if "u \<in> set us" for u
    by (rule linked_tree_cong[of h]) (use part that root inner in \<open>auto simp: list_all_iff\<close>)
  then have "linked_tree h' (sofar z us b)" using kids by (simp add: sofar_def list_all_iff)
  moreover have "owned h' [sofar z us b]" using part own' b y unfolding sofar_def owned_single by (auto simp: h'_def put_list_frame)
  moreover have "extends (set (item_addrs (sofar z us b))) (set (text_addrs (sofar z us b))) h0 h'"
  proof -
    have e: "extends (set (item_addrs (sofar z us b))) (set (text_addrs (sofar z us b))) h0 h" using part by blast
    have "h' = h\<lparr>h_items := h_items h'\<rparr>" by (simp add: h'_def put_list_def)
    moreover have "extends (set (item_addrs (sofar z us b))) (set (text_addrs (sofar z us b))) h0 (h\<lparr>h_items := h_items h'\<rparr>)"
    proof (rule extends_inner[OF e])
      show "h_items h' a = h_items h a" if "a \<notin> set (item_addrs (sofar z us b))" for a
        unfolding h'_def by (rule put_list_frame(1)) (use that ht_addr_in in \<open>fastforce simp: sofar_def\<close>)+
    qed (auto simp: h'_def put_list_def relink_def split: if_splits)
    ultimately show ?thesis by simp
  qed
  ultimately show ?thesis using close_list_put[OF grow] b y by (simp add: loose_def h'_def put_list_frame)
qed

lemma partial_fail:
  assumes "partial h0 h b z us" and "alloc_ok h0"
  shows "\<exists>h'. dup_fail b h = Some (None, h') \<and> cJSON_Delete (Some b) h = Some h' \<and> extends {} {} h0 h'"
proof -
  have own: "owned h [sofar z us b]" and e: "extends (set (item_addrs (sofar z us b))) (set (text_addrs (sofar z us b))) h0 h"
    using assms(1) by (auto simp: partial_def)
  have "cJSON_Delete (Some b) h = Some (without (set (item_addrs (sofar z us b))) (set (text_addrs (sofar z us b))) h)"
    using delete_owned[OF own] by (simp add: sofar_def)
  then show ?thesis using extends_freed[OF e assms(2)] by (simp add: dup_fail_def)
qed

section \<open>Lemmas: new blocks\<close>

lemma alloc_never_fails: "alloc (h_allocs h) = (ok, al) \<Longrightarrow> never_fails h \<Longrightarrow> ok \<and> (\<forall>x \<in> set al. x)"
  by (auto simp: alloc_def never_fails_def split: list.splits)

lemma new_item_cases:
  assumes "alloc_ok h"
  obtains h' where "cJSON_New_Item h = (None, h')" "extends {} {} h h'" "\<not> never_fails h"
  | h' where "cJSON_New_Item h = (Some (h_next h), h')" "extends {h_next h} {} h h'" "h_items h' (h_next h) = Some blank_item" "h_texts h' = h_texts h"
proof -
  obtain ok al where al: "alloc (h_allocs h) = (ok, al)" by fastforce
  note nf = alloc_never_fails[OF al]
  show ?thesis
  proof (cases ok)
    case True
    let ?h = "h\<lparr>h_items := (h_items h)(h_next h \<mapsto> blank_item), h_next := h_next h + 1, h_allocs := al\<rparr>"
    have "extends {h_next h} {} h ?h"
      by (rule extendsI) (use assms nf in \<open>auto simp: alloc_ok_def never_fails_def less_Suc_eq\<close>)
    then show ?thesis using that(2)[of ?h] al True by (simp add: cJSON_New_Item_def)
  next
    case False
    have "extends {} {} h (h\<lparr>h_allocs := al\<rparr>)"
      by (rule extendsI) (use assms nf False in \<open>auto simp: alloc_ok_def\<close>)
    then show ?thesis using that(1)[of "h\<lparr>h_allocs := al\<rparr>"] al False nf by (auto simp: cJSON_New_Item_def)
  qed
qed

lemma strdup_cases:
  assumes "alloc_ok h" and "p \<noteq> None \<longrightarrow> text_at h p \<noteq> None"
  obtains h' where "cJSON_strdup p h = Some (None, h')" "extends {} {} h h'" "h_items h' = h_items h" "p \<noteq> None \<longrightarrow> \<not> never_fails h"
  | h' where "cJSON_strdup p h = Some (Some (h_next h), h')" "extends {} {h_next h} h h'" "h_items h' = h_items h"
      "text_at h' (Some (h_next h)) = text_at h p" "text_at h p \<noteq> None"
proof (cases p)
  case None
  then show ?thesis using that(1)[of h] assms(1) by (simp add: cJSON_strdup_def)
next
  case (Some q)
  then obtain s where s: "h_texts h q = Some s" using assms(2) by (auto simp: text_at_def)
  obtain ok al where al: "alloc (h_allocs h) = (ok, al)" by fastforce
  note nf = alloc_never_fails[OF al]
  show ?thesis
  proof (cases ok)
    case True
    let ?h = "h\<lparr>h_texts := (h_texts h)(h_next h \<mapsto> s), h_next := h_next h + 1, h_allocs := al\<rparr>"
    have "extends {} {h_next h} h ?h"
      by (rule extendsI) (use assms nf in \<open>auto simp: alloc_ok_def never_fails_def less_Suc_eq\<close>)
    then show ?thesis using that(2)[of ?h] al True s Some by (simp add: cJSON_strdup_def text_at_def)
  next
    case False
    have "extends {} {} h (h\<lparr>h_allocs := al\<rparr>)"
      by (rule extendsI) (use assms nf False in \<open>auto simp: alloc_ok_def\<close>)
    then show ?thesis using that(1)[of "h\<lparr>h_allocs := al\<rparr>"] al False nf s Some by (auto simp: cJSON_strdup_def)
  qed
qed

lemma extends_upd:
  assumes "extends I T h0 h" and "b \<in> I" and "h_items h b = Some y"
  shows "upd b f h = Some (h\<lparr>h_items := (h_items h)(b \<mapsto> f y)\<rparr>) \<and> extends I T h0 (h\<lparr>h_items := (h_items h)(b \<mapsto> f y)\<rparr>)"
proof
  show "upd b f h = Some (h\<lparr>h_items := (h_items h)(b \<mapsto> f y)\<rparr>)" using assms(3) by (simp add: upd_def)
  show "extends I T h0 (h\<lparr>h_items := (h_items h)(b \<mapsto> f y)\<rparr>)"
    by (rule extends_inner[OF assms(1)]) (use assms(2,3) in \<open>auto split: if_splits\<close>)
qed

text \<open>A new item without children.\<close>

lemma partial_Nil:
  assumes "h_items h b = Some z" and "i_next z = None" and "i_prev z = None" and "i_child z = None" and "\<not> i_IsReference z"
    and "\<forall>s \<in> set (own_texts z). h_texts h s \<noteq> None" and "distinct (own_texts z)" and "extends {b} (set (own_texts z)) h0 h"
  shows "partial h0 h b z []"
proof -
  have z: "strip z = z" "z\<lparr>i_child := None\<rparr> = z" using assms(2-4) by (simp_all add: strip_def)
  have "owned h [HT b z []]" unfolding owned_single using assms z by (auto simp: owned_def)
  moreover have "sofar z [] b = HT b z []" unfolding sofar_def using z(2) by simp
  ultimately show ?thesis using assms by (auto simp: partial_def loose_def growing_def)
qed

section \<open>Lemmas: copies\<close>

text \<open>The item of a copy.\<close>

definition copied :: "item \<Rightarrow> addr option \<Rightarrow> addr option \<Rightarrow> item" where
  "copied x v s = blank_item\<lparr>i_kind := i_kind x, i_StringIsConst := i_StringIsConst x, i_valueint := i_valueint x,
     i_valuedouble := i_valuedouble x, i_valuestring := v, i_string := s\<rparr>"

lemma copied_simps [simp]:
  "i_next (copied x v s) = None" "i_prev (copied x v s) = None" "i_child (copied x v s) = None" "\<not> i_IsReference (copied x v s)"
  "i_kind (copied x v s) = i_kind x" "i_StringIsConst (copied x v s) = i_StringIsConst x" "i_valueint (copied x v s) = i_valueint x"
  "i_valuedouble (copied x v s) = i_valuedouble x" "i_valuestring (copied x v s) = v" "i_string (copied x v s) = s"
  "(copied x v s)\<lparr>i_valuestring := v'\<rparr> = copied x v' s" "(copied x v s)\<lparr>i_string := s'\<rparr> = copied x v s'"
  by (simp_all add: copied_def blank_item_def)

lemma own_copied: "own_texts (copied x v s) = (case v of None \<Rightarrow> [] | Some q \<Rightarrow> [q]) @ (case s of Some q \<Rightarrow> if i_StringIsConst x then [] else [q] | None \<Rightarrow> [])"
  by (simp add: own_texts_def split: option.split)

lemma set_own_copied: "set (own_texts (copied x v s)) = set_option v \<union> (if i_StringIsConst x then {} else set_option s)"
  by (cases v; cases s) (auto simp: own_copied)

lemma partial_copied:
  assumes "h_items h b = Some (copied x v s)" and "extends {b} (set (own_texts (copied x v s))) h0 h"
    and "v \<noteq> None \<longrightarrow> text_at h v \<noteq> None" and "s \<noteq> None \<longrightarrow> text_at h s \<noteq> None" and "i_StringIsConst x \<or> set_option v \<inter> set_option s = {}"
  shows "partial h0 h b (copied x v s) []"
proof (rule partial_Nil[OF assms(1) _ _ _ _ _ _ assms(2)])
  show "\<forall>q \<in> set (own_texts (copied x v s)). h_texts h q \<noteq> None"
    using assms(3,4) by (auto simp: set_own_copied text_at_def split: if_splits)
  show "distinct (own_texts (copied x v s))" using assms(5) by (cases v; cases s) (auto simp: own_copied)
qed simp_all

text \<open>A text is copied and the copy put into the new item.\<close>

lemma dup_text:
  assumes "alloc_ok h0" and "extends {b} T h0 h" and "h_items h b = Some y" and "p \<noteq> None \<longrightarrow> text_at h0 p \<noteq> None"
  shows "\<exists>v h1 h'. cJSON_strdup p h = Some (v, h1) \<and> upd b (F v) h1 = Some h' \<and> h_items h' b = Some (F v y) \<and>
    extends {b} (T \<union> set_option v) h0 h' \<and> set_option v \<inter> T = {} \<and> (\<forall>s \<in> T. h_texts h' s = h_texts h s) \<and>
    (if v = None then p \<noteq> None \<longrightarrow> \<not> never_fails h0 else text_at h' v = text_at h0 p \<and> text_at h0 p \<noteq> None)"
proof -
  have ok: "alloc_ok h" by (rule extendsD(1)[OF assms(2)])
  have p: "text_at h p = text_at h0 p" using assms(4) old_text[OF assms(1,2)] by (intro text_at_kept) auto
  have rd: "p \<noteq> None \<longrightarrow> text_at h p \<noteq> None" using assms(4) p by simp
  show ?thesis
  proof (cases rule: strdup_cases[OF ok rd])
    case (1 h1)
    let ?h = "h1\<lparr>h_items := (h_items h1)(b \<mapsto> F None y)\<rparr>"
    have e: "extends {b} T h0 h1" using extends_trans[OF assms(2) 1(2)] by simp
    have y: "h_items h1 b = Some y" using 1(3) assms(3) by simp
    note up = extends_upd[OF e _ y, of "F None"]
    have "h_texts h1 = h_texts h" using extendsD(7)[OF 1(2)] by auto
    then show ?thesis using up 1 extendsD(3)[OF assms(2)] by (intro exI[of _ None] exI[of _ h1] exI[of _ ?h]) auto
  next
    case (2 h1)
    let ?v = "Some (h_next h)" let ?h = "h1\<lparr>h_items := (h_items h1)(b \<mapsto> F ?v y)\<rparr>"
    have e: "extends {b} (T \<union> {h_next h}) h0 h1" using extends_trans[OF assms(2) 2(2)] by simp
    have y: "h_items h1 b = Some y" using 2(3) assms(3) by simp
    note up = extends_upd[OF e _ y, of "F ?v"]
    have new: "h_next h \<notin> T" using extendsD(5)[OF assms(2), of "h_next h"] by auto
    then have "h_texts h1 s = h_texts h s" if "s \<in> T" for s using extendsD(7)[OF 2(2), of s] that by auto
    then show ?thesis using up 2 p new by (intro exI[of _ ?v] exI[of _ h1] exI[of _ ?h]) (auto simp: text_at_def)
  qed
qed

text \<open>The first part of \<open>dup_item\<close>: the item and its texts.\<close>

lemma dup_start:
  assumes "alloc_ok h" and "h_items h a = Some x"
    and "i_valuestring x \<noteq> None \<longrightarrow> text_at h (i_valuestring x) \<noteq> None" and "i_string x \<noteq> None \<longrightarrow> text_at h (i_string x) \<noteq> None"
  obtains h' where "dup_item rec (Some a) recurse h = Some (None, h')" "extends {} {} h h'" "\<not> never_fails h"
  | b v s h' where "dup_item rec (Some a) recurse h =
        (if \<not> recurse then Some (Some b, h')
         else do { (ok, last, h) \<leftarrow> dup_loop rec b (i_child x) None h';
                   if \<not> ok then dup_fail b h else do { h \<leftarrow> close_list b last h; Some (Some b, h) } })"
      "partial h h' b (copied x v s) []" "text_at h' v = text_at h (i_valuestring x)" "text_at h' s = text_at h (i_string x)"
      "v \<noteq> None \<longrightarrow> text_at h' v \<noteq> None" "s \<noteq> None \<longrightarrow> text_at h' s \<noteq> None"
proof (cases rule: new_item_cases[OF assms(1)])
  case (1 h')
  then show ?thesis using that(1)[of h'] by (simp add: dup_item_def)
next
  case (2 h1)
  define b where "b = h_next h"
  have a1: "h_items h1 a = Some x" by (rule old_item[OF assms(1) 2(2) assms(2)])
  define h2 where "h2 = h1\<lparr>h_items := (h_items h1)(b \<mapsto> copied x None None)\<rparr>"
  have "blank_item\<lparr>i_kind := i_kind x, i_StringIsConst := i_StringIsConst x, i_IsReference := False, i_valueint := i_valueint x,
      i_valuedouble := i_valuedouble x\<rparr> = copied x None None" by (simp add: copied_def blank_item_def)
  then have up1: "upd b (\<lambda>y. y\<lparr>i_kind := i_kind x, i_StringIsConst := i_StringIsConst x, i_IsReference := False,
      i_valueint := i_valueint x, i_valuedouble := i_valuedouble x\<rparr>) h1 = Some h2"
    using extends_upd[OF 2(2), of b] 2(3) unfolding b_def[symmetric] h2_def by simp
  have e2: "extends {b} {} h h2"
    using extends_upd[OF 2(2), of b blank_item "\<lambda>_. copied x None None"] 2(3) unfolding b_def[symmetric] h2_def by simp
  have y2: "h_items h2 b = Some (copied x None None)" by (simp add: h2_def)
  from dup_text[OF assms(1) e2 y2 assms(3), of "\<lambda>v y. y\<lparr>i_valuestring := v\<rparr>"] obtain v h3 h4 where
    v: "cJSON_strdup (i_valuestring x) h2 = Some (v, h3)" "upd b (\<lambda>y. y\<lparr>i_valuestring := v\<rparr>) h3 = Some h4"
      "h_items h4 b = Some (copied x v None)" "extends {b} (set_option v) h h4"
      "if v = None then i_valuestring x \<noteq> None \<longrightarrow> \<not> never_fails h else text_at h4 v = text_at h (i_valuestring x) \<and> text_at h (i_valuestring x) \<noteq> None"
    by auto
  have a1': "h_items h1 a = Some x" by (rule a1)
  have part4: "partial h h4 b (copied x v None) []"
    by (rule partial_copied[OF v(3)]) (use v(4,5) in \<open>auto simp: set_own_copied split: if_splits\<close>)
  show ?thesis
  proof (cases "i_valuestring x \<noteq> None \<and> v = None")
    case True
    from partial_fail[OF part4 assms(1)] obtain h' where "dup_fail b h4 = Some (None, h')" "extends {} {} h h'" by blast
    then show ?thesis using that(1)[of h'] True v 2(1) a1 up1 by (auto simp: dup_item_def b_def[symmetric])
  next
    case False
    then have v4: "text_at h4 v = text_at h (i_valuestring x)" "v \<noteq> None \<longrightarrow> text_at h4 v \<noteq> None"
      using v(5) by (auto simp: text_at_def split: if_splits)
    have step: "dup_item rec (Some a) recurse h = do {
        (s, h) \<leftarrow> (if i_StringIsConst x then Some (i_string x, h4) else cJSON_strdup (i_string x) h4);
        h \<leftarrow> upd b (\<lambda>y. y\<lparr>i_string := s\<rparr>) h;
        if i_string x \<noteq> None \<and> s = None then dup_fail b h
        else if \<not> recurse then Some (Some b, h)
        else do { (ok, last, h) \<leftarrow> dup_loop rec b (i_child x) None h;
                  if \<not> ok then dup_fail b h else do { h \<leftarrow> close_list b last h; Some (Some b, h) } } }"
    proof -
      have "cJSON_New_Item h = (Some b, h1)" "(i_valuestring x \<noteq> None \<and> v = None) = False" using 2(1) False by (simp_all only: b_def simp_thms)
      then show ?thesis unfolding dup_item_def by (simp only: option.case prod.case a1 up1 v(1,2) if_False Option.bind.bind_lunit)
    qed
    show ?thesis
    proof (cases "i_StringIsConst x")
      case True
      let ?h = "h4\<lparr>h_items := (h_items h4)(b \<mapsto> copied x v (i_string x))\<rparr>"
      note up = extends_upd[OF v(4) _ v(3), of "\<lambda>y. y\<lparr>i_string := i_string x\<rparr>", simplified]
      have s: "text_at h4 (i_string x) = text_at h (i_string x)" using assms(4) old_text[OF assms(1) v(4)] by (intro text_at_kept) auto
      have "partial h ?h b (copied x v (i_string x)) []"
        by (rule partial_copied) (use True up v4 s assms(4) in \<open>auto simp: set_own_copied text_at_def\<close>)
      moreover have "dup_item rec (Some a) recurse h =
        (if \<not> recurse then Some (Some b, ?h)
         else do { (ok, last, h) \<leftarrow> dup_loop rec b (i_child x) None ?h;
                   if \<not> ok then dup_fail b h else do { h \<leftarrow> close_list b last h; Some (Some b, h) } })"
        using step True up by (cases "i_string x") simp_all
      ultimately show ?thesis using that(2)[of b ?h v "i_string x"] v4 s assms(4) by (simp only: text_at_items)
    next
      case nc: False
      from dup_text[OF assms(1) v(4,3) assms(4), of "\<lambda>v y. y\<lparr>i_string := v\<rparr>"] obtain s h5 h6 where
        s: "cJSON_strdup (i_string x) h4 = Some (s, h5)" "upd b (\<lambda>y. y\<lparr>i_string := s\<rparr>) h5 = Some h6"
          "h_items h6 b = Some (copied x v s)" "extends {b} (set_option v \<union> set_option s) h h6" "set_option s \<inter> set_option v = {}"
          "\<forall>q \<in> set_option v. h_texts h6 q = h_texts h4 q"
          "if s = None then i_string x \<noteq> None \<longrightarrow> \<not> never_fails h else text_at h6 s = text_at h (i_string x) \<and> text_at h (i_string x) \<noteq> None"
        by auto
      have v6: "text_at h6 v = text_at h4 v" using s(6) by (cases v) (auto simp: text_at_def)
      have part6: "partial h h6 b (copied x v s) []"
        by (rule partial_copied[OF s(3)]) (use nc s(4,5,7) v4 v6 in \<open>auto simp: set_own_copied split: if_splits\<close>)
      show ?thesis
      proof (cases "i_string x \<noteq> None \<and> s = None")
        case True
        from partial_fail[OF part6 assms(1)] obtain h' where "dup_fail b h6 = Some (None, h')" "extends {} {} h h'" by blast
        then show ?thesis using that(1)[of h'] True step nc s by auto
      next
        case False
        then have "text_at h6 s = text_at h (i_string x)" "s \<noteq> None \<longrightarrow> text_at h6 s \<noteq> None"
          using s(7) by (auto simp: text_at_def split: if_splits)
        then show ?thesis using that(2)[OF _ part6] step nc s(1,2) False v4 v6 by auto
      qed
    qed
  qed
qed

text \<open>An allocation that failed leaves the new tree as it is.\<close>

lemma partial_kept:
  assumes "partial h0 h b z us" and "extends {} {} h h1"
  shows "partial h0 h1 b z us" "h_items h1 = h_items h" "h_texts h1 = h_texts h"
proof -
  show same: "h_items h1 = h_items h" "h_texts h1 = h_texts h" using extendsD(6,7)[OF assms(2)] by auto
  note part = assms(1)[unfolded partial_def]
  have "owned h1 [sofar z us b]" by (rule owned_cong[of h]) (use part same in auto)
  moreover have "growing h1 b (map ht_addr us)" by (rule growing_cong[of h]) (use part same in auto)
  moreover have "linked_tree h1 u" if "u \<in> set us" for u
    by (rule linked_tree_cong[of h]) (use part same that in \<open>auto simp: list_all_iff\<close>)
  ultimately show "partial h0 h1 b z us"
    using part same extends_trans[of _ _ h0 h "{}" "{}" h1] assms(2) by (auto simp: partial_def list_all_iff loose_def)
qed

text \<open>The children that were copied: all of them, or too few with a reason.\<close>

definition loop_result :: "bool \<Rightarrow> heap_t \<Rightarrow> heap_t \<Rightarrow> addr \<Rightarrow> item \<Rightarrow> content list \<Rightarrow> (bool \<times> addr option \<times> heap_t) option \<Rightarrow> bool" where
  "loop_result C h0 h b z cs r \<longleftrightarrow> (\<exists>ok us h'. r = Some (ok, last_of (map ht_addr us), h') \<and> partial h0 h' b z us \<and>
     (\<forall>s. h_texts h s \<noteq> None \<longrightarrow> h_texts h' s = h_texts h s) \<and>
     (if ok then list_all (texts_ok h') us \<and> map (content_of h') us = cs else \<not> (C \<and> never_fails h0)))"

definition copy_of :: "htree \<Rightarrow> heap_t \<Rightarrow> heap_t \<Rightarrow> htree \<Rightarrow> bool" where
  "copy_of t h h' u \<longleftrightarrow> texts_ok h' u \<and> content_of h' u = content_of h t"

lemma dup_loop_copies:
  assumes rec: "\<And>t h. t \<in> set ts \<Longrightarrow> alloc_ok h \<Longrightarrow> readable_tree h t \<Longrightarrow> texts_ok h t \<Longrightarrow>
      built (height t \<le> k) (copy_of t h) h (f (ht_addr t) h)"
    and h0: "alloc_ok h0" "list_all (readable_tree h0) ts" "list_all (texts_ok h0) ts" "chained h0 (map ht_addr ts)"
    and z: "\<not> i_IsReference z" and part: "partial h0 h b z us" "list_all (texts_ok h) us"
  shows "loop_result (\<forall>t \<in> set ts. height t \<le> k) h0 h b z (map (content_of h) us @ map (content_of h0) ts)
    (dup_loop (Some f) b (first (map ht_addr ts)) (last_of (map ht_addr us)) h)"
  using assms
proof (induction ts arbitrary: us h)
  case Nil
  then show ?case by (auto simp: loop_result_def first_def dup_loop.simps)
next
  case (Cons t ts)
  have e: "extends (set (item_addrs (sofar z us b))) (set (text_addrs (sofar z us b))) h0 h" and ok: "alloc_ok h"
    using Cons.prems(7) extendsD(1) by (auto simp: partial_def)
  have t: "readable_tree h t" "texts_ok h t" "content_of h t = content_of h0 t"
    using Cons.prems(2-4) readable_extends[OF _ e, of t] extends_content[OF _ e, of t] by auto
  from Cons.prems(1)[OF _ ok t(1,2)] obtain p h1 where p: "f (ht_addr t) h = Some (p, h1)"
    "case p of None \<Rightarrow> extends {} {} h h1 \<and> \<not> (height t \<le> k \<and> never_fails h)
     | Some n \<Rightarrow> \<exists>u. ht_addr u = n \<and> owned h1 [u] \<and> loose n h1 \<and> linked_tree h1 u \<and>
         extends (set (item_addrs u)) (set (text_addrs u)) h h1 \<and> copy_of t h h1 u" by (auto simp: built_def)
  show ?case
  proof (cases p)
    case None
    then have "extends {} {} h h1" "\<not> (height t \<le> k \<and> never_fails h0)" using p(2) extendsD(3)[OF e] by auto
    moreover note partial_kept[OF Cons.prems(7) this(1)]
    ultimately show ?thesis using p(1) None
      by (auto simp: loop_result_def first_def dup_loop.simps intro!: exI[of _ us])
  next
    case (Some n)
    then obtain u where u: "ht_addr u = n" "owned h1 [u]" "loose (ht_addr u) h1" "linked_tree h1 u"
      "extends (set (item_addrs u)) (set (text_addrs u)) h h1" "texts_ok h1 u" "content_of h1 u = content_of h0 t"
      using p(2) t(3) by (auto simp: copy_of_def)
    define h2 where "h2 = h1\<lparr>h_items := linked_map b (map ht_addr us) (ht_addr u) (h_items h1)\<rparr>"
    have link: "link_child b (last_of (map ht_addr us)) n h1 = Some h2" "partial h0 h2 b z (us @ [u])"
      using partial_link[OF Cons.prems(7,6) u(2-5)] u(1) unfolding h2_def by auto
    have tx: "h_texts h2 = h_texts h1" by (simp add: h2_def)
    have keep: "\<forall>s. h_texts h s \<noteq> None \<longrightarrow> h_texts h2 s = h_texts h s" using old_text[OF ok u(5)] tx by auto
    have us: "list_all (texts_ok h2) us" "map (content_of h2) us = map (content_of h) us"
      using content_kept[OF keep] Cons.prems(8) by (auto simp: list_all_iff)
    have u2: "texts_ok h2 u" "content_of h2 u = content_of h0 t" using content_kept[of h1 h2, OF _ u(6)] tx u(7) by auto
    have "extends (set (item_addrs (sofar z (us @ [u]) b))) (set (text_addrs (sofar z (us @ [u]) b))) h0 h2" using link(2) by (simp add: partial_def)
    then obtain y where y: "h_items h2 (ht_addr t) = Some y" "i_next y = first (map ht_addr ts)"
      using Cons.prems(2,5) old_item by fastforce
    have "loop_result (\<forall>t \<in> set ts. height t \<le> k) h0 h2 b z (map (content_of h2) (us @ [u]) @ map (content_of h0) ts)
        (dup_loop (Some f) b (first (map ht_addr ts)) (last_of (map ht_addr (us @ [u]))) h2)"
      by (rule Cons.IH) (use Cons.prems link(2) us u2 in auto)
    moreover have "dup_loop (Some f) b (first (map ht_addr (t # ts))) (last_of (map ht_addr us)) h =
        dup_loop (Some f) b (first (map ht_addr ts)) (last_of (map ht_addr (us @ [u]))) h2"
      using p(1) Some link(1) y u(1) by (subst dup_loop.simps) (simp add: first_def last_of_def)
    ultimately have "loop_result (\<forall>t \<in> set ts. height t \<le> k) h0 h2 b z (map (content_of h) us @ map (content_of h0) (t # ts))
        (dup_loop (Some f) b (first (map ht_addr (t # ts))) (last_of (map ht_addr us)) h)" using us(2) u2(2) by simp
    then show ?thesis using keep unfolding loop_result_def by (fastforce split: if_splits)
  qed
qed

section \<open>Copies\<close>

definition top_of :: "htree \<Rightarrow> htree" where
  "top_of t = HT (ht_addr t) (ht_item t) []"

lemma built_done:
  assumes "partial h h' b (copied x v s) us" and "texts_ok h' (sofar (copied x v s) us b)"
    and "content_of h' (sofar (copied x v s) us b) = content_of h t"
  shows "built C (copy_of t h) h (do { h \<leftarrow> close_list b (last_of (map ht_addr us)) h'; Some (Some b, h) })"
proof -
  define u where "u = sofar (copied x v s) us b"
  have u: "ht_addr u = b" by (simp add: u_def sofar_def)
  note c = partial_close[OF assms(1) copied_simps(4), folded u_def]
  have "texts_ok (put_list b (map ht_addr us) h') u \<and> content_of (put_list b (map ht_addr us) h') u = content_of h' u"
    by (rule content_kept) (use c assms(2) in \<open>auto simp: u_def\<close>)
  then show ?thesis using c u assms(3) by (auto simp: built_def copy_of_def u_def[symmetric] intro!: exI[of _ u])
qed

lemma dup_item_copies:
  assumes h: "alloc_ok h" "readable_tree h t" "texts_ok h t"
    and loop: "\<And>h' b v s. partial h h' b (copied (ht_item t) v s) [] \<Longrightarrow>
      loop_result C h h' b (copied (ht_item t) v s) (map (content_of h) (ht_kids t)) (dup_loop rec b (first (map ht_addr (ht_kids t))) None h')"
  shows "built (recurse \<longrightarrow> C) (copy_of (if recurse then t else top_of t) h) h (dup_item rec (Some (ht_addr t)) recurse h)"
proof -
  obtain a x ts where t: "t = HT a x ts" by (cases t)
  obtain y where y: "h_items h a = Some y" "strip y = x" using h(2) t by auto
  have same: "copied y v s = copied x v s" "i_valuestring y = i_valuestring x" "i_string y = i_string x" "i_child y = first (map ht_addr ts)" for v s
    using y(2) h(2) t by (auto simp: copied_def strip_def)
  have tx: "i_valuestring y \<noteq> None \<longrightarrow> text_at h (i_valuestring y) \<noteq> None" "i_string y \<noteq> None \<longrightarrow> text_at h (i_string y) \<noteq> None"
    using h(3) t same by auto
  show ?thesis
  proof (cases rule: dup_start[OF h(1) y(1) tx, of rec recurse])
    case (1 h')
    then show ?thesis using t by (simp add: built_def)
  next
    case (2 b v s h')
    note part = 2(2)[unfolded same]
    show ?thesis
    proof (cases recurse)
      case False
      have "built True (copy_of (top_of t) h) h (do { h \<leftarrow> close_list b (last_of (map ht_addr [])) h'; Some (Some b, h) })"
        by (rule built_done[OF part]) (use 2 same in \<open>auto simp: sofar_def t top_of_def\<close>)
      moreover have "close_list b (last_of (map ht_addr [])) h' = Some h'"
        using part by (auto simp: close_list_def last_of_def partial_def growing_def first_def)
      ultimately show ?thesis using False 2(1) t by simp
    next
      case True
      from loop[of h' b v s] part t obtain ok us h2 where l: "dup_loop rec b (first (map ht_addr ts)) None h' = Some (ok, last_of (map ht_addr us), h2)"
        "partial h h2 b (copied x v s) us" "\<forall>q. h_texts h' q \<noteq> None \<longrightarrow> h_texts h2 q = h_texts h' q"
        "if ok then list_all (texts_ok h2) us \<and> map (content_of h2) us = map (content_of h) ts else \<not> (C \<and> never_fails h)"
        by (auto simp: loop_result_def)
      show ?thesis
      proof (cases ok)
        case False
        from partial_fail[OF l(2) h(1)] obtain h3 where "dup_fail b h2 = Some (None, h3)" "extends {} {} h h3" by blast
        then show ?thesis using 2(1) True l False t same by (simp add: built_def)
      next
        case ok: True
        have kv: "text_at h2 v = text_at h' v" "text_at h2 s = text_at h' s" using text_at_kept[OF l(3)] 2(5,6) by auto
        have "built (recurse \<longrightarrow> C) (copy_of t h) h (do { h \<leftarrow> close_list b (last_of (map ht_addr us)) h2; Some (Some b, h) })"
          by (rule built_done[OF l(2)]) (use 2 l(4) ok kv same in \<open>auto simp: sofar_def t\<close>)
        then show ?thesis using 2(1) True l(1) ok t same by simp
      qed
    qed
  qed
qed

lemma height_kids: "height t \<le> Suc k \<longleftrightarrow> (\<forall>u \<in> set (ht_kids t). height u \<le> k)"
  by (cases t) auto

theorem duplicate_rec_copies:
  assumes "alloc_ok h" and "readable_tree h t" and "texts_ok h t"
  shows "built (recurse \<longrightarrow> height t \<le> k) (copy_of (if recurse then t else top_of t) h) h (cJSON_Duplicate_rec k (Some (ht_addr t)) recurse h)"
  using assms
proof (induction k arbitrary: h t recurse)
  case 0
  obtain a x ts where t: "t = HT a x ts" by (cases t)
  have "loop_result (height t \<le> 0) h h' b z (map (content_of h) (ht_kids t)) (dup_loop None b (first (map ht_addr (ht_kids t))) None h')"
    if "partial h h' b z []" for h' b z
    using that t by (cases ts) (auto simp: loop_result_def dup_loop.simps first_def last_of_def intro!: exI[of _ "[]"])
  then show ?case using dup_item_copies[OF 0, of "height t \<le> 0" None recurse] by (auto simp: built_def)
next
  case (Suc k)
  obtain a x ts where t: "t = HT a x ts" by (cases t)
  let ?f = "\<lambda>a. cJSON_Duplicate_rec k (Some a) True"
  have "loop_result (height t \<le> Suc k) h h' b (copied (ht_item t) v s) (map (content_of h) (ht_kids t)) (dup_loop (Some ?f) b (first (map ht_addr (ht_kids t))) None h')"
    if "partial h h' b (copied (ht_item t) v s) []" for h' b v s
  proof -
    have "loop_result (\<forall>u \<in> set ts. height u \<le> k) h h' b (copied (ht_item t) v s) (map (content_of h') [] @ map (content_of h) ts)
        (dup_loop (Some ?f) b (first (map ht_addr ts)) (last_of (map ht_addr [])) h')"
    proof (rule dup_loop_copies[OF _ _ _ _ _ _ that])
      show "built (height u \<le> k) (copy_of u g) g (?f (ht_addr u) g)" if "alloc_ok g" "readable_tree g u" "texts_ok g u" for u g
        using Suc.IH[OF that, of True] by simp
    qed (use Suc.prems t in auto)
    then show ?thesis using height_kids[of t k] t by (simp add: last_of_def)
  qed
  then show ?case using dup_item_copies[OF Suc.prems, of "height t \<le> Suc k" "Some ?f" recurse] by simp
qed

text \<open>A tree that was built can be deleted, which gives back all of its blocks and no others.\<close>

lemma built_deleted:
  assumes "alloc_ok h" and "built C Q h (Some (Some b, h'))"
  shows "\<exists>h''. cJSON_Delete (Some b) h' = Some h'' \<and> h_items h'' = h_items h \<and> h_texts h'' = h_texts h"
proof -
  from assms(2) obtain t where t: "ht_addr t = b" "owned h' [t]" "extends (set (item_addrs t)) (set (text_addrs t)) h h'"
    by (auto simp: built_def)
  have "cJSON_Delete (Some b) h' = Some (without (set (item_addrs t)) (set (text_addrs t)) h')"
    using delete_owned[OF t(2)] t(1) by simp
  then show ?thesis using extendsD(6,7)[OF extends_freed[OF t(3) assms(1)]] by auto
qed

end
