(* ===== verification/Cjson_Create.thy ===== *)
theory Cjson_Create
  imports Cjson_Copy
begin

text \<open>
  What the functions that make new items promise: the items of \<^verbatim>\<open>cJSON_CreateNumber\<close> and its siblings, of
  \<^verbatim>\<open>cJSON_CreateString\<close>, and the arrays of \<^verbatim>\<open>cJSON_CreateIntArray\<close> and its siblings.
\<close>

section \<open>Single items\<close>

definition has_content :: "content \<Rightarrow> heap_t \<Rightarrow> htree \<Rightarrow> bool" where
  "has_content c h t \<longleftrightarrow> texts_ok h t \<and> content_of h t = c"

lemma partial_single:
  assumes "partial h0 h b z []" and "i_child z = None" and "has_content c h (HT b z [])"
  shows "built C (has_content c) h0 (Some (Some b, h))"
proof -
  have s: "sofar z [] b = HT b z []" using assms(2) by (simp add: sofar_def)
  have "children h b []" using assms(1) by (auto simp: partial_def growing_def children_def)
  then show ?thesis using assms(1,3) unfolding partial_def s built_def by (auto intro!: exI[of _ "HT b z []"])
qed

lemma create_item_built:
  assumes "alloc_ok h" and "f blank_item = z" and "i_next z = None" "i_prev z = None" "i_child z = None" "\<not> i_IsReference z"
    "i_valuestring z = None" "i_string z = None"
  shows "built True (has_content (Content (i_kind z) (i_valueint z) (i_valuedouble z) None None (i_StringIsConst z) [])) h (create_item f h)"
proof (cases rule: new_item_cases[OF assms(1)])
  case (1 h')
  then show ?thesis by (simp add: create_item_def built_def)
next
  case (2 h')
  define b where "b = h_next h"
  let ?h = "h'\<lparr>h_items := (h_items h')(b \<mapsto> z)\<rparr>"
  have up: "upd b f h' = Some ?h" "extends {b} {} h ?h" using extends_upd[OF 2(2), of b blank_item f] 2(3) assms(2) by (simp_all add: b_def)
  have no: "own_texts z = []" using assms by (simp add: own_texts_def)
  have "partial h ?h b z []" by (rule partial_Nil) (use assms up no in auto)
  then have "built True (has_content (Content (i_kind z) (i_valueint z) (i_valuedouble z) None None (i_StringIsConst z) [])) h (Some (Some b, ?h))"
    by (rule partial_single) (use assms in \<open>simp_all add: has_content_def text_at_def\<close>)
  then show ?thesis using 2(1) up(1) by (simp add: create_item_def b_def)
qed

definition plain :: "kind \<Rightarrow> content" where
  "plain k = Content k 0 (Finite 0) None None False []"

lemma create_plain:
  assumes "alloc_ok h"
  shows "built True (has_content (plain K_NULL)) h (cJSON_CreateNull h)"
    and "built True (has_content (plain (if boolean then K_True else K_False))) h (cJSON_CreateBool boolean h)"
    and "built True (has_content (plain K_Array)) h (cJSON_CreateArray h)"
    and "built True (has_content (plain K_Object)) h (cJSON_CreateObject h)"
  using create_item_built[OF assms, of "\<lambda>x. x\<lparr>i_kind := k\<rparr>" for k, OF refl]
  unfolding cJSON_CreateNull_def cJSON_CreateBool_def cJSON_CreateArray_def cJSON_CreateObject_def plain_def
  by (simp_all add: blank_item_def)

lemma create_number:
  assumes "alloc_ok h"
  shows "built True (has_content (Content K_Number (saturate_int d) d None None False [])) h (cJSON_CreateNumber d h)"
  using create_item_built[OF assms refl, of "\<lambda>x. x\<lparr>i_kind := K_Number, i_valuedouble := d, i_valueint := saturate_int d\<rparr>"]
  unfolding cJSON_CreateNumber_def by (simp add: blank_item_def)

text \<open>A string or raw text is a copy; without memory for it the new item is given back.\<close>

lemma create_text_built:
  assumes "alloc_ok h" and "p \<noteq> None \<longrightarrow> text_at h p \<noteq> None"
  shows "built (p \<noteq> None) (has_content (Content k 0 (Finite 0) (text_at h p) None False [])) h (create_text k p h)"
proof (cases rule: new_item_cases[OF assms(1)])
  case (1 h')
  then show ?thesis by (simp add: create_text_def built_def)
next
  case (2 h1)
  define b where "b = h_next h"
  let ?z = "blank_item\<lparr>i_kind := k\<rparr>"
  let ?h = "h1\<lparr>h_items := (h_items h1)(b \<mapsto> ?z)\<rparr>"
  have up: "upd b (\<lambda>x. x\<lparr>i_kind := k\<rparr>) h1 = Some ?h" "extends {b} {} h ?h" "h_items ?h b = Some ?z"
    using extends_upd[OF 2(2), of b blank_item] 2(3) by (simp_all add: b_def)
  from dup_text[OF assms(1) up(2,3) assms(2), of "\<lambda>v y. y\<lparr>i_valuestring := v\<rparr>"] obtain v h3 h4 where
    v: "cJSON_strdup p ?h = Some (v, h3)" "upd b (\<lambda>y. y\<lparr>i_valuestring := v\<rparr>) h3 = Some h4"
      "h_items h4 b = Some (?z\<lparr>i_valuestring := v\<rparr>)" "extends {b} (set_option v) h h4"
      "if v = None then p \<noteq> None \<longrightarrow> \<not> never_fails h else text_at h4 v = text_at h p \<and> text_at h p \<noteq> None" by auto
  have own: "own_texts (?z\<lparr>i_valuestring := v\<rparr>) = (case v of None \<Rightarrow> [] | Some q \<Rightarrow> [q])"
    by (simp add: own_texts_def blank_item_def split: option.split)
  have part: "partial h h4 b (?z\<lparr>i_valuestring := v\<rparr>) []"
    by (rule partial_Nil[OF v(3)]) (use v(4,5) own in \<open>auto simp: blank_item_def text_at_def split: option.splits if_splits\<close>)
  have run: "create_text k p h = (if v = None then do { h \<leftarrow> cJSON_Delete (Some b) h4; Some (None, h) } else Some (Some b, h4))"
    using 2(1) up(1) v(1,2) by (simp add: create_text_def b_def)
  show ?thesis
  proof (cases "v = None")
    case True
    from partial_fail[OF part assms(1)] obtain h' where "cJSON_Delete (Some b) h4 = Some h'" "extends {} {} h h'" by blast
    then show ?thesis using run True v(5) by (auto simp: built_def)
  next
    case False
    have "built (p \<noteq> None) (has_content (Content k 0 (Finite 0) (text_at h p) None False [])) h (Some (Some b, h4))"
      by (rule partial_single[OF part]) (use False v(5) in \<open>auto simp: has_content_def text_at_def blank_item_def\<close>)
    then show ?thesis using run False by simp
  qed
qed

section \<open>Arrays\<close>

lemma built_weaken: "built C Q h r \<Longrightarrow> (C' \<Longrightarrow> C) \<Longrightarrow> built C' Q h r"
  unfolding built_def by (fastforce split: option.splits)

lemma create_loop_built:
  assumes elem: "\<And>v h I T. Some v \<in> set vs \<Longrightarrow> alloc_ok h \<Longrightarrow> extends I T h0 h \<Longrightarrow> built (C v) (has_content (g v)) h (create v h)"
    and "alloc_ok h0" "None \<notin> set vs"
    and z: "\<not> i_IsReference z" "i_valuestring z = None" "i_string z = None" and part: "partial h0 h b z us" "list_all (texts_ok h) us"
  shows "built (\<forall>v. Some v \<in> set vs \<longrightarrow> C v)
    (has_content (Content (i_kind z) (i_valueint z) (i_valuedouble z) None None (i_StringIsConst z) (map (content_of h) us @ map (g \<circ> the) vs)))
    h0 (create_loop create b (last_of (map ht_addr us)) vs h)"
  using assms
proof (induction vs arbitrary: us h)
  case Nil
  let ?h = "put_list b (map ht_addr us) h"
  define u where "u = sofar z us b"
  note c = partial_close[OF Nil.prems(7,4), folded u_def]
  have "texts_ok ?h u \<and> content_of ?h u = content_of h u"
    by (rule content_kept) (use c Nil.prems in \<open>auto simp: u_def sofar_def\<close>)
  moreover have "ht_addr u = b" "content_of h u = Content (i_kind z) (i_valueint z) (i_valuedouble z) None None (i_StringIsConst z) (map (content_of h) us)"
    using Nil.prems by (simp_all add: u_def sofar_def text_at_def)
  ultimately show ?case using c by (auto simp: built_def has_content_def intro!: exI[of _ u])
next
  case (Cons w vs)
  then obtain v where w: "w = Some v" by (cases w) auto
  have e: "extends (set (item_addrs (sofar z us b))) (set (text_addrs (sofar z us b))) h0 h" and ok: "alloc_ok h"
    using Cons.prems(7) extendsD(1) by (auto simp: partial_def)
  from Cons.prems(1)[OF _ ok e, of v] w obtain p h1 where p: "create v h = Some (p, h1)"
    "case p of None \<Rightarrow> extends {} {} h h1 \<and> \<not> (C v \<and> never_fails h)
     | Some n \<Rightarrow> \<exists>u. ht_addr u = n \<and> owned h1 [u] \<and> loose n h1 \<and> linked_tree h1 u \<and>
         extends (set (item_addrs u)) (set (text_addrs u)) h h1 \<and> has_content (g v) h1 u" by (auto simp: built_def)
  show ?case
  proof (cases p)
    case None
    then have f: "extends {} {} h h1" "\<not> (C v \<and> never_fails h0)" using p(2) extendsD(3)[OF e] by auto
    from partial_fail[OF partial_kept(1)[OF Cons.prems(7) f(1)] Cons.prems(2)] obtain h'
      where "cJSON_Delete (Some b) h1 = Some h'" "extends {} {} h0 h'" by blast
    then show ?thesis using p(1) None f w by (auto simp: built_def)
  next
    case (Some n)
    then obtain u where u: "ht_addr u = n" "owned h1 [u]" "loose (ht_addr u) h1" "linked_tree h1 u"
      "extends (set (item_addrs u)) (set (text_addrs u)) h h1" "texts_ok h1 u" "content_of h1 u = g v"
      using p(2) by (auto simp: has_content_def)
    define h2 where "h2 = h1\<lparr>h_items := linked_map b (map ht_addr us) (ht_addr u) (h_items h1)\<rparr>"
    have link: "link_child b (last_of (map ht_addr us)) n h1 = Some h2" "partial h0 h2 b z (us @ [u])"
      using partial_link[OF Cons.prems(7,4) u(2-5)] u(1) unfolding h2_def by auto
    have tx: "h_texts h2 = h_texts h1" by (simp add: h2_def)
    have keep: "\<forall>s. h_texts h s \<noteq> None \<longrightarrow> h_texts h2 s = h_texts h s" using old_text[OF ok u(5)] tx by auto
    have us: "list_all (texts_ok h2) us" "map (content_of h2) us = map (content_of h) us"
      using content_kept[OF keep] Cons.prems(8) by (auto simp: list_all_iff)
    have u2: "texts_ok h2 u" "content_of h2 u = g v" using content_kept[of h1 h2, OF _ u(6)] tx u(7) by auto
    have "built (\<forall>v. Some v \<in> set vs \<longrightarrow> C v)
      (has_content (Content (i_kind z) (i_valueint z) (i_valuedouble z) None None (i_StringIsConst z) (map (content_of h2) (us @ [u]) @ map (g \<circ> the) vs)))
      h0 (create_loop create b (last_of (map ht_addr (us @ [u]))) vs h2)"
      by (rule Cons.IH) (use Cons.prems link(2) us u2 in auto)
    moreover have "create_loop create b (last_of (map ht_addr us)) (w # vs) h = create_loop create b (last_of (map ht_addr (us @ [u]))) vs h2"
      using p(1) Some link(1) w u(1) by (simp add: last_of_def)
    ultimately show ?thesis using us(2) u2(2) w by (auto simp: comp_def elim: built_weaken)
  qed
qed

theorem create_array_built:
  assumes h: "alloc_ok h" and len: "nat len \<le> length ns"
    and elem: "\<And>v g I T. v \<in> set ns \<Longrightarrow> alloc_ok g \<Longrightarrow> extends I T h g \<Longrightarrow> built (C v) (has_content (c v)) g (create v g)"
  shows "built (0 \<le> len \<and> (\<forall>v \<in> set (take (nat len) ns). C v))
    (has_content (Content K_Array 0 (Finite 0) None None False (map c (take (nat len) ns)))) h (create_array create (Some ns) len h)"
proof (cases "len < 0")
  case True
  then show ?thesis using h by (simp add: create_array_def built_def)
next
  case False
  let ?vs = "map Some (take (nat len) ns)"
  have vs: "map (\<lambda>i. if i < length ns then Some (ns ! i) else None) [0..<nat len] = ?vs"
    using len by (intro nth_equalityI) auto
  show ?thesis
  proof (cases rule: new_item_cases[OF h])
    case (1 h')
    then show ?thesis using False by (simp add: create_array_def cJSON_CreateArray_def create_item_def built_def)
  next
    case (2 h1)
    define b where "b = h_next h"
    let ?z = "blank_item\<lparr>i_kind := K_Array\<rparr>"
    let ?h = "h1\<lparr>h_items := (h_items h1)(b \<mapsto> ?z)\<rparr>"
    have up: "upd b (\<lambda>x. x\<lparr>i_kind := K_Array\<rparr>) h1 = Some ?h" "extends {b} {} h ?h" "h_items ?h b = Some ?z"
      using extends_upd[OF 2(2), of b blank_item] 2(3) by (simp_all add: b_def)
    have "partial h ?h b ?z []" by (rule partial_Nil[OF up(3)]) (use up(2) in \<open>auto simp: blank_item_def own_texts_def\<close>)
    note loop = create_loop_built[where vs = ?vs and create = create and C = C and g = c, OF _ h _ _ _ _ this]
    have "built (\<forall>v. Some v \<in> set ?vs \<longrightarrow> C v) (has_content (Content K_Array 0 (Finite 0) None None False (map c (take (nat len) ns)))) h
        (create_loop create b None ?vs ?h)"
    proof -
      have "built (C v) (has_content (c v)) g (create v g)" if "Some v \<in> set ?vs" "alloc_ok g" "extends I T h g" for v g I T
        by (rule elem) (use that in \<open>auto dest: in_set_takeD\<close>)
      note loop[OF this, simplified]
      then show ?thesis by (simp add: blank_item_def last_of_def comp_def)
    qed
    moreover have "create_array create (Some ns) len h = create_loop create b None ?vs ?h"
      using False 2(1) up(1) vs by (simp add: create_array_def cJSON_CreateArray_def create_item_def b_def)
    ultimately show ?thesis by (auto elim: built_weaken)
  qed
qed

section \<open>Hooks\<close>

text \<open>The pointers to the functions that allocate: those of the C library, or others. \<^verbatim>\<open>realloc\<close> is used only with the
  functions of the C library.\<close>

datatype hook_fn = C_library | Custom nat

record internal_hooks =
  hook_allocate :: hook_fn
  hook_deallocate :: hook_fn
  hook_reallocate :: "hook_fn option"

definition cJSON_InitHooks :: "(hook_fn option \<times> hook_fn option) option \<Rightarrow> internal_hooks" where
  "cJSON_InitHooks hs =
     (case hs of
        None \<Rightarrow> \<lparr>hook_allocate = C_library, hook_deallocate = C_library, hook_reallocate = Some C_library\<rparr>
      | Some (malloc_fn, free_fn) \<Rightarrow>
          (let al = (case malloc_fn of Some f \<Rightarrow> f | None \<Rightarrow> C_library);
               de = (case free_fn of Some f \<Rightarrow> f | None \<Rightarrow> C_library)
           in \<lparr>hook_allocate = al, hook_deallocate = de,
                hook_reallocate = (if al = C_library \<and> de = C_library then Some C_library else None)\<rparr>))"

lemma realloc_of_library:
  "hook_reallocate (cJSON_InitHooks hs) \<noteq> None \<longleftrightarrow>
     hook_allocate (cJSON_InitHooks hs) = C_library \<and> hook_deallocate (cJSON_InitHooks hs) = C_library"
  by (auto simp: cJSON_InitHooks_def Let_def split: option.splits)

text \<open>The type of an item that \<^verbatim>\<open>cJSON_New_Item\<close> returns and nobody has set.\<close>

definition cJSON_IsInvalid :: "addr option \<Rightarrow> heap_t \<Rightarrow> bool option" where
  "cJSON_IsInvalid p h = (case p of None \<Rightarrow> Some False | Some a \<Rightarrow> do { x \<leftarrow> h_items h a; Some (i_kind x = K_Invalid) })"

lemma new_item_invalid:
  assumes "alloc_ok h" and "cJSON_New_Item h = (Some a, h')"
  shows "cJSON_IsInvalid (Some a) h' = Some True"
  by (cases rule: new_item_cases[OF assms(1)]) (use assms(2) in \<open>auto simp: cJSON_IsInvalid_def blank_item_def\<close>)

end
