(* ===== verification/Cjson_Edit.thy ===== *)
theory Cjson_Edit
  imports Cjson_Copy
begin

text \<open>
  Editing of trees as operations on lists of children: an interface of lists that items are appended to and
  removed from, of which \<^verbatim>\<open>add_item_to_array\<close> and \<^verbatim>\<open>cJSON_DetachItemViaPointer\<close> are an implementation, and the
  editing functions that delete what they take out.
\<close>

section \<open>Lists of items\<close>

text \<open>\<open>rep h cs\<close>: the list is \<open>cs\<close>; \<open>fresh i h\<close>: the item can be put into the list.\<close>

locale item_list =
  fixes rep :: "'h \<Rightarrow> 'a list \<Rightarrow> bool" and fresh :: "'a \<Rightarrow> 'h \<Rightarrow> bool"
    and append :: "'a \<Rightarrow> 'h \<Rightarrow> (bool \<times> 'h) option" and detach :: "'a \<Rightarrow> 'h \<Rightarrow> ('a option \<times> 'h) option"
  assumes append_law: "rep h cs \<Longrightarrow> fresh i h \<Longrightarrow>
      \<exists>h'. append i h = Some (True, h') \<and> rep h' (cs @ [i]) \<and> (\<forall>j. j \<noteq> i \<longrightarrow> fresh j h \<longrightarrow> fresh j h')"
    and detach_law: "rep h (us @ i # vs) \<Longrightarrow>
      \<exists>h'. detach i h = Some (Some i, h') \<and> rep h' (us @ vs) \<and> fresh i h' \<and> (\<forall>j. fresh j h \<longrightarrow> fresh j h')"
begin

primrec append_all :: "'a list \<Rightarrow> 'h \<Rightarrow> 'h option" where
  "append_all [] h = Some h"
| "append_all (i # is) h = do { (ok, h) \<leftarrow> append i h; append_all is h }"

primrec detach_all :: "'a list \<Rightarrow> 'h \<Rightarrow> 'h option" where
  "detach_all [] h = Some h"
| "detach_all (i # is) h = do { (p, h) \<leftarrow> detach i h; detach_all is h }"

lemma append_all_list:
  "rep h cs \<Longrightarrow> distinct is \<Longrightarrow> \<forall>i \<in> set is. fresh i h \<Longrightarrow> \<exists>h'. append_all is h = Some h' \<and> rep h' (cs @ is)"
proof (induction "is" arbitrary: h cs)
  case (Cons i "is")
  from append_law[OF Cons.prems(1), of i] Cons.prems(3) obtain h1 where h1: "append i h = Some (True, h1)" "rep h1 (cs @ [i])"
    "\<forall>j. j \<noteq> i \<longrightarrow> fresh j h \<longrightarrow> fresh j h1" by auto
  have "\<forall>j \<in> set is. fresh j h1" using h1(3) Cons.prems(2,3) by auto
  then show ?case using Cons.IH[OF h1(2)] Cons.prems(2) h1(1) by auto
qed auto

lemma detach_all_list:
  "rep h cs \<Longrightarrow> distinct is \<Longrightarrow> distinct cs \<Longrightarrow> set is \<subseteq> set cs \<Longrightarrow>
    \<exists>h'. detach_all is h = Some h' \<and> rep h' (filter (\<lambda>c. c \<notin> set is) cs) \<and> (\<forall>i \<in> set is. fresh i h')"
proof -
  have "rep h cs \<Longrightarrow> distinct is \<Longrightarrow> distinct cs \<Longrightarrow> set is \<subseteq> set cs \<Longrightarrow>
    \<exists>h'. detach_all is h = Some h' \<and> rep h' (filter (\<lambda>c. c \<notin> set is) cs) \<and> (\<forall>i \<in> set is. fresh i h') \<and> (\<forall>j. fresh j h \<longrightarrow> fresh j h')"
    for h cs
  proof (induction "is" arbitrary: h cs)
    case Nil
    then show ?case by (simp add: filter_True)
  next
    case (Cons i "is")
    then obtain us vs where cs: "cs = us @ i # vs" by (auto dest: split_list)
    from detach_law[OF Cons.prems(1)[unfolded cs]] obtain h1 where h1: "detach i h = Some (Some i, h1)" "rep h1 (us @ vs)" "fresh i h1"
      "\<forall>j. fresh j h \<longrightarrow> fresh j h1" by blast
    have sub: "set is \<subseteq> set (us @ vs)" using Cons.prems(2,4) cs by auto
    from Cons.IH[OF h1(2) _ _ sub] Cons.prems(2,3) cs obtain h2 where h2: "detach_all is h1 = Some h2"
      "rep h2 (filter (\<lambda>c. c \<notin> set is) (us @ vs))" "\<forall>i \<in> set is. fresh i h2" "\<forall>j. fresh j h1 \<longrightarrow> fresh j h2" by auto
    have "filter (\<lambda>c. c \<notin> set (i # is)) cs = filter (\<lambda>c. c \<notin> set is) (us @ vs)"
    proof -
      have "filter (\<lambda>c. c \<noteq> i \<and> c \<notin> set is) xs = filter (\<lambda>c. c \<notin> set is) xs" if "i \<notin> set xs" for xs
        by (rule filter_cong) (use that in auto)
      then show ?thesis using Cons.prems(3) cs by simp
    qed
    then show ?case using h1 h2 by auto
  qed
  then show "rep h cs \<Longrightarrow> distinct is \<Longrightarrow> distinct cs \<Longrightarrow> set is \<subseteq> set cs \<Longrightarrow>
    \<exists>h'. detach_all is h = Some h' \<and> rep h' (filter (\<lambda>c. c \<notin> set is) cs) \<and> (\<forall>i \<in> set is. fresh i h')" by blast
qed

text \<open>Items that were appended can be taken out again.\<close>

lemma append_detach:
  assumes "rep h cs" and "fresh i h"
  shows "\<exists>h1 h2. append i h = Some (True, h1) \<and> detach i h1 = Some (Some i, h2) \<and> rep h2 cs \<and> fresh i h2"
proof -
  obtain h1 where h1: "append i h = Some (True, h1)" "rep h1 (cs @ [i])" using append_law[OF assms] by blast
  then show ?thesis using detach_law[of h1 cs i "[]"] by auto
qed

end

section \<open>The children of an item\<close>

text \<open>Members of a list have a previous item, if only themselves, so items without one are in no list.\<close>

lemma before_in_in: "b \<in> set cs \<Longrightarrow> before_in p cs b \<noteq> None"
  by (induction cs arbitrary: p) auto

lemma prev_in_in: "b \<in> set cs \<Longrightarrow> prev_in cs b \<noteq> None"
  using before_in_in[of b cs] by (cases cs) (auto simp: prev_in_def)

lemma loose_outside: "children h a cs \<Longrightarrow> loose i h \<Longrightarrow> i \<notin> set cs"
  using prev_in_in[of i cs] by (fastforce simp: children_def loose_def)

definition fresh_for :: "addr \<Rightarrow> addr \<Rightarrow> heap_t \<Rightarrow> bool" where
  "fresh_for a i h \<longleftrightarrow> loose i h \<and> i \<noteq> a"

lemma children_after:
  assumes "children h a cs" and "set cs' \<subseteq> insert i (set cs)" and "distinct cs'" and "a \<notin> set cs'" and "h_items h i \<noteq> None"
  shows "children (put_list a cs' h) a cs'"
proof (rule children_put)
  show "\<forall>b \<in> set cs'. h_items h b \<noteq> None"
  proof
    fix b assume "b \<in> set cs'"
    then have "b = i \<or> b \<in> set cs" using assms(2) by auto
    then show "h_items h b \<noteq> None" using assms(1,5) by (auto simp: children_def)
  qed
qed (use assms in \<open>auto simp: children_def\<close>)

lemma fresh_kept:
  assumes "fresh_for a j h" and "j \<notin> set cs" shows "fresh_for a j (put_list a cs h)"
  using assms by (auto simp: fresh_for_def loose_def heap_simps)

lemma children_unlink: "children h a cs \<Longrightarrow> i \<noteq> a \<Longrightarrow> i \<notin> set cs \<Longrightarrow> children (unlink i h) a cs"
  by (auto simp: children_def unlink_def)

interpretation items: item_list "\<lambda>h. children h a" "fresh_for a" "\<lambda>i. add_item_to_array (Some a) (Some i)"
    "\<lambda>i. cJSON_DetachItemViaPointer (Some a) (Some i)" for a
proof
  fix h cs i assume c: "children h a cs" and f: "fresh_for a i h"
  have i: "loose i h" "i \<notin> set cs" "i \<noteq> a" using f loose_outside[OF c] by (auto simp: fresh_for_def)
  have "children (put_list a (cs @ [i]) h) a (cs @ [i])"
    by (rule children_after[OF c, of _ i]) (use c i in \<open>auto simp: children_def loose_def\<close>)
  moreover have "fresh_for a j (put_list a (cs @ [i]) h)" if "j \<noteq> i" "fresh_for a j h" for j
    by (rule fresh_kept) (use that loose_outside[OF c, of j] in \<open>auto simp: fresh_for_def\<close>)
  ultimately show "\<exists>h'. add_item_to_array (Some a) (Some i) h = Some (True, h') \<and> children h' a (cs @ [i]) \<and>
      (\<forall>j. j \<noteq> i \<longrightarrow> fresh_for a j h \<longrightarrow> fresh_for a j h')" using add_item_to_array_list[OF c i] by blast
next
  fix h us i vs assume c: "children h a (us @ i # vs)"
  let ?h = "put_list a (us @ vs) h"
  note out = childrenD(1-6)[OF c]
  have h: "h_items h i \<noteq> None" using c by (auto simp: children_def)
  have put: "children ?h a (us @ vs)" by (rule children_after[OF c, of _ i]) (use out h in auto)
  have "children (unlink i ?h) a (us @ vs)" by (rule children_unlink[OF put]) (use out in auto)
  moreover have "fresh_for a i (unlink i ?h)"
    using h out by (auto simp: fresh_for_def loose_def unlink_def heap_simps)
  moreover have "fresh_for a j (unlink i ?h)" if "fresh_for a j h" for j
  proof -
    have j: "j \<notin> set (us @ i # vs)" using loose_outside[OF c] that by (auto simp: fresh_for_def)
    then have "fresh_for a j ?h" by (intro fresh_kept that) auto
    then show ?thesis using j by (auto simp: fresh_for_def loose_def unlink_def)
  qed
  ultimately show "\<exists>h'. cJSON_DetachItemViaPointer (Some a) (Some i) h = Some (Some i, h') \<and> children h' a (us @ vs) \<and>
      fresh_for a i h' \<and> (\<forall>j. fresh_for a j h \<longrightarrow> fresh_for a j h')" using detach_list[OF c] by blast
qed

section \<open>Size and names\<close>

lemma children_chained: "children h a cs \<Longrightarrow> chained h cs"
  by (rule chained_next) (auto simp: children_def)

lemma count_next_list: "chained h cs \<Longrightarrow> count_next (first cs) n h = Some (n + length cs)"
proof (induction cs arbitrary: n)
  case (Cons c cs)
  then show ?case by (subst count_next.simps) auto
qed (simp add: count_next.simps)

lemma get_array_size:
  assumes "children h a cs"
  shows "cJSON_GetArraySize_at (Some a) h = Some (wrap32 (int (length cs)))"
  using assms count_next_list[OF children_chained[OF assms], of 0] by (auto simp: cJSON_GetArraySize_at_def children_def)

definition named :: "heap_t \<Rightarrow> addr \<Rightarrow> string \<Rightarrow> bool" where
  "named h c name \<longleftrightarrow> (\<exists>x s. h_items h c = Some x \<and> i_string x = Some s \<and> h_texts h s = Some name)"

text \<open>The first member whose name fits.\<close>

definition member_named :: "bool \<Rightarrow> string \<Rightarrow> addr list \<Rightarrow> string list \<Rightarrow> addr option" where
  "member_named case_sensitive name cs ks =
     map_option fst (List.find (\<lambda>m. same_name case_sensitive name (Some (snd m))) (zip cs ks))"

lemma find_name_list:
  "list_all2 (named h) cs ks \<Longrightarrow> chained h cs \<Longrightarrow> find_name case_sensitive name (first cs) h = Some (member_named case_sensitive name cs ks)"
proof (induction rule: list_all2_induct)
  case Nil
  then show ?case by (simp add: find_name.simps member_named_def)
next
  case (Cons c cs k ks)
  then show ?case by (subst find_name.simps) (auto simp: named_def name_at_def member_named_def)
qed

lemma member_named_in: "member_named case_sensitive name cs ks = Some c \<Longrightarrow> c \<in> set cs"
  by (auto simp: member_named_def find_Some_iff set_zip dest!: in_set_zipE[rotated] intro: nth_mem)

lemma get_object_item_list:
  assumes "children h a cs" and "list_all2 (named h) cs ks" and "h_texts h n = Some name"
  shows "get_object_item_at (Some a) (Some n) case_sensitive h = Some (member_named case_sensitive name cs ks)"
proof -
  obtain x where x: "h_items h a = Some x" "i_child x = first cs" using assms(1) by (auto simp: children_def)
  have f: "find_name case_sensitive name (first cs) h = Some (member_named case_sensitive name cs ks)"
    by (rule find_name_list[OF assms(2) children_chained[OF assms(1)]])
  show ?thesis
  proof (cases "member_named case_sensitive name cs ks")
    case None
    then show ?thesis using x f assms(3) by (simp add: get_object_item_at_def)
  next
    case (Some c)
    obtain i where "i < length cs" "c = cs ! i" using member_named_in[OF Some] by (auto simp: in_set_conv_nth)
    then have "named h c (ks ! i)" using assms(2) by (auto simp: list_all2_conv_all_nth)
    then show ?thesis using x f assms(3) Some by (auto simp: get_object_item_at_def named_def)
  qed
qed

section \<open>Taking out and deleting\<close>

text \<open>The tree \<open>t\<close> is the item \<open>i\<close> of a list with all that it owns, apart from the other items of the list.\<close>

definition member_tree :: "heap_t \<Rightarrow> addr \<Rightarrow> addr list \<Rightarrow> htree \<Rightarrow> bool" where
  "member_tree h a cs t \<longleftrightarrow> holds h t \<and> distinct (item_addrs t) \<and> distinct (text_addrs t) \<and>
     set (item_addrs t) \<inter> insert a (set cs) = {}"

text \<open>The list is \<open>cs\<close>, the blocks of the tree are free, and nothing else has changed.\<close>

definition taken_out :: "heap_t \<Rightarrow> addr \<Rightarrow> addr list \<Rightarrow> htree \<Rightarrow> heap_t \<Rightarrow> bool" where
  "taken_out h a cs t h' \<longleftrightarrow> children h' a cs \<and> (\<forall>b \<in> set (item_addrs t). h_items h' b = None) \<and>
     (\<forall>s. h_texts h' s = (if s \<in> set (text_addrs t) then None else h_texts h s)) \<and>
     (\<forall>b. b \<notin> set (item_addrs t) \<and> b \<noteq> a \<and> b \<notin> set cs \<longrightarrow> h_items h' b = h_items h b)"

lemma children_without: "children h a cs \<Longrightarrow> I \<inter> insert a (set cs) = {} \<Longrightarrow> children (without I T h) a cs"
  by (auto simp: children_def disjoint_iff)

text \<open>After the tree has been taken out of the list, it can be deleted.\<close>

lemma delete_unlinked:
  assumes c: "children h a (us @ i # vs)" and t: "ht_addr t = i" "member_tree h a (us @ vs) t"
    and cs: "children (put_list a cs h) a cs" "set cs \<inter> set (item_addrs t) = {}"
  shows "\<exists>h'. cJSON_Delete (Some i) (unlink i (put_list a cs h)) = Some h' \<and> taken_out h a cs t h'"
proof -
  let ?h = "unlink i (put_list a cs h)"
  note m = t(2)[unfolded member_tree_def]
  have i: "i \<in> set (item_addrs t)" using ht_addr_in[of t] t(1) by simp
  have same: "h_items ?h b = h_items h b" if "b \<notin> insert a (set cs)" "b \<noteq> i" for b using that by (simp add: unlink_def heap_simps)
  have kids: "b \<noteq> i \<and> b \<in> set (item_addrs t)" if "b \<in> set (items_of (ht_kids t))" for b
    using that m t(1) by (cases t) auto
  have "holds ?h t"
  proof (rule holds_root)
    have "i \<notin> insert a (set cs)" using i m cs(2) by auto
    then show "map_option strip (h_items ?h (ht_addr t)) = map_option strip (h_items h (ht_addr t))"
      using t(1) by (simp add: unlink_def heap_simps option.map_comp comp_def strip_def[abs_def])
    show "\<forall>b \<in> set (items_of (ht_kids t)). h_items ?h b = h_items h b" using kids m cs(2) same by (fastforce simp: disjoint_iff)
  qed (use m in \<open>simp_all add: unlink_def heap_simps\<close>)
  moreover have "h_items h i \<noteq> None" using c by (auto simp: children_def)
  moreover have "i \<notin> insert a (set cs)" using i m cs(2) by auto
  ultimately have "owned ?h [t]" using m t(1) by (auto simp: owned_def unlink_def heap_simps)
  from delete_owned[OF this] have d: "cJSON_Delete (Some i) ?h = Some (without (set (item_addrs t)) (set (text_addrs t)) ?h)"
    using t(1) by simp
  have out: "i \<noteq> a" "i \<notin> set cs" "a \<notin> set (item_addrs t)" using i m cs(2) by auto
  have "children ?h a cs" by (rule children_unlink[OF cs(1) out(1,2)])
  then have "children (without (set (item_addrs t)) (set (text_addrs t)) ?h) a cs"
    by (rule children_without) (use out cs(2) in auto)
  then show ?thesis using d same i by (auto simp: unlink_def heap_simps taken_out_def)
qed

theorem delete_from_array:
  assumes c: "children h a (us @ i # vs)" and t: "ht_addr t = i" "member_tree h a (us @ vs) t"
  shows "\<exists>h'. cJSON_DeleteItemFromArray (Some a) (int (length us)) h = Some h' \<and> taken_out h a (us @ vs) t h'"
proof -
  note out = childrenD(1-6)[OF c]
  have "children (put_list a (us @ vs) h) a (us @ vs)"
    by (rule children_after[OF c, of _ i]) (use out c in \<open>auto simp: children_def\<close>)
  then have "\<exists>h'. cJSON_Delete (Some i) (unlink i (put_list a (us @ vs) h)) = Some h' \<and> taken_out h a (us @ vs) t h'"
    by (rule delete_unlinked[OF c t]) (use t in \<open>auto simp: member_tree_def\<close>)
  moreover have "cJSON_DetachItemFromArray (Some a) (int (length us)) h = Some (Some i, unlink i (put_list a (us @ vs) h))"
    using get_array_item_list[OF c, of "length us"] detach_list[OF c] by (simp add: cJSON_DetachItemFromArray_def)
  ultimately show ?thesis by (simp add: cJSON_DeleteItemFromArray_def)
qed

theorem replace_in_array:
  assumes c: "children h a (us @ i # vs)" and t: "ht_addr t = i" "member_tree h a (r # us @ vs) t"
    and r: "h_items h r \<noteq> None" "r \<notin> set (us @ i # vs)" "r \<noteq> a"
  shows "\<exists>h'. cJSON_ReplaceItemInArray (Some a) (int (length us)) (Some r) h = Some (True, h') \<and> taken_out h a (us @ r # vs) t h'"
proof -
  note out = childrenD(1-6)[OF c]
  have tt: "member_tree h a (us @ vs) t" using t(2) by (auto simp: member_tree_def)
  have "children (put_list a (us @ r # vs) h) a (us @ r # vs)"
    by (rule children_after[OF c, of _ r]) (use out r in auto)
  then have "\<exists>h'. cJSON_Delete (Some i) (unlink i (put_list a (us @ r # vs) h)) = Some h' \<and> taken_out h a (us @ r # vs) t h'"
    by (rule delete_unlinked[OF c t(1) tt]) (use t in \<open>auto simp: member_tree_def\<close>)
  moreover have "get_array_item (Some a) (length us) h = Some (Some i)" using get_array_item_list[OF c, of "length us"] by simp
  ultimately show ?thesis using replace_list[OF c r] by (auto simp: cJSON_ReplaceItemInArray_def)
qed

section \<open>By index\<close>

text \<open>The list without its element at an index, and with a new one before it; at an index behind the end the new
  element is the last one.\<close>

definition remove_at :: "nat \<Rightarrow> 'a list \<Rightarrow> 'a list" where
  "remove_at n cs = take n cs @ drop (Suc n) cs"

definition insert_at :: "nat \<Rightarrow> 'a \<Rightarrow> 'a list \<Rightarrow> 'a list" where
  "insert_at n i cs = take n cs @ i # drop n cs"

lemma insert_at_index:
  assumes c: "children h a cs" and i: "loose i h" "i \<noteq> a"
  shows "\<exists>h'. cJSON_InsertItemInArray (Some a) (int n) (Some i) h = Some (True, h') \<and> children h' a (insert_at n i cs)"
proof -
  note out = loose_outside[OF c i(1)]
  have kids: "children (put_list a (insert_at n i cs) h) a (insert_at n i cs)"
  proof (rule children_after[OF c, of _ i])
    show "set (insert_at n i cs) \<subseteq> insert i (set cs)" by (auto simp: insert_at_def dest: in_set_takeD in_set_dropD)
    have "distinct cs" using c by (simp add: children_def)
    then show "distinct (insert_at n i cs)" using out set_take_disj_set_drop_if_distinct[of cs n n] by (auto simp: insert_at_def dest: in_set_takeD in_set_dropD)
    show "a \<notin> set (insert_at n i cs)" using c i(2) by (auto simp: insert_at_def children_def dest: in_set_takeD in_set_dropD)
  qed (use i(1) in \<open>auto simp: loose_def\<close>)
  have "cJSON_InsertItemInArray (Some a) (int n) (Some i) h = Some (True, put_list a (insert_at n i cs) h)"
  proof (cases "n < length cs")
    case True
    have "cJSON_InsertItemInArray (Some a) (int (length (take n cs))) (Some i) h = Some (True, put_list a (take n cs @ i # drop n cs) h)"
      by (rule insert_list) (use c True i out in \<open>auto simp: loose_def\<close>)
    then show ?thesis using True by (simp add: insert_at_def)
  next
    case False
    then show ?thesis using get_array_item_list[OF c, of n] add_item_to_array_list[OF c i(1) out i(2)]
      by (simp add: cJSON_InsertItemInArray_def insert_at_def)
  qed
  then show ?thesis using kids by blast
qed

lemma detach_at_index:
  assumes c: "children h a cs"
  shows "n < length cs \<Longrightarrow> \<exists>h'. cJSON_DetachItemFromArray (Some a) (int n) h = Some (Some (cs ! n), h') \<and> children h' a (remove_at n cs) \<and> loose (cs ! n) h'"
    and "length cs \<le> n \<Longrightarrow> cJSON_DetachItemFromArray (Some a) (int n) h = Some (None, h)"
proof -
  assume n: "n < length cs"
  have cs: "cs = take n cs @ cs ! n # drop (Suc n) cs" by (rule id_take_nth_drop[OF n])
  have "children h a (take n cs @ cs ! n # drop (Suc n) cs)" using c cs by simp
  from items.detach_law[OF this] get_array_item_list[OF c, of n] n
  show "\<exists>h'. cJSON_DetachItemFromArray (Some a) (int n) h = Some (Some (cs ! n), h') \<and> children h' a (remove_at n cs) \<and> loose (cs ! n) h'"
    by (auto simp: cJSON_DetachItemFromArray_def remove_at_def fresh_for_def)
next
  assume n: "length cs \<le> n"
  obtain x where "h_items h a = Some x" using c by (auto simp: children_def)
  then show "cJSON_DetachItemFromArray (Some a) (int n) h = Some (None, h)"
    using get_array_item_list[OF c, of n] n by (simp add: cJSON_DetachItemFromArray_def cJSON_DetachItemViaPointer_def)
qed

lemma delete_at_index:
  assumes c: "children h a cs" and n: "n < length cs" and t: "ht_addr t = cs ! n" "member_tree h a (remove_at n cs) t"
  shows "\<exists>h'. cJSON_DeleteItemFromArray (Some a) (int n) h = Some h' \<and> taken_out h a (remove_at n cs) t h'"
proof -
  have "children h a (take n cs @ cs ! n # drop (Suc n) cs)" using c id_take_nth_drop[OF n] by simp
  from delete_from_array[OF this t(1) t(2)[unfolded remove_at_def]] show ?thesis using n by (simp add: remove_at_def)
qed

lemma replace_at_index:
  assumes c: "children h a cs" and n: "n < length cs" and i: "loose i h" "i \<noteq> a"
    and t: "ht_addr t = cs ! n" "member_tree h a (i # remove_at n cs) t"
  shows "\<exists>h'. cJSON_ReplaceItemInArray (Some a) (int n) (Some i) h = Some (True, h') \<and> taken_out h a (cs[n := i]) t h'"
proof -
  have cs: "cs = take n cs @ cs ! n # drop (Suc n) cs" by (rule id_take_nth_drop[OF n])
  then have c': "children h a (take n cs @ cs ! n # drop (Suc n) cs)" using c by simp
  have "i \<notin> set (take n cs @ cs ! n # drop (Suc n) cs)" using loose_outside[OF c i(1)] cs by metis
  from replace_in_array[OF c' t(1) t(2)[unfolded remove_at_def] _ this i(2)] i(1) show ?thesis
    using n by (auto simp: upd_conv_take_nth_drop[OF n] loose_def)
qed

text \<open>A copy, and what is left after it has been deleted.\<close>

lemma duplicate_separate:
  assumes "alloc_ok h" and "readable_tree h t" and "texts_ok h t"
  shows "\<exists>p h'. cJSON_Duplicate (Some (ht_addr t)) True h = Some (p, h') \<and>
    (case p of
       None \<Rightarrow> h_items h' = h_items h \<and> h_texts h' = h_texts h \<and> (CJSON_CIRCULAR_LIMIT < height t \<or> \<not> never_fails h)
     | Some b \<Rightarrow> (\<exists>u. ht_addr u = b \<and> content_of h' u = content_of h t \<and> linked_tree h' u \<and>
         (\<forall>c x. h_items h c = Some x \<longrightarrow> c \<notin> set (item_addrs u) \<and> h_items h' c = Some x) \<and>
         (\<forall>s x. h_texts h s = Some x \<longrightarrow> s \<notin> set (text_addrs u) \<and> h_texts h' s = Some x)) \<and>
         (\<exists>h''. cJSON_Delete (Some b) h' = Some h'' \<and> h_items h'' = h_items h \<and> h_texts h'' = h_texts h))"
proof -
  have b: "built (height t \<le> CJSON_CIRCULAR_LIMIT) (copy_of t h) h (cJSON_Duplicate (Some (ht_addr t)) True h)"
    using duplicate_rec_copies[OF assms, of True CJSON_CIRCULAR_LIMIT] by (simp add: cJSON_Duplicate_def)
  then obtain p h' where r: "cJSON_Duplicate (Some (ht_addr t)) True h = Some (p, h')" by (auto simp: built_def)
  show ?thesis
  proof (cases p)
    case None
    then have "extends {} {} h h'" "\<not> (height t \<le> CJSON_CIRCULAR_LIMIT \<and> never_fails h)" using b r by (auto simp: built_def)
    then show ?thesis using r None extendsD(6,7)[of "{}" "{}" h h'] by (auto simp: fun_eq_iff)
  next
    case (Some q)
    from b r Some obtain u where u: "ht_addr u = q" "linked_tree h' u" "extends (set (item_addrs u)) (set (text_addrs u)) h h'" "copy_of t h h' u"
      by (auto simp: built_def)
    have "(\<forall>c x. h_items h c = Some x \<longrightarrow> c \<notin> set (item_addrs u) \<and> h_items h' c = Some x)"
      "(\<forall>s x. h_texts h s = Some x \<longrightarrow> s \<notin> set (text_addrs u) \<and> h_texts h' s = Some x)"
      using old_address[OF assms(1) u(3)] old_item[OF assms(1) u(3)] old_text[OF assms(1) u(3)] by auto
    moreover have "\<exists>h''. cJSON_Delete (Some q) h' = Some h'' \<and> h_items h'' = h_items h \<and> h_texts h'' = h_texts h"
      by (rule built_deleted[OF assms(1)]) (use b r Some in simp)
    ultimately show ?thesis using r Some u(1,2,4) by (auto simp: copy_of_def)
  qed
qed

end
