(* ===== verification/Cjson_Compare.thy ===== *)
theory Cjson_Compare
  imports Cjson_Print "HOL-Library.Multiset"
begin

text \<open>
  \<^verbatim>\<open>cJSON_Compare\<close> of \<^verbatim>\<open>extern/cJSON/cJSON.c\<close> and the predicates on the type of an item. Two trees that share
  no items are compared; whether the two pointers are the same one is the argument \<open>same\<close>.
\<close>

section \<open>The code\<close>

definition cJSON_IsFalse :: "cJSON option \<Rightarrow> bool" where
  "cJSON_IsFalse item \<longleftrightarrow> item = Some cJSON_False"

definition cJSON_IsTrue :: "cJSON option \<Rightarrow> bool" where
  "cJSON_IsTrue item \<longleftrightarrow> item = Some cJSON_True"

definition cJSON_IsBool :: "cJSON option \<Rightarrow> bool" where
  "cJSON_IsBool item \<longleftrightarrow> item = Some cJSON_True \<or> item = Some cJSON_False"

definition cJSON_IsNull :: "cJSON option \<Rightarrow> bool" where
  "cJSON_IsNull item \<longleftrightarrow> item = Some cJSON_NULL"

definition cJSON_IsObject :: "cJSON option \<Rightarrow> bool" where
  "cJSON_IsObject item = (case item of Some (cJSON_Object _) \<Rightarrow> True | _ \<Rightarrow> False)"

definition cJSON_IsRaw :: "cJSON option \<Rightarrow> bool" where
  "cJSON_IsRaw item = (case item of Some (cJSON_Raw _) \<Rightarrow> True | _ \<Rightarrow> False)"

text \<open>The value \<open>None\<close> of a number is \<^verbatim>\<open>NAN\<close>.\<close>

definition cJSON_GetStringValue :: "cJSON option \<Rightarrow> string option" where
  "cJSON_GetStringValue item = (case item of Some v \<Rightarrow> if cJSON_IsString v then Some (valuestring v) else None | None \<Rightarrow> None)"

definition cJSON_GetNumberValue :: "cJSON option \<Rightarrow> double option" where
  "cJSON_GetNumberValue item = (case item of Some v \<Rightarrow> if cJSON_IsNumber v then Some (valuedouble v) else None | None \<Rightarrow> None)"

definition cJSON_GetObjectItemCaseSensitive :: "cJSON \<Rightarrow> string \<Rightarrow> cJSON option" where
  "cJSON_GetObjectItemCaseSensitive obj name = get_object_item obj name True"

definition cJSON_HasObjectItem :: "cJSON \<Rightarrow> string \<Rightarrow> bool" where
  "cJSON_HasObjectItem obj name \<longleftrightarrow> cJSON_GetObjectItem obj name \<noteq> None"

lemma get_member:
  "get_object_item (cJSON_Object ns) name cs = map_option snd (List.find (\<lambda>n. same_name cs name (Some (fst n))) ns)"
  by (induction ns) (auto simp: get_object_item_def child_def)

lemma get_member_Some:
  assumes "get_object_item (cJSON_Object ns) name cs = Some w"
  shows "\<exists>k. (k, w) \<in> set ns \<and> same_name cs name (Some k)"
proof -
  from assms obtain x where x: "List.find (\<lambda>n. same_name cs name (Some (fst n))) ns = Some x" "w = snd x" by (auto simp: get_member)
  then have "x \<in> set ns" "same_name cs name (Some (fst x))" by (auto simp: find_Some_iff)
  then show ?thesis using x(2) by (intro exI[of _ "fst x"]) simp
qed

definition compare_size :: "bool \<times> cJSON \<times> cJSON + bool \<times> cJSON list \<times> cJSON list \<Rightarrow> nat" where
  "compare_size x = (case x of Inl (cs, a, b) \<Rightarrow> size a + size b | Inr (cs, vs, ws) \<Rightarrow> size_list size vs + size_list size ws)"

lemma member_size: "(k, v) \<in> set ms \<Longrightarrow> size v < size (cJSON_Object ms)"
  by (induction ms) auto

lemma get_member_size: "get_object_item (cJSON_Object ns) name cs = Some w \<Longrightarrow> size w < size (cJSON_Object ns)"
  using get_member_Some member_size by blast

text \<open>The switch over the type, the loop over the elements of two arrays and the two loops over members.\<close>

function compare_items :: "bool \<Rightarrow> cJSON \<Rightarrow> cJSON \<Rightarrow> bool"
  and compare_elements :: "bool \<Rightarrow> cJSON list \<Rightarrow> cJSON list \<Rightarrow> bool" where
  "compare_items cs a b =
     (case a of
        cJSON_NULL \<Rightarrow> b = cJSON_NULL
      | cJSON_False \<Rightarrow> b = cJSON_False
      | cJSON_True \<Rightarrow> b = cJSON_True
      | cJSON_Number d i \<Rightarrow> (case b of cJSON_Number e j \<Rightarrow> compare_double d e | _ \<Rightarrow> False)
      | cJSON_String s \<Rightarrow> (case b of cJSON_String t \<Rightarrow> c_string s = c_string t | _ \<Rightarrow> False)
      | cJSON_Raw s \<Rightarrow> (case b of cJSON_Raw t \<Rightarrow> c_string s = c_string t | _ \<Rightarrow> False)
      | cJSON_Array vs \<Rightarrow> (case b of cJSON_Array ws \<Rightarrow> compare_elements cs vs ws | _ \<Rightarrow> False)
      | cJSON_Object ms \<Rightarrow>
          (case b of
             cJSON_Object ns \<Rightarrow>
               (\<forall>m \<in> set ms. case get_object_item b (fst m) cs of None \<Rightarrow> False | Some w \<Rightarrow> compare_items cs (snd m) w) \<and>
               (\<forall>n \<in> set ns. case get_object_item a (fst n) cs of None \<Rightarrow> False | Some v \<Rightarrow> compare_items cs (snd n) v)
           | _ \<Rightarrow> False))"
| "compare_elements cs vs ws =
     (case (vs, ws) of
        (v # vs, w # ws) \<Rightarrow> compare_items cs v w \<and> compare_elements cs vs ws
      | ([], []) \<Rightarrow> True
      | _ \<Rightarrow> False)"
  by pat_completeness auto

termination
proof (relation "measure compare_size")
  fix cs a b ms ns m w assume "a = cJSON_Object ms" "b = cJSON_Object ns" "m \<in> set ms" "get_object_item b (fst m) cs = Some w"
  then show "(Inl (cs, snd m, w), Inl (cs, a, b)) \<in> measure compare_size"
    using get_member_size[of ns "fst m" cs w] member_size[of "fst m" "snd m" ms] by (simp add: compare_size_def)
next
  fix cs a b ms ns n v assume "a = cJSON_Object ms" "b = cJSON_Object ns" "n \<in> set ns" "get_object_item a (fst n) cs = Some v"
  then show "(Inl (cs, snd n, v), Inl (cs, a, b)) \<in> measure compare_size"
    using get_member_size[of ms "fst n" cs v] member_size[of "fst n" "snd n" ns] by (simp add: compare_size_def)
qed (auto simp: compare_size_def)

declare compare_items.simps [simp del] compare_elements.simps [simp del]

definition cJSON_Compare :: "cJSON option \<Rightarrow> cJSON option \<Rightarrow> bool \<Rightarrow> bool \<Rightarrow> bool" where
  "cJSON_Compare a b same case_sensitive =
     (case (a, b) of (Some a, Some b) \<Rightarrow> same \<or> compare_items case_sensitive a b | _ \<Rightarrow> False)"

section \<open>Equations\<close>

lemma compare_elements_list [simp]: "compare_elements cs vs ws = list_all2 (compare_items cs) vs ws"
proof (induction vs arbitrary: ws)
  case Nil
  then show ?case by (cases ws) (simp_all add: compare_elements.simps[of cs "[]"])
next
  case (Cons v vs)
  then show ?case by (cases ws) (simp_all add: compare_elements.simps[of cs "v # vs"])
qed

text \<open>The members of one object that the other one lacks or has with another value.\<close>

definition members_in :: "bool \<Rightarrow> (string \<times> cJSON) list \<Rightarrow> (string \<times> cJSON) list \<Rightarrow> bool" where
  "members_in cs ms ns \<longleftrightarrow> (\<forall>m \<in> set ms. \<exists>w. get_object_item (cJSON_Object ns) (fst m) cs = Some w \<and> compare_items cs (snd m) w)"

lemma compare_simps [simp]:
  "compare_items cs cJSON_NULL b \<longleftrightarrow> b = cJSON_NULL"
  "compare_items cs cJSON_False b \<longleftrightarrow> b = cJSON_False"
  "compare_items cs cJSON_True b \<longleftrightarrow> b = cJSON_True"
  "compare_items cs (cJSON_Number d i) b \<longleftrightarrow> (\<exists>e j. b = cJSON_Number e j \<and> compare_double d e)"
  "compare_items cs (cJSON_String s) b \<longleftrightarrow> (\<exists>t. b = cJSON_String t \<and> c_string s = c_string t)"
  "compare_items cs (cJSON_Raw s) b \<longleftrightarrow> (\<exists>t. b = cJSON_Raw t \<and> c_string s = c_string t)"
  "compare_items cs (cJSON_Array vs) b \<longleftrightarrow> (\<exists>ws. b = cJSON_Array ws \<and> list_all2 (compare_items cs) vs ws)"
  "compare_items cs (cJSON_Object ms) b \<longleftrightarrow> (\<exists>ns. b = cJSON_Object ns \<and> members_in cs ms ns \<and> members_in cs ns ms)"
proof -
  have opt: "(case x of None \<Rightarrow> False | Some w \<Rightarrow> P w) \<longleftrightarrow> (\<exists>w. x = Some w \<and> P w)" for x :: "cJSON option" and P by (cases x) auto
  show "compare_items cs (cJSON_Object ms) b \<longleftrightarrow> (\<exists>ns. b = cJSON_Object ns \<and> members_in cs ms ns \<and> members_in cs ns ms)"
    by (subst compare_items.simps) (auto simp: members_in_def opt split: cJSON.splits)
qed (subst compare_items.simps; auto split: cJSON.splits)+

section \<open>Symmetry\<close>

lemma compare_double_sym: "compare_double d e = compare_double e d"
proof (cases d; cases e)
  fix x y assume d: "d = Finite x" "e = Finite y"
  have m: "(if \<bar>b\<bar> < \<bar>a\<bar> then \<bar>a\<bar> else \<bar>b\<bar>) = max \<bar>a\<bar> \<bar>b\<bar>" for a b :: rat by simp
  show ?thesis unfolding d compare_double_def Let_def prod.case double.case m max.commute[of "\<bar>y\<bar>"] abs_minus_commute[of y] by (rule refl)
qed (auto simp: compare_double_def)

lemma compare_sym: "compare_items cs a b = compare_items cs b a"
proof (induction a arbitrary: b)
  case (cJSON_Number d i)
  then show ?case by (cases b) (auto simp: compare_double_sym)
next
  case (cJSON_Array vs)
  have "list_all2 (compare_items cs) vs ws = list_all2 (compare_items cs) ws vs" for ws
    unfolding list_all2_conv_all_nth using cJSON_Array nth_mem by (metis (mono_tags, lifting))
  then show ?case by (cases b) auto
next
  case (cJSON_Object ms)
  show ?case by (cases b) (simp_all add: conj_commute)
next
  case (cJSON_String s)
  show ?case by (cases b) (simp_all add: eq_commute)
next
  case (cJSON_Raw s)
  show ?case by (cases b) (simp_all add: eq_commute)
next
  case cJSON_NULL
  show ?case by (cases b) simp_all
next
  case cJSON_False
  show ?case by (cases b) simp_all
next
  case cJSON_True
  show ?case by (cases b) simp_all
qed

section \<open>What it decides\<close>

text \<open>Names as they are compared.\<close>

definition folded :: "bool \<Rightarrow> string \<Rightarrow> string" where
  "folded cs name = (if cs then name else map tolower name)"

lemma of_char_zero: "(of_char c :: nat) = 0 \<longleftrightarrow> c = CHR 0x00"
  using of_char_eq_iff[of c "CHR 0x00", where 'a = nat] by simp

lemma tolower_nul: "tolower c = CHR 0x00 \<longleftrightarrow> c = CHR 0x00"
proof -
  have "(of_char (tolower c) :: nat) = 0 \<longleftrightarrow> (of_char c :: nat) = 0" by (simp add: tolower_def Let_def)
  then show ?thesis unfolding of_char_zero .
qed

lemma insensitive_folded:
  "CHR 0x00 \<notin> set a \<Longrightarrow> CHR 0x00 \<notin> set b \<Longrightarrow> case_insensitive_strcmp a b = 0 \<longleftrightarrow> map tolower a = map tolower b"
  by (induction a b rule: case_insensitive_strcmp.induct) (auto simp: of_char_zero tolower_nul)

lemma same_folded: "CHR 0x00 \<notin> set a \<Longrightarrow> CHR 0x00 \<notin> set b \<Longrightarrow> same_name cs a (Some b) \<longleftrightarrow> folded cs a = folded cs b"
  by (simp add: same_name_def folded_def insensitive_folded)

text \<open>Trees of C strings in which no object has two members of the same name.\<close>

fun tidy :: "bool \<Rightarrow> cJSON \<Rightarrow> bool" where
  "tidy cs (cJSON_String s) \<longleftrightarrow> CHR 0x00 \<notin> set s"
| "tidy cs (cJSON_Raw s) \<longleftrightarrow> CHR 0x00 \<notin> set s"
| "tidy cs (cJSON_Array vs) \<longleftrightarrow> (\<forall>v \<in> set vs. tidy cs v)"
| "tidy cs (cJSON_Object ms) \<longleftrightarrow> distinct (map (\<lambda>m. folded cs (fst m)) ms) \<and> (\<forall>m \<in> set ms. CHR 0x00 \<notin> set (fst m) \<and> tidy cs (snd m))"
| "tidy cs _ \<longleftrightarrow> True"

text \<open>Equality up to the order of members, the case of names and the last bits of numbers.\<close>

inductive alike :: "bool \<Rightarrow> cJSON \<Rightarrow> cJSON \<Rightarrow> bool" for cs where
  alike_null: "alike cs cJSON_NULL cJSON_NULL"
| alike_false: "alike cs cJSON_False cJSON_False"
| alike_true: "alike cs cJSON_True cJSON_True"
| alike_number: "compare_double d e \<Longrightarrow> alike cs (cJSON_Number d i) (cJSON_Number e j)"
| alike_string: "alike cs (cJSON_String s) (cJSON_String s)"
| alike_raw: "alike cs (cJSON_Raw s) (cJSON_Raw s)"
| alike_array: "list_all2 (alike cs) vs ws \<Longrightarrow> alike cs (cJSON_Array vs) (cJSON_Array ws)"
| alike_object: "list_all2 (\<lambda>m k. folded cs (fst m) = folded cs (fst k) \<and> alike cs (snd m) (snd k)) ms ks \<Longrightarrow> mset ks = mset ns \<Longrightarrow>
    alike cs (cJSON_Object ms) (cJSON_Object ns)"

lemma list_all2_members:
  assumes "list_all2 P xs ys"
  shows "x \<in> set xs \<Longrightarrow> \<exists>y \<in> set ys. P x y" "y \<in> set ys \<Longrightarrow> \<exists>x \<in> set xs. P x y"
  using assms by (induction rule: list_all2_induct) auto

lemma folded_unique:
  assumes "distinct (map (\<lambda>m. folded cs (fst m)) ns)" and "m \<in> set ns" and "n \<in> set ns" and "folded cs (fst m) = folded cs (fst n)"
  shows "m = n"
  using assms by (auto simp: distinct_map inj_on_def)

lemma get_member_unique:
  assumes "tidy cs (cJSON_Object ns)" and "n \<in> set ns" and "folded cs name = folded cs (fst n)" and "CHR 0x00 \<notin> set name"
  shows "get_object_item (cJSON_Object ns) name cs = Some (snd n)"
proof -
  have d: "distinct (map (\<lambda>m. folded cs (fst m)) ns)" and nul: "\<forall>k \<in> set ns. CHR 0x00 \<notin> set (fst k)" using assms(1) by auto
  have "same_name cs name (Some (fst k)) \<longleftrightarrow> k = n" if "k \<in> set ns" for k
    unfolding same_folded[OF assms(4) nul[rule_format, OF that]] using folded_unique[OF d that assms(2)] assms(3) by metis
  then have "List.find (\<lambda>k. same_name cs name (Some (fst k))) ns = Some n"
    using assms(2) by (induction ns) auto
  then show ?thesis by (simp add: get_member)
qed

lemma alike_compare: "alike cs a b \<Longrightarrow> tidy cs a \<Longrightarrow> tidy cs b \<Longrightarrow> compare_items cs a b"
proof (induction rule: alike.induct)
  case (alike_array vs ws)
  have "list_all2 (compare_items cs) vs ws"
    using alike_array(1) by (rule list.rel_mono_strong) (use alike_array in auto)
  then show ?case by simp
next
  case (alike_object ms ks ns)
  have sets: "set ks = set ns" using alike_object(2) by (rule mset_eq_setD)
  have "members_in cs ms ns" unfolding members_in_def
  proof
    fix m assume m: "m \<in> set ms"
    with list_all2_members(1)[OF alike_object(1)] obtain k where k: "k \<in> set ns" "folded cs (fst m) = folded cs (fst k)"
      "tidy cs (snd m) \<longrightarrow> tidy cs (snd k) \<longrightarrow> compare_items cs (snd m) (snd k)" using sets by blast
    have "get_object_item (cJSON_Object ns) (fst m) cs = Some (snd k)"
      by (rule get_member_unique[OF alike_object(4) k(1,2)]) (use m alike_object(3) in auto)
    then show "\<exists>w. get_object_item (cJSON_Object ns) (fst m) cs = Some w \<and> compare_items cs (snd m) w"
      using k m alike_object(3,4) by auto
  qed
  moreover have "members_in cs ns ms" unfolding members_in_def
  proof
    fix n assume n: "n \<in> set ns"
    with list_all2_members(2)[OF alike_object(1)] obtain m where m: "m \<in> set ms" "folded cs (fst n) = folded cs (fst m)"
      "tidy cs (snd m) \<longrightarrow> tidy cs (snd n) \<longrightarrow> compare_items cs (snd m) (snd n)" using sets by metis
    have "get_object_item (cJSON_Object ms) (fst n) cs = Some (snd m)"
      by (rule get_member_unique[OF alike_object(3) m(1,2)]) (use n alike_object(4) in auto)
    then show "\<exists>w. get_object_item (cJSON_Object ms) (fst n) cs = Some w \<and> compare_items cs (snd n) w"
      using m n alike_object(3,4) compare_sym[of cs "snd n"] by auto
  qed
  ultimately show ?case by simp
qed auto

lemma members_in_alike:
  assumes "tidy cs (cJSON_Object ms)" and "tidy cs (cJSON_Object ns)" and "members_in cs ms ns" and "members_in cs ns ms"
    and IH: "\<And>m w. m \<in> set ms \<Longrightarrow> tidy cs w \<Longrightarrow> compare_items cs (snd m) w \<Longrightarrow> alike cs (snd m) w"
  shows "alike cs (cJSON_Object ms) (cJSON_Object ns)"
proof -
  have found: "\<exists>v. v \<in> set ns' \<and> folded cs (fst m) = folded cs (fst v) \<and> compare_items cs (snd m) (snd v)"
    if "tidy cs (cJSON_Object ms')" "tidy cs (cJSON_Object ns')" "members_in cs ms' ns'" "m \<in> set ms'" for m ms' ns'
  proof -
    from that obtain w where w: "get_object_item (cJSON_Object ns') (fst m) cs = Some w" "compare_items cs (snd m) w" by (auto simp: members_in_def)
    from get_member_Some[OF w(1)] obtain k where k: "(k, w) \<in> set ns'" "same_name cs (fst m) (Some k)" by blast
    have "CHR 0x00 \<notin> set (fst m)" "CHR 0x00 \<notin> set k" using that(1,2,4) k(1) by fastforce+
    then show ?thesis using k w(2) by (intro exI[of _ "(k, w)"]) (simp add: same_folded)
  qed
  have "\<forall>m \<in> set ms. \<exists>v. v \<in> set ns \<and> folded cs (fst m) = folded cs (fst v) \<and> compare_items cs (snd m) (snd v)"
    using found[OF assms(1-3)] by blast
  from bchoice[OF this] obtain f where f: "\<forall>m \<in> set ms. f m \<in> set ns \<and> folded cs (fst m) = folded cs (fst (f m)) \<and> compare_items cs (snd m) (snd (f m))" by blast
  have d: "distinct (map (\<lambda>m. folded cs (fst m)) ms)" "distinct (map (\<lambda>m. folded cs (fst m)) ns)" using assms(1,2) by auto
  have "map (\<lambda>k. folded cs (fst k)) (map f ms) = map (\<lambda>m. folded cs (fst m)) ms" using f by simp
  then have "distinct (map f ms)" using d(1) distinct_map by metis
  moreover have "distinct ns" using d(2) distinct_map by blast
  moreover have "set (map f ms) = set ns"
  proof
    show "set (map f ms) \<subseteq> set ns" using f by auto
    show "set ns \<subseteq> set (map f ms)"
    proof
      fix n assume n: "n \<in> set ns"
      from found[OF assms(2,1,4) n] obtain m where m: "m \<in> set ms" "folded cs (fst n) = folded cs (fst m)" by blast
      then have "f m = n" using f folded_unique[OF d(2), of "f m" n] n by auto
      then show "n \<in> set (map f ms)" using m(1) by auto
    qed
  qed
  ultimately have "mset (map f ms) = mset ns" by (simp only: set_eq_iff_mset_eq_distinct)
  moreover have "list_all2 (\<lambda>m k. folded cs (fst m) = folded cs (fst k) \<and> alike cs (snd m) (snd k)) ms (map f ms)"
    unfolding list.rel_map(2)
  proof (rule list.rel_refl_strong)
    fix m assume m: "m \<in> set ms"
    have "tidy cs (snd (f m))" using f m assms(2) by auto
    then show "folded cs (fst m) = folded cs (fst (f m)) \<and> alike cs (snd m) (snd (f m))" using f m IH by blast
  qed
  ultimately show ?thesis using alike.alike_object by blast
qed

lemma c_string_self: "CHR 0x00 \<notin> set s \<Longrightarrow> c_string s = s"
  unfolding c_string_def takeWhile_eq_all_conv by blast

lemma compare_alike: "compare_items cs a b \<Longrightarrow> tidy cs a \<Longrightarrow> tidy cs b \<Longrightarrow> alike cs a b"
proof (induction a arbitrary: b)
  case (cJSON_String s)
  then show ?case by (auto simp: c_string_self intro: alike.alike_string)
next
  case (cJSON_Raw s)
  then show ?case by (auto simp: c_string_self intro: alike.alike_raw)
next
  case (cJSON_Array vs)
  then obtain ws where ws: "b = cJSON_Array ws" "list_all2 (compare_items cs) vs ws" by auto
  have "list_all2 (alike cs) vs ws" using ws(2) by (rule list.rel_mono_strong) (use cJSON_Array ws in auto)
  then show ?case using ws(1) by (simp add: alike.alike_array)
next
  case (cJSON_Object ms)
  then obtain ns where ns: "b = cJSON_Object ns" "members_in cs ms ns" "members_in cs ns ms" by auto
  have "alike cs (cJSON_Object ms) (cJSON_Object ns)"
  proof (rule members_in_alike[OF _ _ ns(2,3)])
    fix m w assume m: "m \<in> set ms" "tidy cs w" "compare_items cs (snd m) w"
    have "tidy cs (snd m)" using m(1) cJSON_Object.prems(2) by auto
    moreover have "snd m \<in> Basic_BNFs.snds m" by (cases m) (simp add: snds.simps)
    ultimately show "alike cs (snd m) w" using cJSON_Object.IH[OF m(1) _ m(3)] m(2) by blast
  qed (use cJSON_Object.prems ns(1) in auto)
  then show ?case using ns(1) by simp
qed (auto intro: alike.intros)

theorem compare_decides: "tidy cs a \<Longrightarrow> tidy cs b \<Longrightarrow> compare_items cs a b \<longleftrightarrow> alike cs a b"
  using alike_compare compare_alike by blast

section \<open>Equal trees\<close>

text \<open>A finite number is equal to itself.\<close>

lemma round_double_nonneg: "0 \<le> x \<Longrightarrow> round_double x = Finite r \<Longrightarrow> 0 \<le> r"
proof -
  assume x: "0 \<le> x" and r: "round_double x = Finite r"
  have "0 \<le> round_even y" if "0 \<le> y" for y using that by (simp add: round_even_def Let_def)
  from this[of "\<bar>x\<bar> / 2 powi (max (-1074) (ilog2 \<bar>x\<bar> - 52))"] show "0 \<le> r"
    using x r by (auto simp: round_double_def Let_def split: if_splits)
qed

lemma compare_double_refl: "compare_double (Finite x) (Finite x)"
proof -
  have "round_double 0 = Finite 0" by (simp add: round_double_def)
  then show ?thesis using round_double_nonneg[of "\<bar>x\<bar> / 4503599627370496"] by (auto simp: compare_double_def split: double.splits)
qed

fun finite_numbers :: "cJSON \<Rightarrow> bool" where
  "finite_numbers (cJSON_Number d i) \<longleftrightarrow> (\<exists>x. d = Finite x)"
| "finite_numbers (cJSON_Array vs) \<longleftrightarrow> (\<forall>v \<in> set vs. finite_numbers v)"
| "finite_numbers (cJSON_Object ms) \<longleftrightarrow> (\<forall>m \<in> set ms. finite_numbers (snd m))"
| "finite_numbers _ \<longleftrightarrow> True"

lemma alike_refl: "finite_numbers v \<Longrightarrow> alike cs v v"
proof (induction v)
  case (cJSON_Number d i)
  then show ?case by (auto intro: alike.intros compare_double_refl)
next
  case (cJSON_Array vs)
  then show ?case by (auto intro!: alike.alike_array list.rel_refl_strong)
next
  case (cJSON_Object ms)
  have "list_all2 (\<lambda>m k. folded cs (fst m) = folded cs (fst k) \<and> alike cs (snd m) (snd k)) ms ms"
    using cJSON_Object by (auto intro!: list.rel_refl_strong simp: snds.simps)
  then show ?case by (rule alike.alike_object) simp
qed (auto intro: alike.intros)

text \<open>The order of the members does not matter.\<close>

lemma compare_reordered:
  assumes "tidy cs (cJSON_Object ms)" and "finite_numbers (cJSON_Object ms)" and "mset ms = mset ns"
  shows "compare_items cs (cJSON_Object ms) (cJSON_Object ns)"
proof (rule alike_compare)
  have "list_all2 (\<lambda>m k. folded cs (fst m) = folded cs (fst k) \<and> alike cs (snd m) (snd k)) ms ms"
    using assms(2) by (auto intro!: list.rel_refl_strong alike_refl)
  then show "alike cs (cJSON_Object ms) (cJSON_Object ns)" using assms(3) by (rule alike.alike_object)
  have "mset (map (\<lambda>m. folded cs (fst m)) ms) = mset (map (\<lambda>m. folded cs (fst m)) ns)" using assms(3) by simp
  then show "tidy cs (cJSON_Object ns)" using assms(1) mset_eq_setD[OF assms(3)] mset_eq_imp_distinct_iff[of "map (\<lambda>m. folded cs (fst m)) ms"] by auto
qed (rule assms(1))

text \<open>Looking names up in a tidy object is looking them up in a map, and the two look-ups agree on names that are there.\<close>

lemma get_case_sensitive:
  assumes "tidy True (cJSON_Object ms)" and "CHR 0x00 \<notin> set name"
  shows "cJSON_GetObjectItemCaseSensitive (cJSON_Object ms) name = map_of ms name"
proof (cases "map_of ms name")
  case None
  then have "List.find (\<lambda>n. name = fst n) ms = None" by (force simp: find_None_iff map_of_eq_None_iff)
  then show ?thesis using None by (simp add: cJSON_GetObjectItemCaseSensitive_def get_member same_name_def)
next
  case (Some v)
  then have "(name, v) \<in> set ms" by (rule map_of_SomeD)
  from get_member_unique[OF assms(1) this _ assms(2)] show ?thesis using Some by (simp add: cJSON_GetObjectItemCaseSensitive_def)
qed

lemma has_member:
  assumes "tidy False (cJSON_Object ms)" and "CHR 0x00 \<notin> set name"
  shows "cJSON_HasObjectItem (cJSON_Object ms) name \<longleftrightarrow> map tolower name \<in> (\<lambda>m. map tolower (fst m)) ` set ms"
proof -
  have "same_name False name (Some (fst m)) \<longleftrightarrow> map tolower name = map tolower (fst m)" if "m \<in> set ms" for m
    using same_folded[OF assms(2), of "fst m" False] assms(1) that by (simp add: folded_def)
  then have "(\<exists>m \<in> set ms. same_name False name (Some (fst m))) \<longleftrightarrow> map tolower name \<in> (\<lambda>m. map tolower (fst m)) ` set ms" unfolding image_iff by blast
  moreover have "cJSON_HasObjectItem (cJSON_Object ms) name \<longleftrightarrow> (\<exists>m \<in> set ms. same_name False name (Some (fst m)))"
    unfolding cJSON_HasObjectItem_def cJSON_GetObjectItem_def get_member map_option_is_None find_None_iff by blast
  ultimately show ?thesis by blast
qed

end
