(* ===== verification/Cjson_Minify.thy ===== *)
theory Cjson_Minify
  imports Cjson_Read "HOL-Library.Monad_Syntax"
begin

text \<open>
  \<^verbatim>\<open>cJSON_Minify\<close> of \<^verbatim>\<open>extern/cJSON/cJSON.c\<close>, which removes white space and comments from a JSON text in the
  text's own block. The code is modelled on the block, with the two pointers as indices and an access outside
  of the block as \<open>None\<close>; \<open>minified\<close> is the same on strings.
\<close>

section \<open>The code\<close>

definition peek :: "string \<Rightarrow> nat \<Rightarrow> char option" where
  "peek m i = (if i < length m then Some (m ! i) else None)"

definition poke :: "string \<Rightarrow> nat \<Rightarrow> char \<Rightarrow> string option" where
  "poke m i c = (if i < length m then Some (m[i := c]) else None)"

partial_function (option) oneline_loop :: "string \<Rightarrow> nat \<Rightarrow> nat option" where
  "oneline_loop m i = do {
     c \<leftarrow> peek m i;
     if c = CHR 0x00 then Some i
     else if c = CHR 0x0A then Some (i + 1)
     else oneline_loop m (i + 1) }"

definition skip_oneline_comment :: "string \<Rightarrow> nat \<Rightarrow> nat option" where
  "skip_oneline_comment m i = oneline_loop m (i + 2)"

partial_function (option) multiline_loop :: "string \<Rightarrow> nat \<Rightarrow> nat option" where
  "multiline_loop m i = do {
     c \<leftarrow> peek m i;
     if c = CHR 0x00 then Some i
     else do {
       e \<leftarrow> (if c = CHR ''*'' then do { d \<leftarrow> peek m (i + 1); Some (d = CHR ''/'') } else Some False);
       if e then Some (i + 2) else multiline_loop m (i + 1) } }"

definition skip_multiline_comment :: "string \<Rightarrow> nat \<Rightarrow> nat option" where
  "skip_multiline_comment m i = multiline_loop m (i + 2)"

text \<open>The block is read again after each write: the two pointers may be the same.\<close>

partial_function (option) string_loop :: "string \<Rightarrow> nat \<Rightarrow> nat \<Rightarrow> (string \<times> nat \<times> nat) option" where
  "string_loop m i out = do {
     c \<leftarrow> peek m i;
     if c = CHR 0x00 then Some (m, i, out)
     else do {
       m \<leftarrow> poke m out c;
       c \<leftarrow> peek m i;
       if c = CHR 0x22 then do { m \<leftarrow> poke m out (CHR 0x22); Some (m, i + 1, out + 1) }
       else do {
         q \<leftarrow> (if c = CHR 0x5C then do { d \<leftarrow> peek m (i + 1); Some (d = CHR 0x22) } else Some False);
         if q then do {
           d \<leftarrow> peek m (i + 1);
           m \<leftarrow> poke m (out + 1) d;
           string_loop m (i + 2) (out + 2) }
         else string_loop m (i + 1) (out + 1) } } }"

definition minify_string :: "string \<Rightarrow> nat \<Rightarrow> nat \<Rightarrow> (string \<times> nat \<times> nat) option" where
  "minify_string m i out = do { c \<leftarrow> peek m i; m \<leftarrow> poke m out c; string_loop m (i + 1) (out + 1) }"

partial_function (option) minify_loop :: "string \<Rightarrow> nat \<Rightarrow> nat \<Rightarrow> (string \<times> nat) option" where
  "minify_loop m i out = do {
     c \<leftarrow> peek m i;
     if c = CHR 0x00 then Some (m, out)
     else if c \<in> {CHR '' '', CHR 0x09, CHR 0x0D, CHR 0x0A} then minify_loop m (i + 1) out
     else if c = CHR ''/'' then do {
       d \<leftarrow> peek m (i + 1);
       i \<leftarrow> (if d = CHR ''/'' then skip_oneline_comment m i
             else if d = CHR ''*'' then skip_multiline_comment m i
             else Some (i + 1));
       minify_loop m i out }
     else if c = CHR 0x22 then do { (m, i, out) \<leftarrow> minify_string m i out; minify_loop m i out }
     else do { m \<leftarrow> poke m out c; minify_loop m (i + 1) (out + 1) } }"

definition cJSON_Minify :: "string option \<Rightarrow> string option option" where
  "cJSON_Minify json =
     (case json of
        None \<Rightarrow> Some None
      | Some m \<Rightarrow> do { (m, out) \<leftarrow> minify_loop m 0 0; m \<leftarrow> poke m out (CHR 0x00); Some (Some m) })"

section \<open>The same on strings\<close>

fun line_rest :: "string \<Rightarrow> string" where
  "line_rest [] = []"
| "line_rest (c # s) = (if c = CHR 0x0A then s else line_rest s)"

fun comment_rest :: "string \<Rightarrow> string" where
  "comment_rest [] = []"
| "comment_rest [c] = []"
| "comment_rest (c # d # s) = (if c = CHR ''*'' \<and> d = CHR ''/'' then s else comment_rest (d # s))"

text \<open>What is copied of a string behind its first quote, and what follows it.\<close>

fun string_part :: "string \<Rightarrow> string \<times> string" where
  "string_part [] = ([], [])"
| "string_part [c] = ([c], [])"
| "string_part (c # d # s) =
     (if c = CHR 0x22 then ([c], d # s)
      else if c = CHR 0x5C \<and> d = CHR 0x22 then (case string_part s of (p, r) \<Rightarrow> (c # d # p, r))
      else case string_part (d # s) of (p, r) \<Rightarrow> (c # p, r))"

lemma line_rest_length: "length (line_rest s) \<le> length s"
  by (induction s rule: line_rest.induct) auto

lemma comment_rest_length: "length (comment_rest s) \<le> length s"
  by (induction s rule: comment_rest.induct) auto

lemma string_part_append: "fst (string_part s) @ snd (string_part s) = s"
  by (induction s rule: string_part.induct) (auto split: prod.splits)

lemma string_part_length: "length (snd (string_part s)) \<le> length s"
  using arg_cong[OF string_part_append[of s], of length] by simp

definition after_slash :: "string \<Rightarrow> string" where
  "after_slash s = (case s of d # r \<Rightarrow> if d = CHR ''/'' then line_rest r else if d = CHR ''*'' then comment_rest r else s | [] \<Rightarrow> [])"

lemma after_slash_length: "length (after_slash s) \<le> length s"
  using line_rest_length[of "tl s"] comment_rest_length[of "tl s"] by (cases s) (auto simp: after_slash_def)

function minified :: "string \<Rightarrow> string" where
  "minified [] = []"
| "minified (c # s) =
     (if c \<in> {CHR '' '', CHR 0x09, CHR 0x0D, CHR 0x0A} then minified s
      else if c = CHR ''/'' then minified (after_slash s)
      else if c = CHR 0x22 then c # fst (string_part s) @ minified (snd (string_part s))
      else c # minified s)"
  by pat_completeness auto
termination
  by (relation "measure length") (use after_slash_length string_part_length in \<open>auto simp: less_Suc_eq_le\<close>)

lemma minified_step:
  "c \<in> {CHR '' '', CHR 0x09, CHR 0x0D, CHR 0x0A} \<Longrightarrow> minified (c # s) = minified s"
  "minified (CHR ''/'' # s) = minified (after_slash s)"
  "minified (CHR 0x22 # s) = CHR 0x22 # fst (string_part s) @ minified (snd (string_part s))"
  "c \<notin> {CHR '' '', CHR 0x09, CHR 0x0D, CHR 0x0A} \<Longrightarrow> c \<noteq> CHR ''/'' \<Longrightarrow> c \<noteq> CHR 0x22 \<Longrightarrow> minified (c # s) = c # minified s"
  by auto

declare minified.simps(2) [simp del]

text \<open>The induction over the steps.\<close>

lemma minified_cases [case_names nil blank slash quote other]:
  assumes "P []" and "\<And>c s. c \<in> {CHR '' '', CHR 0x09, CHR 0x0D, CHR 0x0A} \<Longrightarrow> P s \<Longrightarrow> P (c # s)"
    and "\<And>s. P (after_slash s) \<Longrightarrow> P (CHR ''/'' # s)" and "\<And>s. P (snd (string_part s)) \<Longrightarrow> P (CHR 0x22 # s)"
    and "\<And>c s. c \<notin> {CHR '' '', CHR 0x09, CHR 0x0D, CHR 0x0A} \<Longrightarrow> c \<noteq> CHR ''/'' \<Longrightarrow> c \<noteq> CHR 0x22 \<Longrightarrow> P s \<Longrightarrow> P (c # s)"
  shows "P s"
proof (induction s rule: minified.induct)
  case (2 c s)
  show ?case
  proof (cases "c \<in> {CHR '' '', CHR 0x09, CHR 0x0D, CHR 0x0A}")
    case True
    show ?thesis by (rule assms(2)[OF True 2(1)[OF True]])
  next
    case nb: False
    show ?thesis
    proof (cases "c = CHR ''/''")
      case True
      show ?thesis using assms(3)[OF 2(2)[OF nb True]] True by simp
    next
      case ns: False
      show ?thesis
      proof (cases "c = CHR 0x22")
        case True
        show ?thesis using assms(4)[OF 2(3)[OF nb ns True]] True by simp
      next
        case False
        show ?thesis by (rule assms(5)[OF nb ns False 2(4)[OF nb ns False]])
      qed
    qed
  qed
qed (rule assms(1))

section \<open>The block and the string\<close>

text \<open>What is left to read at an index, and what has been written before one.\<close>

definition tail_at :: "string \<Rightarrow> nat \<Rightarrow> string \<Rightarrow> string \<Rightarrow> bool" where
  "tail_at m i s z \<longleftrightarrow> i \<le> length m \<and> drop i m = s @ CHR 0x00 # z"

definition writes :: "string \<Rightarrow> nat \<Rightarrow> string \<Rightarrow> string \<Rightarrow> nat \<Rightarrow> bool" where
  "writes m out p m' out' \<longleftrightarrow> length m' = length m \<and> out' \<le> length m' \<and> take out' m' = take out m @ p"

lemma tail_at_less:
  assumes "tail_at m i s z"
  shows "i + length s < length m"
proof -
  have "length m - i = length s + Suc (length z)" using assms length_drop[of i m] by (simp add: tail_at_def)
  then show ?thesis by simp
qed

lemma nth_tail: "tail_at m i s z \<Longrightarrow> m ! i = hd (s @ [CHR 0x00])"
  using tail_at_less[of m i s z] hd_drop_conv_nth[of i m] by (cases s) (auto simp: tail_at_def)

lemma peek_tail:
  "tail_at m i [] z \<Longrightarrow> peek m i = Some (CHR 0x00)" "tail_at m i (c # s) z \<Longrightarrow> peek m i = Some c"
  using nth_tail tail_at_less by (fastforce simp: peek_def)+

lemma tail_at_Suc: "tail_at m i (c # s) z \<Longrightarrow> tail_at m (Suc i) s z"
  using tail_at_less[of m i "c # s" z] by (auto simp: tail_at_def drop_Suc tl_drop[symmetric])

lemma tail_at_put:
  assumes "tail_at m i (c # s) z" and "out \<le> i"
  shows "tail_at (m[out := c]) i (c # s) z"
proof (cases "out = i")
  case True
  then have "m[out := c] = m" using nth_tail[OF assms(1)] list_update_id[of m i] by simp
  then show ?thesis using assms(1) by simp
next
  case False
  then show ?thesis using assms by (simp add: tail_at_def)
qed

lemma poke_tail: "tail_at m i s z \<Longrightarrow> out \<le> i \<Longrightarrow> poke m out c = Some (m[out := c])"
  using tail_at_less[of m i s z] by (simp add: poke_def)

lemma writes_refl: "out \<le> length m \<Longrightarrow> writes m out [] m out"
  by (simp add: writes_def)

lemma writes_trans: "writes m out p m1 out1 \<Longrightarrow> writes m1 out1 q m2 out2 \<Longrightarrow> writes m out (p @ q) m2 out2"
  by (simp add: writes_def)

lemma writes_put: "out < length m \<Longrightarrow> writes m out [c] (m[out := c]) (Suc out)"
  by (simp add: writes_def take_Suc_conv_app_nth)

lemma oneline_loop_rest:
  "tail_at m i s z \<Longrightarrow> CHR 0x00 \<notin> set s \<Longrightarrow> \<exists>j\<ge>i. oneline_loop m i = Some j \<and> tail_at m j (line_rest s) z"
proof (induction s arbitrary: i)
  case Nil
  then show ?case by (subst oneline_loop.simps) (auto simp: peek_tail)
next
  case (Cons c s)
  note next_char = tail_at_Suc[OF Cons.prems(1)]
  show ?case using Cons.IH[OF next_char] Cons.prems next_char
    by (subst oneline_loop.simps) (auto simp: peek_tail dest: Suc_leD)
qed

lemma multiline_loop_rest:
  "tail_at m i s z \<Longrightarrow> CHR 0x00 \<notin> set s \<Longrightarrow> \<exists>j\<ge>i. multiline_loop m i = Some j \<and> tail_at m j (comment_rest s) z"
proof (induction s arbitrary: i rule: comment_rest.induct)
  case 1
  then show ?case by (subst multiline_loop.simps) (auto simp: peek_tail)
next
  case (2 c)
  note next_char = tail_at_Suc[OF 2(1)]
  have "multiline_loop m (Suc i) = Some (Suc i)" using next_char by (subst multiline_loop.simps) (simp add: peek_tail)
  then show ?case using 2 next_char by (subst multiline_loop.simps) (auto simp: peek_tail)
next
  case (3 c d s)
  note next_char = tail_at_Suc[OF 3(2)]
  show ?case
  proof (cases "c = CHR ''*'' \<and> d = CHR ''/''")
    case True
    then show ?thesis using 3(2) next_char tail_at_Suc[OF next_char] by (subst multiline_loop.simps) (auto simp: peek_tail)
  next
    case False
    from 3(1)[OF False next_char] 3(3) obtain j where j: "j \<ge> Suc i" "multiline_loop m (Suc i) = Some j" "tail_at m j (comment_rest (d # s)) z" by auto
    have "multiline_loop m i = multiline_loop m (Suc i)"
      using 3(2,3) False next_char by (subst multiline_loop.simps) (auto simp: peek_tail)
    then show ?thesis using j False by (intro exI[of _ j]) auto
  qed
qed

text \<open>The result of copying a string.\<close>

definition copies :: "string \<Rightarrow> nat \<Rightarrow> string \<Rightarrow> string \<Rightarrow> (string \<times> nat \<times> nat) option \<Rightarrow> bool" where
  "copies m out s z r \<longleftrightarrow> (\<exists>m' i' out'. r = Some (m', i', out') \<and> out' \<le> i' \<and>
     tail_at m' i' (snd (string_part s)) z \<and> writes m out (fst (string_part s)) m' out')"

lemma copies_put:
  assumes "copies (m[out := c]) (Suc out) s' z r" and "out < length m"
    and "string_part s = (c # fst (string_part s'), snd (string_part s'))"
  shows "copies m out s z r"
  using assms(1,3) writes_trans[OF writes_put[OF assms(2), of c]] unfolding copies_def by fastforce

lemma string_loop_copies:
  "tail_at m i s z \<Longrightarrow> CHR 0x00 \<notin> set s \<Longrightarrow> out \<le> i \<Longrightarrow> copies m out s z (string_loop m i out)"
proof (induction s arbitrary: m i out rule: string_part.induct)
  case 1
  then show ?case using tail_at_less[OF 1(1)] by (subst string_loop.simps) (auto simp: peek_tail copies_def intro: writes_refl)
next
  case (2 c)
  let ?m = "m[out := c]"
  note put = tail_at_put[OF 2(1,3)] and out = poke_tail[OF 2(1,3)]
  have less: "out < length m" using tail_at_less[OF 2(1)] 2(3) by simp
  have w: "writes m out [c] ?m (Suc out)" by (rule writes_put[OF less])
  have "string_loop ?m (Suc i) (Suc out) = Some (?m, Suc i, Suc out)"
    using tail_at_Suc[OF put] by (subst string_loop.simps) (simp add: peek_tail)
  moreover have "poke ?m out (CHR 0x22) = Some (?m[out := CHR 0x22])" by (rule poke_tail[OF put 2(3)])
  ultimately have "string_loop m i out = Some (?m, Suc i, Suc out)"
    using 2 put out tail_at_Suc[OF put] by (subst string_loop.simps) (auto simp: peek_tail)
  then show ?case using w 2(3) tail_at_Suc[OF put] by (auto simp: copies_def)
next
  case (3 c d s)
  let ?m = "m[out := c]"
  note put = tail_at_put[OF 3(3,5)] and out = poke_tail[OF 3(3,5)]
  note next_char = tail_at_Suc[OF put]
  have less: "out < length m" using tail_at_less[OF 3(3)] 3(5) by simp
  consider (quote) "c = CHR 0x22" | (escape) "c = CHR 0x5C" "d = CHR 0x22" | (other) "c \<noteq> CHR 0x22" "\<not> (c = CHR 0x5C \<and> d = CHR 0x22)" by blast
  then show ?case
  proof cases
    case quote
    have "poke ?m out (CHR 0x22) = Some ?m" using poke_tail[OF put 3(5), of "CHR 0x22"] quote by simp
    then have "string_loop m i out = Some (?m, Suc i, Suc out)"
      using 3(3) quote put out by (subst string_loop.simps) (auto simp: peek_tail)
    then show ?thesis using quote writes_put[OF less, of c] 3(5) next_char by (auto simp: copies_def)
  next
    case escape
    let ?m2 = "?m[Suc out := d]"
    have o2: "Suc out \<le> Suc i" "Suc out < length ?m" using 3(5) tail_at_less[OF next_char] by auto
    note put2 = tail_at_put[OF next_char o2(1)]
    have "copies ?m2 (Suc (Suc out)) s z (string_loop ?m2 (Suc (Suc i)) (Suc (Suc out)))"
      by (rule 3(1)) (use escape tail_at_Suc[OF put2] 3(4,5) in auto)
    moreover have "string_loop m i out = string_loop ?m2 (Suc (Suc i)) (Suc (Suc out))"
      using 3(3) escape put out next_char poke_tail[OF next_char o2(1), of d] by (subst string_loop.simps) (auto simp: peek_tail)
    moreover have "writes m out [c, d] ?m2 (Suc (Suc out))"
      using writes_trans[OF writes_put[OF less, of c] writes_put[OF o2(2), of d]] by simp
    ultimately show ?thesis using escape writes_trans[of m out "[c, d]" ?m2 "Suc (Suc out)"]
      unfolding copies_def by (fastforce split: prod.splits)
  next
    case other
    have "copies ?m (Suc out) (d # s) z (string_loop ?m (Suc i) (Suc out))"
      by (rule 3(2)) (use other next_char 3(4,5) in auto)
    moreover have "string_loop m i out = string_loop ?m (Suc i) (Suc out)"
      using 3(3,4) other put out next_char by (subst string_loop.simps) (auto simp: peek_tail)
    moreover have "string_part (c # d # s) = (c # fst (string_part (d # s)), snd (string_part (d # s)))"
      using other by (auto split: prod.splits)
    ultimately show ?thesis using copies_put[OF _ less] by metis
  qed
qed

lemma minify_string_copies:
  assumes "tail_at m i (c # s) z" and "CHR 0x00 \<notin> set (c # s)" and "out \<le> i"
  shows "\<exists>m' i' out'. minify_string m i out = Some (m', i', out') \<and> out' \<le> i' \<and>
    tail_at m' i' (snd (string_part s)) z \<and> writes m out (c # fst (string_part s)) m' out'"
proof -
  have less: "out < length m" using tail_at_less[OF assms(1)] assms(3) by simp
  have "copies (m[out := c]) (Suc out) s z (string_loop (m[out := c]) (Suc i) (Suc out))"
    by (rule string_loop_copies) (use tail_at_Suc[OF tail_at_put[OF assms(1,3)]] assms in auto)
  moreover have "minify_string m i out = string_loop (m[out := c]) (Suc i) (Suc out)"
    using assms by (simp add: minify_string_def peek_tail poke_tail)
  ultimately show ?thesis using writes_trans[OF writes_put[OF less, of c]] unfolding copies_def by fastforce
qed

lemma rest_chars:
  "set (line_rest s) \<subseteq> set s" "set (comment_rest s) \<subseteq> set s" "set (fst (string_part s)) \<subseteq> set s" "set (snd (string_part s)) \<subseteq> set s"
proof -
  show "set (line_rest s) \<subseteq> set s" by (induction s) auto
  show "set (comment_rest s) \<subseteq> set s" by (induction s rule: comment_rest.induct) auto
  show "set (fst (string_part s)) \<subseteq> set s" "set (snd (string_part s)) \<subseteq> set s"
    using arg_cong[OF string_part_append[of s], of set] by auto
qed

lemma after_slash_chars: "set (after_slash s) \<subseteq> set s"
  using rest_chars(1,2)[of "tl s"] by (cases s) (auto simp: after_slash_def)

lemma slash_steps:
  assumes "tail_at m i (CHR ''/'' # s) z" and "CHR 0x00 \<notin> set s"
  shows "\<exists>j\<ge>i. minify_loop m i out = minify_loop m j out \<and> tail_at m j (after_slash s) z"
proof (cases s)
  case Nil
  then show ?thesis using assms tail_at_Suc[OF assms(1)]
    by (intro exI[of _ "Suc i"]) (auto simp: peek_tail minify_loop.simps[of m i] after_slash_def)
next
  case (Cons d r)
  note one = tail_at_Suc[OF assms(1)[unfolded Cons]]
  note two = tail_at_Suc[OF one]
  have r: "CHR 0x00 \<notin> set r" using assms(2) Cons by simp
  consider "d = CHR ''/''" | "d = CHR ''*''" | "d \<noteq> CHR ''/''" "d \<noteq> CHR ''*''" by blast
  then show ?thesis
  proof cases
    case 1
    from oneline_loop_rest[OF two r] obtain j where "j \<ge> i" "oneline_loop m (Suc (Suc i)) = Some j" "tail_at m j (line_rest r) z" by auto
    then show ?thesis using 1 one assms(1) Cons
      by (intro exI[of _ j]) (auto simp: peek_tail minify_loop.simps[of m i] skip_oneline_comment_def after_slash_def)
  next
    case 2
    from multiline_loop_rest[OF two r] obtain j where "j \<ge> i" "multiline_loop m (Suc (Suc i)) = Some j" "tail_at m j (comment_rest r) z" by auto
    then show ?thesis using 2 one assms(1) Cons
      by (intro exI[of _ j]) (auto simp: peek_tail minify_loop.simps[of m i] skip_multiline_comment_def after_slash_def)
  next
    case 3
    then show ?thesis using one assms(1) Cons
      by (intro exI[of _ "Suc i"]) (auto simp: peek_tail minify_loop.simps[of m i] after_slash_def)
  qed
qed

lemma minify_loop_writes:
  "tail_at m i s z \<Longrightarrow> CHR 0x00 \<notin> set s \<Longrightarrow> out \<le> i \<Longrightarrow>
    \<exists>m' i' out'. minify_loop m i out = Some (m', out') \<and> out' \<le> i' \<and> tail_at m' i' [] z \<and> writes m out (minified s) m' out'"
proof (induction s arbitrary: m i out rule: minified_cases)
  case nil
  then have "writes m out [] m out" using tail_at_less[OF nil(1)] by (auto intro: writes_refl)
  then show ?case using nil by (auto simp: peek_tail minify_loop.simps[of m i])
next
  case (blank c s)
  have "minify_loop m i out = minify_loop m (Suc i) out" using blank(1,3) by (auto simp: peek_tail minify_loop.simps[of m i])
  then show ?case using blank(2)[OF tail_at_Suc[OF blank(3)], of out] blank(1,4,5) by (simp add: minified_step)
next
  case (slash s)
  from slash_steps[OF slash(2), of out] slash(3) obtain j where j: "j \<ge> i" "minify_loop m i out = minify_loop m j out" "tail_at m j (after_slash s) z" by auto
  have "CHR 0x00 \<notin> set (after_slash s)" using slash(3) after_slash_chars[of s] by auto
  then show ?case using slash(1)[OF j(3), of out] j slash(4) by (simp add: minified_step)
next
  case (quote s)
  from minify_string_copies[OF quote(2-4)] obtain m1 i1 o1 where c: "minify_string m i out = Some (m1, i1, o1)" "o1 \<le> i1"
    "tail_at m1 i1 (snd (string_part s)) z" "writes m out (CHR 0x22 # fst (string_part s)) m1 o1" by blast
  have "minify_loop m i out = minify_loop m1 i1 o1" using quote(2) c(1) by (auto simp: peek_tail minify_loop.simps[of m i])
  moreover have "CHR 0x00 \<notin> set (snd (string_part s))" using rest_chars(4)[of s] quote(3) by auto
  ultimately show ?case using quote(1)[OF c(3) _ c(2)] writes_trans[OF c(4)] by (fastforce simp: minified_step)
next
  case (other c s)
  have less: "out < length m" using tail_at_less[OF other(5)] other(7) by simp
  have "minify_loop m i out = minify_loop (m[out := c]) (Suc i) (Suc out)"
    using other(1-3,5-7) by (auto simp: peek_tail poke_tail minify_loop.simps[of m i])
  moreover note other(4)[OF tail_at_Suc[OF tail_at_put[OF other(5,7)]], of "Suc out"]
  ultimately show ?case using writes_trans[OF writes_put[OF less, of c]] other(1-3,6,7) by (fastforce simp: minified_step)
qed

lemma minified_chars: "set (minified s) \<subseteq> set s"
proof (induction s rule: minified_cases)
  case (slash s)
  then show ?case using after_slash_chars[of s] by (auto simp: minified_step)
next
  case (quote s)
  then show ?case using rest_chars(3,4)[of s] by (auto simp: minified_step)
qed (auto simp: minified_step)

lemma minified_length: "length (minified s) \<le> length s"
proof (induction s rule: minified_cases)
  case (slash s)
  then show ?case using after_slash_length[of s] by (simp add: minified_step)
next
  case (quote s)
  then show ?case using arg_cong[OF string_part_append[of s], of length] by (simp add: minified_step)
qed (simp_all add: minified_step)

text \<open>The block keeps its length and what is behind the text, and holds the minified text.\<close>

theorem cJSON_Minify_block:
  assumes "CHR 0x00 \<notin> set t"
  shows "\<exists>m. cJSON_Minify (Some (t @ CHR 0x00 # z)) = Some (Some m) \<and> length m = length t + 1 + length z \<and>
    c_string m = minified t \<and> drop (length t + 1) m = z"
proof -
  let ?m = "t @ CHR 0x00 # z"
  have "tail_at ?m 0 t z" by (simp add: tail_at_def)
  from minify_loop_writes[OF this assms, of 0] obtain m i out where m: "minify_loop ?m 0 0 = Some (m, out)" "out \<le> i" "tail_at m i [] z" "writes ?m 0 (minified t) m out"
    by auto
  have len: "length m = length t + 1 + length z" "take out m = minified t" "out \<le> length m" using m(4) by (auto simp: writes_def)
  then have out: "out = length (minified t)" by (metis length_take min.absorb2)
  have less: "out < length m" using tail_at_less[OF m(3)] m(2) by simp
  have "length m - i = Suc (length z)" using m(3) length_drop[of i m] by (simp add: tail_at_def)
  then have "i = length t" using len(1) by simp
  then have z: "drop (length t + 1) m = z" using tail_at_def m(3) by (metis append_Nil drop_Suc list.sel(3) Suc_eq_plus1 tl_drop)
  have "take (Suc out) (m[out := CHR 0x00]) = minified t @ [CHR 0x00]" using less len(2) by (simp add: take_Suc_conv_app_nth)
  then have "m[out := CHR 0x00] = minified t @ CHR 0x00 # drop (Suc out) m"
    using less by (metis append_take_drop_id append.assoc append_Cons append_Nil drop_update_cancel lessI)
  moreover have "CHR 0x00 \<notin> set (minified t)" using minified_chars assms by blast
  ultimately have "c_string (m[out := CHR 0x00]) = minified t" by (auto simp: c_string_def takeWhile_tail)
  moreover have "drop (length t + 1) (m[out := CHR 0x00]) = z" using z minified_length[of t] out by simp
  ultimately show ?thesis using m(1) less len(1) by (intro exI[of _ "m[out := CHR 0x00]"]) (simp add: cJSON_Minify_def poke_def)
qed

section \<open>The meaning of minified texts\<close>

text \<open>A backslash before a quote hides the quote from \<open>string_loop\<close>, even if it is itself escaped. So the
  meaning is kept for trees in which no string and no name ends in a backslash.\<close>

definition ends_well :: "string \<Rightarrow> bool" where
  "ends_well s \<longleftrightarrow> s = [] \<or> last s \<noteq> CHR 0x5C"

fun strings_end_well :: "cJSON \<Rightarrow> bool" where
  "strings_end_well (cJSON_String s) \<longleftrightarrow> ends_well s"
| "strings_end_well (cJSON_Array vs) \<longleftrightarrow> (\<forall>v \<in> set vs. strings_end_well v)"
| "strings_end_well (cJSON_Object ms) \<longleftrightarrow> (\<forall>m \<in> set ms. ends_well (fst m) \<and> strings_end_well (snd m))"
| "strings_end_well _ \<longleftrightarrow> True"

lemma string_part_step:
  "c \<noteq> CHR 0x22 \<Longrightarrow> c \<noteq> CHR 0x5C \<or> y \<noteq> [] \<and> hd y \<noteq> CHR 0x22 \<Longrightarrow> string_part (c # y) = (c # fst (string_part y), snd (string_part y))"
  "string_part (CHR 0x5C # CHR 0x22 # y) = (CHR 0x5C # CHR 0x22 # fst (string_part y), snd (string_part y))"
  by (cases y; auto split: prod.splits)+

lemma string_part_quote: "string_part (CHR 0x22 # y) = ([CHR 0x22], y)"
  by (cases y) auto

declare string_part.simps(3) [simp del]

lemma string_part_plain:
  "\<forall>c \<in> set u. c \<noteq> CHR 0x22 \<and> c \<noteq> CHR 0x5C \<Longrightarrow> string_part (u @ y) = (u @ fst (string_part y), snd (string_part y))"
  by (induction u) (auto simp: string_part_step(1))

lemma unit_text_hd: "unit_text u bytes \<Longrightarrow> u \<noteq> [] \<and> hd u \<noteq> CHR 0x22"
  by (induction rule: unit_text.induct) auto

lemma string_text_hd: "string_text t s \<Longrightarrow> t = [] \<and> s = [] \<or> t \<noteq> [] \<and> hd t \<noteq> CHR 0x22"
  by (induction rule: string_text.induct) (auto dest: unit_text_hd)

lemma hex_part: "hex4 hs \<Longrightarrow> string_part (hs @ y) = (hs @ fst (string_part y), snd (string_part y))"
  by (rule string_part_plain) (use hex_plain in \<open>auto simp: hex4_def\<close>)

lemma unit_part:
  assumes "unit_text u bytes" and "bytes = [CHR 0x5C] \<longrightarrow> hd y \<noteq> CHR 0x22" and "y \<noteq> []"
  shows "string_part (u @ y) = (u @ fst (string_part y), snd (string_part y))"
  using assms
proof (induction rule: unit_text.induct)
  case (raw_char c)
  then show ?case by (simp add: string_part_step)
next
  case (short_escape x b)
  have "x = CHR 0x5C \<Longrightarrow> b = CHR 0x5C" using short_escape(1) by (simp add: escape_char_def)
  with short_escape(2) consider "x = CHR 0x22" | "x = CHR 0x5C" "hd y \<noteq> CHR 0x22" | "x \<noteq> CHR 0x22" "x \<noteq> CHR 0x5C" by blast
  then show ?case
  proof cases
    case 1
    then show ?thesis by (simp add: string_part_step(2))
  next
    case 2
    then show ?thesis using string_part_step(1)[of "CHR 0x5C" y] string_part_step(1)[of "CHR 0x5C" "CHR 0x5C # y"] short_escape(3) by simp
  next
    case 3
    then show ?thesis using string_part_step(1)[of x y] string_part_step(1)[of "CHR 0x5C" "x # y"] by simp
  qed
next
  case (code_point hs)
  have "string_part (CHR 0x5C # CHR ''u'' # hs @ y) = (CHR 0x5C # CHR ''u'' # hs @ fst (string_part y), snd (string_part y))"
    using string_part_step(1)[of "CHR 0x5C" "CHR ''u'' # hs @ y"] string_part_step(1)[of "CHR ''u''" "hs @ y"] hex_part[OF code_point(1)] by simp
  then show ?case by simp
next
  case (code_pair hs ls)
  have u: "string_part (CHR 0x5C # CHR ''u'' # hs @ x) = (CHR 0x5C # CHR ''u'' # hs @ fst (string_part x), snd (string_part x))" if "hex4 hs" for hs x
    using string_part_step(1)[of "CHR 0x5C" "CHR ''u'' # hs @ x"] string_part_step(1)[of "CHR ''u''" "hs @ x"] hex_part[OF that] by simp
  show ?case using u[OF code_pair(1), of "CHR 0x5C # CHR ''u'' # ls @ y"] u[OF code_pair(2), of y] by simp
qed

lemma text_part: "string_text t s \<Longrightarrow> ends_well s \<Longrightarrow> string_part (t @ CHR 0x22 # r) = (t @ [CHR 0x22], r)"
proof (induction rule: string_text.induct)
  case string_nil
  then show ?case by (simp add: string_part_quote)
next
  case (string_unit u bytes t s)
  have "bytes = [CHR 0x5C] \<longrightarrow> hd (t @ CHR 0x22 # r) \<noteq> CHR 0x22"
    using string_text_hd[OF string_unit(2)] string_unit(4) by (cases t) (auto simp: ends_well_def)
  moreover have "ends_well s" using string_unit(4) by (auto simp: ends_well_def)
  ultimately show ?case using unit_part[OF string_unit(1), of "t @ CHR 0x22 # r"] string_unit(3) by simp
qed

text \<open>A text that is minified whatever follows it.\<close>

definition shrinks :: "string \<Rightarrow> string \<Rightarrow> bool" where
  "shrinks t m \<longleftrightarrow> (\<forall>r. minified (t @ r) = m @ minified r)"

lemma shrinks_append: "shrinks t m \<Longrightarrow> shrinks t' m' \<Longrightarrow> shrinks (t @ t') (m @ m')"
  by (simp add: shrinks_def)

lemma shrinks_blank: "blank w \<Longrightarrow> shrinks w []"
  by (induction w) (auto simp: shrinks_def blank_def minified_step(1))

definition token_char :: "char \<Rightarrow> bool" where
  "token_char c \<longleftrightarrow> c \<notin> {CHR '' '', CHR 0x09, CHR 0x0D, CHR 0x0A, CHR ''/'', CHR 0x22}"

lemma shrinks_token: "list_all token_char t \<Longrightarrow> shrinks t t"
  by (induction t) (auto simp: shrinks_def token_char_def minified_step(4))

lemma number_token: "is_number_char c \<Longrightarrow> token_char c"
  by (auto simp: is_number_char_def isdigit_def token_char_def)

lemma shrinks_string: "string_text t s \<Longrightarrow> ends_well s \<Longrightarrow> shrinks (CHR 0x22 # t @ [CHR 0x22]) (CHR 0x22 # t @ [CHR 0x22])"
  by (simp add: shrinks_def minified_step text_part)

definition shrinks_to :: "(string \<Rightarrow> bool) \<Rightarrow> string \<Rightarrow> bool" where
  "shrinks_to Q t \<longleftrightarrow> (\<exists>m. shrinks t m \<and> Q m)"

lemma shrinks_padded: "padded (shrinks_to Q) t \<Longrightarrow> shrinks_to Q t"
proof -
  assume "padded (shrinks_to Q) t"
  then obtain w t' w' m where t: "t = w @ t' @ w'" "blank w" "blank w'" "shrinks t' m" "Q m" by (auto simp: padded_def shrinks_to_def)
  have "shrinks (w @ t' @ w') ([] @ m @ [])" by (intro shrinks_append shrinks_blank t)
  then show ?thesis using t by (auto simp: shrinks_to_def)
qed

lemma shrinks_join:
  "list_all2 (\<lambda>x. shrinks_to (Q x)) xs ts \<Longrightarrow> \<exists>ms. list_all2 Q xs ms \<and> shrinks (join_with '','' ts) (join_with '','' ms)"
proof (induction rule: list_all2_induct)
  case Nil
  then show ?case by (simp add: shrinks_def)
next
  case (Cons x xs t ts)
  then obtain m ms where m: "shrinks t m" "Q x m" "list_all2 Q xs ms" "shrinks (join_with '','' ts) (join_with '','' ms)" by (auto simp: shrinks_to_def)
  have comma: "shrinks '','' '',''" by (rule shrinks_token) (simp add: token_char_def)
  have "shrinks (join_with '','' (t # ts)) (join_with '','' (m # ms))"
  proof (cases ts)
    case Nil
    then show ?thesis using m Cons.hyps by auto
  next
    case ts: (Cons u us)
    then obtain k ks where "ms = k # ks" using m(3) Cons.hyps by (metis list_all2_Cons2 list_all2_Cons1)
    then show ?thesis using shrinks_append[OF m(1) shrinks_append[OF comma m(4)]] ts by simp
  qed
  then show ?case using m(2,3) by (intro exI[of _ "m # ms"]) simp
qed

lemma shrinks_brackets: "shrinks t m \<Longrightarrow> token_char a \<Longrightarrow> token_char b \<Longrightarrow> shrinks ([a] @ t @ [b]) ([a] @ m @ [b])"
  by (intro shrinks_append shrinks_token) auto

lemma shrinks_member:
  assumes "member_text (shrinks_to Q) name t" and "ends_well name"
  shows "shrinks_to (member_text Q name) t"
proof -
  from assms(1) obtain nt w tv where t: "t = (CHR 0x22 # nt @ [CHR 0x22]) @ w @ '':'' @ tv" "blank w" "string_text nt name" "padded (shrinks_to Q) tv"
    by (auto simp: member_text_def)
  from shrinks_padded[OF t(4)] obtain m where m: "shrinks tv m" "Q m" by (auto simp: shrinks_to_def)
  have "shrinks '':'' '':''" by (rule shrinks_token) (simp add: token_char_def)
  then have "shrinks t ((CHR 0x22 # nt @ [CHR 0x22]) @ [] @ '':'' @ m)"
    unfolding t(1) by (intro shrinks_append shrinks_string[OF t(3) assms(2)] shrinks_blank[OF t(2)] m)
  then show ?thesis using member_self[of nt name Q m] t(3) m(2) by (auto simp: shrinks_to_def)
qed

lemma denotes_shrinks: "denotes n v t \<Longrightarrow> strings_end_well v \<Longrightarrow> shrinks_to (denotes n v) t"
proof (induction rule: denotes.induct)
  case (text_number t d n)
  have "shrinks t t" by (rule shrinks_token) (use text_number number_token in \<open>auto simp: list_all_iff\<close>)
  then show ?case using denotes.text_number[OF text_number(1-4)] by (auto simp: shrinks_to_def)
next
  case (text_string t s n)
  then show ?case using shrinks_string[of t s] denotes.text_string[of t s n] by (auto simp: shrinks_to_def)
next
  case (text_no_array w n)
  then show ?case using shrinks_brackets[OF shrinks_blank[of w]] denotes.text_no_array[of "[]" n]
    by (auto simp: shrinks_to_def token_char_def blank_def intro!: exI[of _ "''[]''"])
next
  case (text_no_object w n)
  then show ?case using shrinks_brackets[OF shrinks_blank[of w]] denotes.text_no_object[of "[]" n]
    by (auto simp: shrinks_to_def token_char_def blank_def intro!: exI[of _ "''{}''"])
next
  case (text_array vs n ts)
  have "list_all2 (\<lambda>v. shrinks_to (denotes n v)) vs ts"
    using text_array(2)
  proof (rule list.rel_mono_strong)
    fix v t assume v: "v \<in> set vs" and t: "padded (\<lambda>x. denotes n v x \<and> (strings_end_well v \<longrightarrow> shrinks_to (denotes n v) x)) t"
    have "padded (shrinks_to (denotes n v)) t" using t by (rule padded_mono[rule_format, rotated]) (use v text_array(3) in auto)
    then show "shrinks_to (denotes n v) t" by (rule shrinks_padded)
  qed
  from shrinks_join[OF this] obtain ms where ms: "list_all2 (denotes n) vs ms" "shrinks (join_with '','' ts) (join_with '','' ms)" by blast
  have "list_all2 (\<lambda>v. padded (denotes n v)) vs ms" using ms(1) by (rule list_all2_mono) (rule padded_self)
  from denotes.text_array[OF text_array(1) this] show ?case
    using shrinks_brackets[OF ms(2), of "CHR ''[''" "CHR '']''"] by (auto simp: shrinks_to_def token_char_def)
next
  case (text_object ms n ts)
  have "list_all2 (\<lambda>m. shrinks_to (member_text (denotes n (snd m)) (fst m))) ms ts"
    using text_object(2)
  proof (rule list.rel_mono_strong)
    fix m t assume m: "m \<in> set ms" and t: "padded (member_text (\<lambda>x. denotes n (snd m) x \<and> (strings_end_well (snd m) \<longrightarrow> shrinks_to (denotes n (snd m)) x)) (fst m)) t"
    have ok: "ends_well (fst m)" "strings_end_well (snd m)" using m text_object(3) by auto
    have "padded (shrinks_to (member_text (denotes n (snd m)) (fst m))) t"
      using t by (rule padded_mono[rule_format, rotated]) (auto intro!: shrinks_member ok elim!: member_text_mono[rule_format, rotated] simp: ok)
    then show "shrinks_to (member_text (denotes n (snd m)) (fst m)) t" by (rule shrinks_padded)
  qed
  from shrinks_join[OF this] obtain us where us: "list_all2 (\<lambda>m. member_text (denotes n (snd m)) (fst m)) ms us" "shrinks (join_with '','' ts) (join_with '','' us)" by blast
  have "list_all2 (\<lambda>m. padded (member_text (denotes n (snd m)) (fst m))) ms us" using us(1) by (rule list_all2_mono) (rule padded_self)
  from denotes.text_object[OF text_object(1) this] show ?case
    using shrinks_brackets[OF us(2), of "CHR ''{''" "CHR ''}''"] by (auto simp: shrinks_to_def token_char_def)
qed (auto simp: shrinks_to_def token_char_def intro!: exI shrinks_token denotes.intros)

lemma denotes_minified:
  assumes "denotes n v t" and "strings_end_well v" and "blank w" and "blank w'"
  shows "denotes n v (minified (w @ t @ w'))"
proof -
  from denotes_shrinks[OF assms(1,2)] obtain m where m: "shrinks t m" "denotes n v m" by (auto simp: shrinks_to_def)
  have "shrinks (w @ t @ w') ([] @ m @ [])" by (intro shrinks_append shrinks_blank m assms)
  then show ?thesis using m(2) shrinks_def[of "w @ t @ w'"] by (metis append_Nil append_Nil2 minified.simps(1))
qed

text \<open>Minifying a text that is minified changes nothing.\<close>

lemma fst_part: "\<exists>p. fst (string_part (d # s)) = d # p"
  by (cases s) (auto simp: string_part.simps(3) split: prod.splits)

lemma string_part_again:
  "string_part (fst (string_part s)) = (fst (string_part s), []) \<and>
   (snd (string_part s) \<noteq> [] \<longrightarrow> string_part (fst (string_part s) @ r) = (fst (string_part s), r))"
proof (induction s rule: string_part.induct)
  case (3 c d s)
  consider (quote) "c = CHR 0x22" | (escape) "c = CHR 0x5C" "d = CHR 0x22" | (other) "c \<noteq> CHR 0x22" "\<not> (c = CHR 0x5C \<and> d = CHR 0x22)" by blast
  then show ?case
  proof cases
    case quote
    then show ?thesis by (simp add: string_part_quote)
  next
    case escape
    then show ?thesis using 3(1) by (simp add: string_part_step(2))
  next
    case other
    obtain p where p: "fst (string_part (d # s)) = d # p" using fst_part by blast
    have "string_part (c # x) = (c # fst (string_part x), snd (string_part x))" if "x \<noteq> []" "hd x = d" for x
      by (rule string_part_step(1)) (use other that in auto)
    from this[of "d # s"] this[of "d # p"] this[of "d # p @ r"] show ?thesis using 3(2)[OF other] p by simp
  qed
qed auto

lemma minified_minified: "minified (minified s) = minified s"
proof (induction s rule: minified_cases)
  case (quote s)
  then show ?case using string_part_again[of s "minified (snd (string_part s))"]
    by (cases "snd (string_part s) = []") (auto simp: minified_step)
qed (simp_all add: minified_step)

section \<open>Parsing a minified text\<close>

lemma c_string_split:
  assumes "length (c_string m) < length m"
  shows "\<exists>r. m = c_string m @ CHR 0x00 # r"
proof (cases "dropWhile (\<lambda>c. c \<noteq> CHR 0x00) m")
  case Nil
  then have "c_string m = m" using takeWhile_dropWhile_id[of "\<lambda>c. c \<noteq> CHR 0x00" m] by (simp add: c_string_def)
  then show ?thesis using assms by simp
next
  case (Cons c r)
  then have "c = CHR 0x00" using hd_dropWhile[of "\<lambda>c. c \<noteq> CHR 0x00" m] by simp
  then show ?thesis using takeWhile_dropWhile_id[of "\<lambda>c. c \<noteq> CHR 0x00" m] Cons by (metis c_string_def)
qed

lemma minify_meaning:
  assumes "denotes CJSON_NESTING_LIMIT item t" and "strings_end_well item" and "blank w" and "blank w'" and "\<forall>ok \<in> set hs. ok"
  shows "\<exists>m b. cJSON_Minify (Some ((w @ t @ w') @ CHR 0x00 # z)) = Some (Some m) \<and> cJSON_Parse (c_string m) hs = Tree item b \<and>
    length m = length (w @ t @ w') + 1 + length z \<and> drop (length (w @ t @ w') + 1) m = z \<and>
    length (c_string m) \<le> length (w @ t @ w') \<and>
    (\<exists>m'. cJSON_Minify (Some m) = Some (Some m') \<and> c_string m' = c_string m)"
proof -
  let ?t = "w @ t @ w'"
  have nul: "CHR 0x00 \<notin> set ?t" using denotes_source[OF assms(1)] assms(3,4) by (auto simp: blank_def)
  from cJSON_Minify_block[OF this, of z] obtain m where m: "cJSON_Minify (Some (?t @ CHR 0x00 # z)) = Some (Some m)"
    "length m = length ?t + 1 + length z" "c_string m = minified ?t" "drop (length ?t + 1) m = z" by blast
  have "denotes CJSON_NESTING_LIMIT item (minified ?t)" by (rule denotes_minified[OF assms(1-4)])
  from cJSON_Parse_denotes[OF this, of "[]" "[]" hs] assms(5) obtain b where b: "cJSON_Parse (c_string m) hs = Tree item b"
    using m(3) by (auto simp: blank_def)
  have "length (c_string m) < length m" using m(2,3) minified_length[of ?t] by simp
  then obtain r where r: "m = c_string m @ CHR 0x00 # r" using c_string_split by blast
  have "CHR 0x00 \<notin> set (c_string m)" unfolding m(3) using minified_chars[of ?t] nul by blast
  from cJSON_Minify_block[OF this, of r] r obtain m' where "cJSON_Minify (Some m) = Some (Some m')" "c_string m' = minified (c_string m)" by auto
  then have "\<exists>m'. cJSON_Minify (Some m) = Some (Some m') \<and> c_string m' = c_string m" using minified_minified[of ?t] m(3) by auto
  then show ?thesis using m b minified_length[of ?t] by auto
qed

text \<open>The text \<^verbatim>\<open>["\\","a b"]\<close>, whose first string is one backslash.\<close>

definition hidden_quote :: string where
  \<open>hidden_quote = ''["'' @ [CHR 0x5C, CHR 0x5C] @ ''","a b"]''\<close>

definition hidden_quote_minified :: string where
  \<open>hidden_quote_minified = ''["'' @ [CHR 0x5C, CHR 0x5C] @ ''","ab"]''\<close>

lemma hidden_quote_minify:
  "map_option (map_option c_string) (cJSON_Minify (Some (hidden_quote @ [CHR 0x00]))) = Some (Some hidden_quote_minified)"
proof -
  have "minified hidden_quote = hidden_quote_minified" "CHR 0x00 \<notin> set hidden_quote" by code_simp+
  then show ?thesis using cJSON_Minify_block[of hidden_quote "[]"] by auto
qed

end
