(* ===== verification/Spec2Isabelle.thy ===== *)
theory Spec2Isabelle
  imports Demo Isolation Wire Threadpool Server Ui End_To_End Ssh_Gate Cjson_Output Cjson_Create
    Cjson_Edit Cjson_Compare Cjson_Minify
begin

text \<open>
  sshnack is a vending machine that is operated over SSH: an HTTP/JSON server in C keeps the machine in an
  SQLite database, and a terminal client in C, started by the SSH daemon, shows the slots and sends the
  user's actions to the server. This development models the C code of both programs, the JSON library and the
  SSH gate between them, and proves what makes them correct. File names below are relative to \<^verbatim>\<open>src/\<close>.

  \<^bold>\<open>The server and its theories.\<close>
  \<^item> \<^verbatim>\<open>server/src/server.c\<close> (theory Server): configuration from environment and arguments, listening
    sockets, the accept loop that hands every connection to the thread pool, shutdown. System calls are
    scripts of their results.
  \<^item> \<^verbatim>\<open>server/src/threadpool/threadpool.c\<close> (theories Work_Queue, Threadpool): the linked list of jobs in an
    explicit heap, and the pool as a step relation whose steps are the critical sections of the code. The
    state carries the history of jobs submitted, started, completed and thrown away.
  \<^item> \<^verbatim>\<open>server/src/api/api.c\<close>, \<^verbatim>\<open>auth.c\<close> (theories Http_Request, Auth, Router): the request parser on the receive
    buffer, the rights of a token, the life of one connection as a list of socket events.
  \<^item> \<^verbatim>\<open>server/src/api/router/\<close> (theories Radix_Tree, Router): the tree of path segments with its wildcard,
    failing allocations and the static state of \<^verbatim>\<open>strtok\<close>; the route table and the dispatch by method.
  \<^item> \<^verbatim>\<open>server/src/api/router/handlers/\<close> (theory Handlers): the nine handlers, their \<^verbatim>\<open>sscanf\<close> formats and their
    response buffers. A response is \<open>Sent\<close>, or the model says that the code reads or writes beyond a buffer.
  \<^item> \<^verbatim>\<open>server/src/services/\<close>, \<^verbatim>\<open>server/src/db/db.c\<close> (theories Balance_Service, Orders_Service, Products_Service,
    Users_Service, Db): every service as a program of SQLite calls, each error path included.
  \<^item> \<^verbatim>\<open>init.sql\<close> (theory Schema): the tables, their constraints, the seed, and the meaning of each SQL text of
    the program on these tables.

  \<^bold>\<open>The client and its theories.\<close>
  \<^item> \<^verbatim>\<open>tui/src/api_client.c\<close> (theory Api_Client): the requests and the reading of their answers, over libcurl as
    a parameter.
  \<^item> \<^verbatim>\<open>extern/cJSON/cJSON.c\<close>, the parser that the client reads answers with (theories Strtod, Cjson): buffer,
    numbers (with \<^verbatim>\<open>strtod\<close> as rounding of exact rationals), strings with escapes and UTF-16 literals, arrays and
    objects with the nesting limit, lookup of members. Accesses outside of the input or of an allocated block
    are results of the model, and shown not to happen (Cjson_Safety); the trees it returns are well formed
    (Cjson_Type); it reads the texts of a grammar (Cjson_Grammar) and the texts that programs write
    (Cjson_Read).
  \<^item> The printer of the same library (theories Printf_Double, Cjson_Print, Cjson_Output): the growing output block
    with indeterminate bytes, \<^verbatim>\<open>printf\<close> of a double with 15 or 17 digits, the four entry points.
  \<^item> The trees of the same library in memory, on a heap of items and texts: look-up, linking, detaching,
    inserting and replacing along the pointers \<^verbatim>\<open>next\<close>, \<^verbatim>\<open>prev\<close> and \<^verbatim>\<open>child\<close> (theories Cjson_Heap, Cjson_Edit), what a
    tree owns and its deletion (Cjson_Own), creation of items and arrays and copies (theories Cjson_Build,
    Cjson_Copy, Cjson_Create). Comparing of trees (Cjson_Compare) and minifying of texts in their block
    (Cjson_Minify).
  \<^item> \<^verbatim>\<open>tui/src/app.c\<close>, \<^verbatim>\<open>tui/src/tui.c\<close> (theory Tui_App): the whole application state and every key, configuration,
    main loop.
  \<^item> \<^verbatim>\<open>tui/src/ui.c\<close> (theory Ui): a frame as the list of its ncurses calls; \<^verbatim>\<open>main\<close> of the client.
  \<^item> \<^verbatim>\<open>ssh/authencesn.py\<close>, \<^verbatim>\<open>ssh/entrypoint.sh\<close> (theory Ssh_Gate): the script that the SSH daemon runs for an offered
    key, over the HTTP package of Python and the daemon as parameters, and the environment file it reads.
  \<^item> Theories Wire and End_To_End put both ends together: what the client writes is what the server reads, and
    what the server answers is what the client shows.

  \<^bold>\<open>Foundations.\<close> Prelude has C's integer widths and tables as sorted row lists; Cstring the functions of
  \<^verbatim>\<open>string.h\<close>, \<^verbatim>\<open>stdlib.h\<close> and \<^verbatim>\<open>stdio.h\<close> that the code uses. SQLite is not part of the repository: it is a record
  of functions over any type of connection states, and what the code relies on is the locale
  \<open>sqlite_contract\<close> of theory Sqlite (committed data, open transaction, prepared statements, and every
  failure that SQLite may report at any call). A weakest-precondition calculus for programs of SQLite calls is
  derived from it. Mem_Sqlite interprets the contract with an executable connection whose failures are a
  script; the witnesses run on it.

  \<^bold>\<open>Interfaces.\<close> \<open>transactional_service\<close> and \<open>audited_service\<close> (Service_Contract) are the contract of a
  service towards its handler: it refines an abstract specification atomically and keeps the schema and the
  books; deposit, purchase, refill and price change interpret it. \<open>audited_handler\<close> (Handlers) is the contract
  of a handler towards the connection, interpreted by all nine. \<open>route_table\<close> (Radix_Tree) and \<open>fifo_queue\<close>
  (Work_Queue) are the contracts of the tree and of the job list. \<open>item_loop\<close> (Cjson_Grammar) is the contract that the
  loops over array elements and object members share; \<open>item_list\<close> (Cjson_Edit) is that of a list of items that
  are appended and detached, interpreted by the children of an item in memory.

  \<^bold>\<open>What is proved.\<close> C1 to C10: each service refines its specification under all failures of SQLite; any bytes
  on any connection keep schema and books; a request changes only what its token allows; listing terminates
  and is complete. C11 to C16: routing is the route table, parsing inverts writing, buffers hold, client and
  server agree. C17 and C18: what goes wrong where the code has no guard: workers sharing the connection and
  \<^verbatim>\<open>strtok\<close> (C13), balances and lists beyond the fixed sizes. C19 to C24: the pool loses no job, comes to
  rest, never follows a bad pointer and is freed last; the accept loop. C25 to C27: the client's invariant over
  all keys and answers, its moves and its amounts. C28 to C32: the JSON parser is memory safe and ends on every
  input, returns well-formed trees and reads every text of the grammar; the printer is memory safe and prints
  the text of the tree, which the parser reads back. C33 to C36: editing of trees refines lists of children;
  copies are separate trees of the same content, and deleting frees exactly what a tree owns; comparing decides
  equality up to the order of members; minifying keeps the meaning of a text, but for strings that end in a
  backslash. C37: a refresh of the client shows what the machine holds. C38 and C39: an SSH key leads to a session
  on its account, and to one on a shared account when the look-up fails. C40: the layout of the screen. The
  rights of tokens (\<open>auth_parse_admin\<close>, \<open>auth_parse_user\<close>) and the validity of the configuration
  (\<open>load_config_ok\<close>) are lemmas of their theories.

  \<^bold>\<open>Bounds and fuel.\<close> The loop over result rows takes fuel: more than the number of slots is enough (C10). The
  loop that frees the job list takes fuel: the number of queued jobs is enough (C22). The mutually recursive
  functions of the JSON parser take fuel: the entry points give three times the length of the input, which is
  enough (C28). Loops along pointers of the heap, which end only on lists without cycles, are partial functions
  whose value \<open>None\<close> is an access to a block that is not there or no end; the theorems show that they return.
  The depth of a copy is bounded by the limit of 10000 of the code. All other loops are total functions.
  \<open>machine_limits\<close> (theory Handlers) are the sizes within which the fixed buffers and widths of the server are
  exact; C18 shows what happens beyond them.

  \<^bold>\<open>Not modelled.\<close> Diagnostics on \<^verbatim>\<open>stderr\<close>; time (the sleep of the debug handler, timeouts); ncurses, libcurl, the
  HTTP package of Python and the SSH daemon themselves; of \<^verbatim>\<open>extern/cJSON\<close> the version string and the pointer to
  the last error; build and container files. That a block of memory may be handed out again after it was
  freed: addresses in the heap of trees are new.
  Requests of several workers are interleaved call by call (\<open>run_sched\<close>) and search step by search step
  (\<open>search_sched\<close>) to show what can go wrong; the theorems about complete requests are about one request at a
  time on the connection.
\<close>

section \<open>Money and stock\<close>





text \<open>Connections served one after the other, each by the connection handler.\<close>

primrec serve_all ::
    "'db sqlite \<Rightarrow> nat \<Rightarrow> (client_t \<times> string) list \<Rightarrow> 'db \<Rightarrow> sock_event list list \<times> 'db" where
  "serve_all sq fuel [] db = ([], db)"
| "serve_all sq fuel (c # cs) db =
     (let (evs, db1) = run sq (handle_client router_tree fuel None (Some (fst c)) (snd c)) db;
          (rest, db2) = serve_all sq fuel cs db1
      in (evs # rest, db2))"

text \<open>C3. So do any number of connections served one after the other, starting from any well-formed
  machine, as long as the sizes stay within the limits.\<close>

theorem served_clients_keep_books:
  assumes "sqlite_contract sql_sem sq view faulty" and "txn (view db) = None"
    and "schema_ok (committed (view db))" and "books_ok (committed (view db))"
    and "\<forall>k \<le> length cs. machine_limits (committed (view (snd (serve_all sq fuel (take k cs) db)))) \<and>
      length (stock (committed (view (snd (serve_all sq fuel (take k cs) db))))) < fuel"
  shows "schema_ok (committed (view (snd (serve_all sq fuel cs db)))) \<and>
    books_ok (committed (view (snd (serve_all sq fuel cs db)))) \<and>
    txn (view (snd (serve_all sq fuel cs db))) = None"
  using assms(2-5)
proof (induction cs arbitrary: db)
  case (Cons c cs)
  obtain evs db1 where r: "run sq (handle_client router_tree fuel None (Some (fst c)) (snd c)) db = (evs, db1)"
    by (cases "run sq (handle_client router_tree fuel None (Some (fst c)) (snd c)) db")
  from Cons.prems(4)[rule_format, of 0]
  have lim: "machine_limits (committed (view db))" "length (stock (committed (view db))) < fuel" by auto
  note ok = sqlite_contract.run_wp[OF assms(1) wp_handle_client[OF Cons.prems(1-3) lim] r, of "faulty db"]
  have later: "machine_limits (committed (view (snd (serve_all sq fuel (take k cs) db1)))) \<and>
      length (stock (committed (view (snd (serve_all sq fuel (take k cs) db1))))) < fuel" if "k \<le> length cs" for k
    using Cons.prems(4)[rule_format, of "Suc k"] that r by (simp add: split_beta Let_def)
  show ?case
    using Cons.IH[of db1] ok later r by (simp add: client_post_def split_beta Let_def)
qed simp

theorem served_clients_keep_books_witness:
  "books_ok (committed (mem_view (snd (serve_all mem_sqlite 31
     [(\<lparr>c_internal = False, c_ctx = \<lparr>admin_token = ''admin''\<rparr>\<rparr>, print_request POST ''/orders'' [] (show_int 1) [] (purchase_body 11))]
     demo_db))))"
proof -
  let ?cl = "\<lparr>c_internal = False, c_ctx = \<lparr>admin_token = ''admin''\<rparr>\<rparr>"
  let ?cs = "[(?cl, print_request POST ''/orders'' [] (show_int 1) [] (purchase_body 11))]"
  obtain r db1 where r: "run mem_sqlite (orders_purchase 1 11) demo_db = (r, db1)"
    by (cases "run mem_sqlite (orders_purchase 1 11) demo_db")
  have "purchase_fits 1 11 demo" by (rule limits_purchase[OF demo_limits demo_schema])
  with r purchase.run_atomic[OF mem.sqlite_contract_axioms _ _ r]
  have "committed (mem_view db1) = demo \<or> purchase_spec 1 11 demo = Some (committed (mem_view db1))" by auto
  moreover have "machine_limits (the (purchase_spec 1 11 demo))" "length (stock (the (purchase_spec 1 11 demo))) = 30"
    by code_simp+
  ultimately have lim: "machine_limits (committed (mem_view db1))" "length (stock (committed (mem_view db1))) = 30"
    using demo_limits demo_stock by auto
  have "show_int 1 \<noteq> ''admin''" by code_simp
  then have "snd (serve_all mem_sqlite 31 ?cs demo_db) = db1"
    by (simp add: client_purchase wire_headers_def is_int32_def run_call r split_beta Let_def)
  then have "machine_limits (committed (mem_view (snd (serve_all mem_sqlite 31 (take k ?cs) demo_db)))) \<and>
      length (stock (committed (mem_view (snd (serve_all mem_sqlite 31 (take k ?cs) demo_db))))) < 31" if "k \<le> length ?cs" for k
    using that lim demo_limits demo_stock by (cases k) simp_all
  then show ?thesis
    using served_clients_keep_books[OF mem.sqlite_contract_axioms, of demo_db ?cs 31] demo_schema demo_books by simp
qed

text \<open>C4. On the public port a request changes no more than its token allows: nothing without a valid
  token; with a user token only the own account and, by purchases, the stock, never a price; refills and
  prices only with the admin token.\<close>

theorem public_request_rights:
  assumes "sqlite_contract sql_sem sq view faulty" and "txn (view db) = None"
    and "schema_ok (committed (view db))" and "machine_limits (committed (view db))"
    and "length (stock (committed (view db))) < fuel" and "\<not> c_internal cl"
    and "run sq (handle_client router_tree fuel saved (Some cl) received) db = (evs, db')"
  shows "may_change (req_auth (parse_request (recv_text received) (admin_token (c_ctx cl))))
    (committed (view db)) (committed (view db'))"
  using sqlite_contract.run_wp[OF assms(1) wp_client_may_change[OF assms(2-6)] assms(7), of "faulty db"] by simp

theorem public_request_rights_witness:
  "case run mem_sqlite (handle_client router_tree 31 None (Some \<lparr>c_internal = False, c_ctx = \<lparr>admin_token = ''admin''\<rparr>\<rparr>)
       ''PATCH /items/1 HTTP/1.1'') demo_db of
     (evs, db') \<Rightarrow> may_change (req_auth (parse_request (recv_text ''PATCH /items/1 HTTP/1.1'') ''admin'')) demo (committed (mem_view db'))"
  by (rule case_prodI2, drule public_request_rights[OF mem.sqlite_contract_axioms, rotated -1])
     (simp_all add: demo_schema demo_limits demo_stock)

text \<open>C5. A deposit is atomic: a positive amount is credited (an unknown account is opened with it) and
  logged, or nothing changes.\<close>

theorem deposit_atomic:
  assumes "sqlite_contract sql_sem sq view faulty" and "txn (view db) = None"
    and "deposit_fits uid amt (committed (view db))" and "run sq (balance_deposit uid amt) db = (r, db')"
  shows "txn (view db') = None \<and> stmts (view db') = stmts (view db) \<and>
    ((r = 0 \<and> deposit_spec uid amt (committed (view db)) = Some (committed (view db'))) \<or>
     (r = -1 \<and> committed (view db') = committed (view db) \<and>
      (faulty db \<or> deposit_spec uid amt (committed (view db)) = None)))"
  using assms by (rule deposit.run_atomic)

theorem deposit_atomic_witness:
  "case run mem_sqlite (balance_deposit 1 1000) (mem_open seed []) of (r, db') \<Rightarrow> r = 0 \<and> committed (mem_view db') = demo"
proof -
  obtain r db' where r: "run mem_sqlite (balance_deposit 1 1000) (mem_open seed []) = (r, db')"
    by (cases "run mem_sqlite (balance_deposit 1 1000) (mem_open seed [])")
  show ?thesis
    using deposit_atomic[OF mem.sqlite_contract_axioms _ _ r] r demo_fits demo_spec by auto
qed



text \<open>C7. A refill is atomic: a positive quantity is added to an existing slot together with its stock
  log entry, or nothing changes.\<close>

theorem restock_atomic:
  assumes "sqlite_contract sql_sem sq view faulty" and "txn (view db) = None"
    and "restock_fits slot qty (committed (view db))" and "run sq (product_restock slot qty) db = (r, db')"
  shows "txn (view db') = None \<and> stmts (view db') = stmts (view db) \<and>
    ((r = 0 \<and> restock_spec slot qty (committed (view db)) = Some (committed (view db'))) \<or>
     (r = -1 \<and> committed (view db') = committed (view db) \<and>
      (faulty db \<or> restock_spec slot qty (committed (view db)) = None)))"
  using assms by (rule restock.run_atomic)

theorem restock_atomic_witness:
  "case run mem_sqlite (product_restock 11 5) demo_db of (r, db') \<Rightarrow>
     r = 0 \<and> restock_spec 11 5 demo = Some (committed (mem_view db'))"
proof -
  obtain r db' where r: "run mem_sqlite (product_restock 11 5) demo_db = (r, db')"
    by (cases "run mem_sqlite (product_restock 11 5) demo_db")
  have "restock_fits 11 5 demo" by (rule limits_restock[OF demo_limits demo_schema]) (simp add: is_int32_def)
  moreover have "restock_spec 11 5 demo \<noteq> None" by (simp add: restock_spec_def demo_slot_row)
  ultimately show ?thesis
    using restock_atomic[OF mem.sqlite_contract_axioms _ _ r] r by auto
qed

text \<open>C8. A price change, outside of any transaction, is accepted exactly for positive prices and then
  changes the price of that item and nothing else; an item that does not exist is accepted too and
  changes nothing.\<close>

theorem price_change:
  assumes "sqlite_contract sql_sem sq view faulty" and "txn (view db) = None"
    and "run sq (product_update_price item p) db = (r, db')"
  shows "txn (view db') = None \<and> stmts (view db') = stmts (view db) \<and>
    ((r = 0 \<and> 0 < p \<and> committed (view db') =
        (committed (view db))\<lparr>items := row_upd item (i_price_update (\<lambda>_. p)) (items (committed (view db)))\<rparr>) \<or>
     (r = -1 \<and> committed (view db') = committed (view db) \<and> (faulty db \<or> p \<le> 0)))"
  using set_price.run_atomic[OF assms(1,2) _ assms(3)] by (auto simp: price_spec_def split: if_splits)

theorem price_change_witness:
  "case run mem_sqlite (product_update_price 1 750) demo_db of (r, db') \<Rightarrow>
     r = 0 \<and> map_of (items (committed (mem_view db'))) 1 = Some \<lparr>i_name = ''Cola Classic'', i_price = 750\<rparr>"
proof -
  obtain r db' where r: "run mem_sqlite (product_update_price 1 750) demo_db = (r, db')"
    by (cases "run mem_sqlite (product_update_price 1 750) demo_db")
  have "map_of (items demo) 1 = Some \<lparr>i_name = ''Cola Classic'', i_price = 500\<rparr>" by code_simp
  then show ?thesis
    using price_change[OF mem.sqlite_contract_axioms _ r] r by (auto simp: map_of_row_upd)
qed

text \<open>C9. An SSH key has one account: the lookup answers with the account that carries the fingerprint
  afterwards (the answer is its id as a C \<^verbatim>\<open>int\<close>), opens it empty under the next id if there was none, and
  leaves every other account alone.\<close>

theorem lookup_account:
  assumes "sqlite_contract sql_sem sq view faulty" and "txn (view db) = None"
    and "schema_ok (committed (view db))" and "run sq (users_lookup fp) db = (r, db')"
  shows "txn (view db') = None \<and> stmts (view db') = stmts (view db) \<and>
    ((\<exists>uid. r = wrap32 uid \<and> user_of_fingerprint fp (committed (view db')) = Some uid \<and>
        (user_of_fingerprint fp (committed (view db)) = None \<longrightarrow>
           uid = user_seq (committed (view db)) + 1 \<and> balance_of uid (committed (view db')) = 0) \<and>
        (user_of_fingerprint fp (committed (view db)) \<noteq> None \<longrightarrow> users (committed (view db')) = users (committed (view db))) \<and>
        (\<forall>u. u \<noteq> uid \<longrightarrow> map_of (users (committed (view db'))) u = map_of (users (committed (view db))) u)) \<or>
     (r = -1 \<and> committed (view db') = committed (view db) \<and>
      (faulty db \<or> LONG_MAX \<le> user_seq (committed (view db)))))"
proof -
  have post: "lookup_post (faulty db) fp (view db) r (view db')"
    using sqlite_contract.run_wp[OF assms(1) wp_users_lookup[OF assms(2)] assms(4), of "faulty db"] by simp
  then show ?thesis
  proof (cases "\<exists>uid. lookup_spec fp (committed (view db)) uid (committed (view db')) \<and> r = wrap32 uid")
    case True
    then obtain uid where u: "lookup_spec fp (committed (view db)) uid (committed (view db'))" "r = wrap32 uid" by blast
    with post lookup_spec_account[OF assms(3) u(1)] show ?thesis
      by (intro conjI disjI1 exI[of _ uid]) (auto simp: lookup_post_def)
  qed (auto simp: lookup_post_def)
qed

theorem lookup_account_witness:
  "case run mem_sqlite (users_lookup ''SHA256:x'') demo_db of (r, db') \<Rightarrow>
     r = 2 \<and> user_of_fingerprint ''SHA256:x'' (committed (mem_view db')) = Some 2"
proof -
  obtain r db' where r: "run mem_sqlite (users_lookup ''SHA256:x'') demo_db = (r, db')"
    by (cases "run mem_sqlite (users_lookup ''SHA256:x'') demo_db")
  have "user_seq demo = 1" "user_of_fingerprint ''SHA256:x'' demo = None" by code_simp+
  then show ?thesis
    using lookup_account[OF mem.sqlite_contract_axioms _ _ r] r demo_schema by (auto simp: wrap32_small)
qed

text \<open>C10. Within the limits, \<^verbatim>\<open>GET /stock\<close> answers with the complete JSON list of the machine in slot
  order, however often the array of products has to grow (a fuel above the number of slots is enough), unless
  SQLite or the allocator fails, and then with status 500.\<close>

theorem stock_listing:
  assumes "sqlite_contract sql_sem sq view faulty" and "txn (view db) = None"
    and "machine_limits (committed (view db))" and "length (stock (committed (view db))) < fuel"
    and "run sq (handle_get_stock fuel req) db = (out, db')"
  shows "view db' = view db \<and>
    (out = Sent (json_response ''200 OK'' (stock_json (map product_of (join_rows (committed (view db)))))) \<or>
     (faulty db \<and> (\<exists>body. out = Sent (json_response ''500 Internal Server Error'' body))))"
  using sqlite_contract.run_wp[OF assms(1) wp_get_stock[OF assms(2-4)] assms(5), of "faulty db"] by simp

theorem stock_listing_witness:
  "fst (run mem_sqlite (handle_get_stock 31 (parse_request ''GET /stock HTTP/1.1'' ''admin'')) demo_db) =
     Sent (json_response ''200 OK'' (stock_json (map product_of (join_rows demo))))"
  using stock_listing[OF mem.sqlite_contract_axioms _ _ _ surjective_pairing, of demo_db 31 "parse_request ''GET /stock HTTP/1.1'' ''admin''"]
  by (simp add: demo_limits demo_stock)

section \<open>Requests and routing\<close>

text \<open>C11. The tree that the router builds finds, for every path, exactly the handlers of the route
  table: by the non-empty segments of the path, with a wildcard last segment for slots and items.\<close>

theorem router_finds_routes:
  "\<exists>tree. init_router [] = Some tree \<and>
     (\<forall>path saved. fst (search_node tree path saved) = route_spec (segments (CHR ''/'') path))"
  by (simp add: init_router_tree search_router)




text \<open>C14. A request that fits the buffers is read back as it was written: method, path, body and the
  rights of its token, whatever other headers stand before and after the token.\<close>

theorem request_roundtrip:
  assumes "path \<noteq> []" and "length path < MAX_PATH_LEN" and "\<forall>c \<in> set path. \<not> isspace c"
    and "\<forall>h \<in> set (hs1 @ hs2). plain_header h"
    and "CHR 0x0D \<notin> set token" and "length token < BEARER_SIZE" and "length body < MAX_BODY_LEN"
  shows "parse_request (print_request m path hs1 token hs2 body) adm =
    \<lparr>req_method = Some m, req_path = path, req_body = body, req_auth = auth_parse token adm\<rparr>"
  using assms by (rule parse_print_request)

theorem request_roundtrip_witness:
  "req_body (parse_request (print_request PATCH ''/stock/11'' [''Host: localhost''] ''admin'' [''Accept: */*''] (restock_body 5)) ''admin'')
     = restock_body 5"
proof -
  have "plain_header ''Host: localhost''" "plain_header ''Accept: */*''" by code_simp+
  moreover have "length (restock_body 5) < MAX_BODY_LEN" by code_simp
  ultimately show ?thesis
    by (subst request_roundtrip) (simp_all add: isspace_def MAX_PATH_LEN_def BEARER_SIZE_def)
qed



text \<open>C16. Client and server agree on the wire format. What the terminal client sends for a purchase, a
  deposit, a refill or a price change, arriving whole at the server, makes the server run exactly that
  service call with the same account and numbers, and answer with its outcome.\<close>

theorem client_server_agree:
  assumes "wire_headers hs1 hs2" and "is_int32 n" and "is_int32 k" and "0 < uid" and "uid \<le> INT_MAX"
    and "admin_token (c_ctx cl) = adm" and "show_int uid \<noteq> adm" and "adm \<noteq> []" and "length adm < BEARER_SIZE"
    and "CHR 0x0D \<notin> set adm" and "CHR 0x00 \<notin> set adm"
  shows \<open>handle_client router_tree fuel saved (Some cl) (print_request POST ''/orders'' hs1 (show_int uid) hs2 (purchase_body n)) =
      call (orders_purchase uid n) (\<lambda>rc. Ret [SockSend (if rc \<noteq> 0 then send_json_orders 500 ''{"error":"purchase failed"}''
        else send_json_orders 200 ''{"ok":true}''), SockClose]) \<and>
    handle_client router_tree fuel saved (Some cl) (print_request POST ''/balance'' hs1 (show_int uid) hs2 (deposit_body n)) =
      call (balance_deposit uid n) (\<lambda>rc. Ret [SockSend (if rc \<noteq> 0 then send_json_balance 500 ''{"error":"internal error"}''
        else send_json_balance 200 ''{"ok":true}''), SockClose]) \<and>
    handle_client router_tree fuel saved (Some cl) (print_request PATCH (restock_path n) hs1 adm hs2 (restock_body k)) =
      call (product_restock n k) (\<lambda>rc. Ret [SockSend (if rc \<noteq> 0 then send_json_admin 500 ''{"error":"restock failed"}''
        else send_json_admin 200 ''{"ok":true}''), SockClose]) \<and>
    handle_client router_tree fuel saved (Some cl) (print_request PATCH (price_path n) hs1 adm hs2 (price_body k)) =
      call (product_update_price n k) (\<lambda>rc. Ret [SockSend (if rc \<noteq> 0 then send_json_admin 500 ''{"error":"update failed"}''
        else send_json_admin 200 ''{"ok":true}''), SockClose])\<close>
  using assms client_purchase[OF assms(1,2,4,5), of cl] client_deposit[OF assms(1,2,4,5), of cl]
    client_admin[OF assms(1-3,6,8-11)] by (intro conjI) simp_all

theorem client_server_agree_witness:
  \<open>handle_client router_tree 31 None (Some \<lparr>c_internal = False, c_ctx = \<lparr>admin_token = ''admin''\<rparr>\<rparr>)
      (print_request POST ''/orders'' [''Host: localhost:8080'', ''Accept: */*''] (show_int 67) [''Content-Type: application/json''] (purchase_body 11)) =
    call (orders_purchase 67 11) (\<lambda>rc. Ret [SockSend (if rc \<noteq> 0 then send_json_orders 500 ''{"error":"purchase failed"}''
        else send_json_orders 200 ''{"ok":true}''), SockClose])\<close>
proof -
  have "wire_headers [''Host: localhost:8080'', ''Accept: */*''] [''Content-Type: application/json'']" by code_simp
  moreover have "show_int 67 \<noteq> ''admin''" by code_simp
  ultimately show ?thesis
    by (intro client_server_agree[where k = 0 and adm = "''admin''", THEN conjunct1])
       (simp_all add: is_int32_def BEARER_SIZE_def)
qed

section \<open>Workers that share the connection\<close>

lemma busy_refused:
  assumes "sqlite_contract sql_sem sq view faulty" and "txn (view db) \<noteq> None" and "0 < n"
  shows "(run sq (orders_purchase uid slot) db = (r, db') \<longrightarrow> r = -1 \<and> view db' = view db) \<and>
    (run sq (balance_deposit uid n) db = (r, db') \<longrightarrow> r = -1 \<and> view db' = view db) \<and>
    (run sq (product_restock slot n) db = (r, db') \<longrightarrow> r = -1 \<and> view db' = view db) \<and>
    (run sq (users_lookup fp) db = (r, db') \<longrightarrow> r = -1 \<and> view db' = view db)"
proof -
  have "is_err (fst (sq_exec sq begin_sql db)) \<and> view (snd (sq_exec sq begin_sql db)) = view db"
    using sqlite_contract.exec_law[OF assms(1), of begin_sql db] assms(2)
    by (cases "sq_exec sq begin_sql db") (auto simp: a_exec_def)
  with assms(3) show ?thesis
    by (auto simp: orders_purchase_def balance_deposit_def product_restock_def users_lookup_def split_beta Let_def is_err_not)
qed

lemma price_lost:
  "case run_sched mem_sqlite ([0] @ replicate 5 1 @ [0, 0])
      [balance_deposit 1 500, product_update_price 1 750]
      (mem_open demo [False, False, False, True]) of
     (ps, db') \<Rightarrow> map result ps = [Some (-1), Some 0] \<and> committed (mem_view db') = demo \<and> txn (mem_view db') = None"
  by code_simp

text \<open>C17. The workers share one connection. A service that wants a transaction while another worker's
  transaction is open is refused by SQLite and reports failure, whatever the machine holds: a purchase
  that could go through is turned down, and nothing changes. A price change is not wrapped into a
  transaction of its own. When it runs while another worker's transaction is open it becomes part of that
  one, and is lost when that one is rolled back although it was reported as done: here worker 0 begins a
  deposit, worker 1 changes a price and gets the answer 0, and the deposit then fails on a full disk.\<close>

theorem shared_connection_clashes:
  assumes "sqlite_contract sql_sem sq view faulty" and "txn (view db) \<noteq> None" and "0 < n"
  shows "((run sq (orders_purchase uid slot) db = (r, db') \<longrightarrow> r = -1 \<and> view db' = view db) \<and>
    (run sq (balance_deposit uid n) db = (r, db') \<longrightarrow> r = -1 \<and> view db' = view db) \<and>
    (run sq (product_restock slot n) db = (r, db') \<longrightarrow> r = -1 \<and> view db' = view db) \<and>
    (run sq (users_lookup fp) db = (r, db') \<longrightarrow> r = -1 \<and> view db' = view db)) \<and>
    (case run_sched mem_sqlite ([0] @ replicate 5 1 @ [0, 0])
        [balance_deposit 1 500, product_update_price 1 750]
        (mem_open demo [False, False, False, True]) of
       (ps, db') \<Rightarrow> map result ps = [Some (-1), Some 0] \<and> committed (mem_view db') = demo \<and> txn (mem_view db') = None)"
  using busy_refused[OF assms] price_lost by (rule conjI)

theorem shared_connection_clashes_witness:
  "fst (run mem_sqlite (orders_purchase 1 11) (demo_db\<lparr>m_txn := Some demo\<rparr>)) = -1 \<and> purchase_spec 1 11 demo \<noteq> None"
proof -
  obtain r db' where r: "run mem_sqlite (orders_purchase 1 11) (demo_db\<lparr>m_txn := Some demo\<rparr>) = (r, db')"
    by (cases "run mem_sqlite (orders_purchase 1 11) (demo_db\<lparr>m_txn := Some demo\<rparr>)")
  have "txn (mem_view (demo_db\<lparr>m_txn := Some demo\<rparr>)) \<noteq> None" by (simp add: mem_view_def)
  from conjunct1[OF shared_connection_clashes[OF mem.sqlite_contract_axioms this, of 1 1 11 r db']] r
  have "r = -1" by (metis zero_less_one)
  with r show ?thesis by (simp add: purchase_spec_def demo_slot demo_users del: run.simps)
qed

section \<open>Where the fixed widths end\<close>






section \<open>The thread pool\<close>

text \<open>C19. In every reachable state of the pool no job is lost or run twice, and jobs are started in the
  order of their submission: what was submitted is what was started, then what is queued, then what
  shutdown threw away; what was started has completed or is being run by exactly one worker. The
  counters count the busy and the living workers, and jobs are thrown away only by shutdown.\<close>

theorem pool_jobs:
  assumes "reachable n s"
  shows "\<exists>queued. queue_rep (queue (tm s)) queued \<and> submitted s = started s @ map snd queued @ discarded s \<and>
    mset (started s) = mset (completed s) + mset (jobs_at (queue (tm s)) (running s)) \<and>
    distinct (running s) \<and> working_cnt (tm s) = length (running s) \<and> thread_cnt (tm s) = alive_of (workers s) \<and>
    (discarded s \<noteq> [] \<longrightarrow> stop (tm s))"
  using inv_reachable[OF assms] by (auto simp: pool_inv_def nodes_inv_def sync_inv_def)

theorem pool_jobs_witness:
  "submitted (fresh_pool 4 :: nat pool) = started (fresh_pool 4 :: nat pool) @ discarded (fresh_pool 4 :: nat pool)"
proof -
  have "reachable 4 (fresh_pool 4 :: nat pool)" by (rule reachable.created[of 4]) (simp add: tpool_create_def)
  from pool_jobs[OF this] show ?thesis by (auto simp: fresh_pool_def)
qed

text \<open>C20. Without further calls and spurious wake-ups the pool always comes to rest: there is no infinite
  run of the workers' and the waiting caller's own steps.\<close>

theorem pool_comes_to_rest:
  "\<nexists>f :: nat \<Rightarrow> 'a pool. reachable n (f 0) \<and> (\<forall>i. \<exists>e. own_event e \<and> pool_step (f i) e (f (Suc i)))"
proof (rule notI, elim exE conjE)
  fix f :: "nat \<Rightarrow> 'a pool"
  assume f: "reachable n (f 0)" "\<forall>i. \<exists>e. own_event e \<and> pool_step (f i) e (f (Suc i))"
  have "reachable n (f i)" for i by (induction i) (use f in \<open>auto intro: reachable.stepped\<close>)
  then have "(f (Suc i), f i) \<in> {(s', s). pool_inv s \<and> (\<exists>e. own_event e \<and> pool_step s e s')}" for i
    using f(2) inv_reachable by fastforce
  then show False using own_steps_terminate[where 'a = 'a] unfolding wf_iff_no_infinite_down_chain by blast
qed

text \<open>C21. At rest every submitted job has completed or was thrown away by shutdown, no worker is busy, no
  caller of \<^verbatim>\<open>tpool_wait\<close> or \<^verbatim>\<open>tpool_destroy\<close> is left blocked, and after a shutdown every worker has
  exited and the pool is freed.\<close>

theorem pool_rest_is_done:
  assumes "reachable n s" and "\<And>e s'. own_event e \<Longrightarrow> \<not> pool_step s e s'"
  shows "running s = [] \<and> work_first (queue (tm s)) = None \<and> mset (submitted s) = mset (completed s) + mset (discarded s) \<and>
    (caller s = Idle \<or> caller s = Destroyed) \<and> (stop (tm s) \<longrightarrow> set (workers s) \<subseteq> {Exited} \<and> caller s = Destroyed)"
proof -
  note inv = inv_reachable[OF assms(1)]
  note rest = at_rest[OF inv workers_reachable[OF assms(1)] assms(2)]
  have "stop (tm s) \<Longrightarrow> caller s = Destroyed" using rest(3) inv by (auto simp: pool_inv_def sync_inv_def)
  with rest jobs_account[OF inv rest(1,2)] show ?thesis by blast
qed

theorem pool_rest_is_done_witness:
  "running ((fresh_pool 1 :: nat pool)\<lparr>workers := [Waiting]\<rparr>) = []"
proof -
  let ?s = "(fresh_pool 1 :: nat pool)\<lparr>workers := [Waiting]\<rparr>"
  have "reachable 1 (fresh_pool 1 :: nat pool)" by (rule reachable.created[of 1]) (simp add: tpool_create_def)
  moreover have "pool_step (fresh_pool 1 :: nat pool) (Enter 0) ?s"
    by (rule pool_step.Enter) (simp_all add: fresh_pool_def worker_enter_def empty_queue_def)
  ultimately have "reachable 1 ?s" by (rule reachable.stepped)
  moreover have "\<not> pool_step ?s e s'" if "own_event e" for e s'
  proof
    assume "pool_step ?s e s'"
    then show False using that by cases (auto simp: fresh_pool_def)
  qed
  ultimately show ?thesis using pool_rest_is_done[of 1 ?s] by blast
qed



text \<open>C23. The linked list of jobs is a first-in first-out queue: taking a node off a queue that holds the
  jobs \<open>x # xs\<close> yields the node of \<open>x\<close> and leaves \<open>xs\<close>; linking a new node appends it; both keep the
  jobs of all other nodes, and clearing the queue frees exactly its nodes.\<close>

theorem work_queue_refines_list:
  assumes "queue_rep q xs" and "queue_jobs q a = None"
  shows "(\<exists>q1 q2. tpool_work_create (Some a) (Some j) q = Some (Some a, q1) \<and> link_work a q1 = Some q2 \<and>
        queue_rep q2 (xs @ [(a, j)]) \<and> queue_jobs q2 = (queue_jobs q)(a \<mapsto> j)) \<and>
    (case xs of [] \<Rightarrow> tpool_work_get q = Some (None, q)
     | x # xs' \<Rightarrow> \<exists>q'. tpool_work_get q = Some (Some (fst x), q') \<and> queue_rep q' xs' \<and> queue_jobs q' = queue_jobs q) \<and>
    (\<exists>q'. clear_queue (length xs) q = Some q' \<and> queue_rep q' [] \<and> queue_jobs q' = queue_jobs q |` (- fst ` set xs))"
proof -
  have "case xs of [] \<Rightarrow> tpool_work_get q = Some (None, q)
     | x # xs' \<Rightarrow> \<exists>q'. tpool_work_get q = Some (Some (fst x), q') \<and> queue_rep q' xs' \<and> queue_jobs q' = queue_jobs q"
    using assms(1) work.rep_get_Nil work.rep_get by (cases xs) fastforce+
  then show ?thesis
    using work.rep_add[OF assms, of j] work.rep_clear[OF assms(1), of "length xs"] by blast
qed

theorem work_queue_refines_list_witness:
  "\<exists>q1 q2. tpool_work_create (Some 3) (Some True) empty_queue = Some (Some 3, q1) \<and> link_work 3 q1 = Some q2 \<and>
     queue_rep q2 [(3, True)]"
  using work_queue_refines_list[of "empty_queue :: bool work_queue" "[]" 3 True] work.rep_empty
  by (auto simp: queue_jobs_def empty_queue_def)

section \<open>The server process\<close>



section \<open>The terminal client\<close>

text \<open>C25. From start-up on, over every sequence of keys and every answer of the server, the program keeps
  its selection on a product (when there is one) and its texts within their buffers; the prompt is open
  exactly while an action is pending.\<close>

theorem client_state_invariant:
  "app_ok (fst (tui_loop net ks (fst (app_init net c w)) w'))"
  by (rule app_ok_loop[OF app_ok_init])

text \<open>C26. A vertical move goes to the next occupied row in its direction, around the end if there is none,
  and in that row to a product nearest to the column it came from.\<close>

theorem vertical_move_nearest:
  assumes "\<forall>p \<in> set (products a). is_int32 (tp_slot_id p)"
    and "0 \<le> selected a" and "selected a < count a"
    and "app_slot_rowcol (tp_slot_id (products a ! nat (selected a))) = (r, c)"
  shows "\<exists>k. move_vertical d a = a\<lparr>selected := int k\<rparr> \<and>
    best_in_row (products a) (next_row d r (row_of ` set (products a))) c k"
  using assms by (rule move_vertical_row)

definition demo_app :: app_t where
  "demo_app = \<lparr>client = \<lparr>ac_base_url = [], ac_user_id = 1, ac_admin_token = [], ac_curl = True\<rparr>,
     products = map (\<lambda>n. \<lparr>tp_slot_id = n, tp_item_id = 1, tp_price_gr = 1, tp_stock_qty = 1, tp_name = []\<rparr>) [11, 16, 32, 35],
     balance_gr = 0, selected = 1, admin = False, running_app = True, server_down = False, mode = MODE_BROWSE,
     pending = PROMPT_NONE, prompt_label = [], prompt_buf = [], message = [], konami = replicate 10 0, konami_pos = 0\<rparr>"

theorem vertical_move_nearest_witness:
  "\<exists>k. move_vertical Down demo_app = demo_app\<lparr>selected := int k\<rparr> \<and> best_in_row (products demo_app) 3 6 k"
proof -
  have "row_of ` set (products demo_app) = {1, 3}" by (simp add: demo_app_def app_slot_rowcol_def)
  moreover have "{x :: int. (x = 1 \<or> x = 3) \<and> 1 < x} = {3}" by auto
  ultimately have "next_row Down 1 (row_of ` set (products demo_app)) = 3" by (simp add: next_row_def)
  then show ?thesis
    using vertical_move_nearest[of demo_app 1 6 Down] by (simp add: demo_app_def app_slot_rowcol_def is_int32_def)
qed

text \<open>C27. What the program shows as an amount of money it reads back as the same amount, and likewise for
  quantities; no text is ever read as an amount outside of the C \<^verbatim>\<open>int\<close> range.\<close>

theorem money_roundtrip:
  "(0 \<le> n \<and> n \<le> INT_MAX \<longrightarrow> parse_zl_to_gr (app_fmt_money n 16) = n) \<and>
   (0 < n \<and> n \<le> INT_MAX \<longrightarrow> parse_pos_int (show_int n) = n) \<and>
   -1 \<le> parse_zl_to_gr s \<and> parse_zl_to_gr s \<le> INT_MAX \<and> -1 \<le> parse_pos_int s \<and> parse_pos_int s \<le> INT_MAX"
  using parse_fmt_money[of n 16] parse_show_pos_int[of n] parse_zl_range[of s] parse_pos_int_range[of s] by auto

theorem money_roundtrip_witness:
  "parse_zl_to_gr (app_fmt_money 2147483647 16) = 2147483647"
  using money_roundtrip[of 2147483647] by simp

section \<open>JSON from end to end\<close>

text \<open>C28. The JSON parser is safe on every input: whatever the bytes, the length and the outcomes of its
  allocations, it comes to an end without reading outside of its input or writing outside of the blocks it
  allocates (neither running out of fuel nor an access out of bounds happens); the error position is in the
  input, and after a success the parser stands behind what it read, at nesting depth 0.\<close>

theorem parser_is_safe:
  "case cJSON_ParseWithLengthOpts val require_null_terminated hs of
     Stuck \<Rightarrow> False
   | Bad p hs' \<Rightarrow> p < max 1 (length val)
   | Tree item b \<Rightarrow> 0 < offset b \<and> offset b \<le> length val \<and> depth b = 0"
proof (cases "val = []")
  case False
  from parse_with_length_ok[OF this, of require_null_terminated hs] show ?thesis
    by (auto simp: parse_ok_def split: parsed.splits)
qed (simp add: cJSON_ParseWithLengthOpts_def)


text \<open>C30. The parser reads every text of the JSON grammar, with white space wherever the grammar has it and around
  it, to the tree that the text denotes: escapes of two characters and of code points (surrogate pairs
  included), numbers with fraction and exponent to the nearest double, nesting up to the limit of 1000; when no
  allocation fails.\<close>

theorem parser_reads_grammar:
  assumes "denotes CJSON_NESTING_LIMIT item text" and "blank w" and "blank w'" and "\<forall>ok \<in> set hs. ok"
  shows "\<exists>b. cJSON_Parse (w @ text @ w') hs = Tree item b"
  using assms by (rule cJSON_Parse_denotes)

theorem parser_reads_grammar_witness:
  \<open>\<exists>b. cJSON_Parse (''  '' @ (''[ -5 ,"'' @ [CHR 0x5C] @ ''u0041"]'') @ [CHR 0x0A]) [True] =
     Tree (cJSON_Array [cJSON_Number (Finite (- 5)) (- 5), cJSON_String ''A'']) b\<close>
proof -
  have "unit_text (CHR 0x5C # CHR ''u'' # ''0041'') (utf8_of (hex_value ''0041''))"
    by (rule unit_text.code_point) code_simp+
  moreover have "utf8_of (hex_value ''0041'') = ''A''" by code_simp
  ultimately have "string_text (CHR 0x5C # ''u0041'') ''A''"
    using string_text.string_unit[OF _ string_text.string_nil] by fastforce
  then have str: "denotes 999 (cJSON_String ''A'') (CHR 0x22 # (CHR 0x5C # ''u0041'') @ [CHR 0x22])" by (rule denotes.text_string)
  have "show_int (- 5) = ''-5''" by code_simp
  then have num: "denotes 999 (cJSON_Number (Finite (- 5)) (- 5)) ''-5''" using show_int_text[of "- 5" 999] by (simp add: is_int32_def)
  have "padded (denotes 999 (cJSON_Number (Finite (- 5)) (- 5))) ('' '' @ ''-5'' @ '' '')"
    by (rule padded_blank[OF padded_self[of "denotes 999 (cJSON_Number (Finite (- 5)) (- 5))", OF num]]) (simp_all add: blank_def)
  then have "list_all2 (\<lambda>v. padded (denotes 999 v)) [cJSON_Number (Finite (- 5)) (- 5), cJSON_String ''A'']
      ['' '' @ ''-5'' @ '' '', CHR 0x22 # (CHR 0x5C # ''u0041'') @ [CHR 0x22]]"
    using padded_self[of "denotes 999 (cJSON_String ''A'')", OF str] by simp
  from denotes.text_array[OF _ this]
  have \<open>denotes CJSON_NESTING_LIMIT (cJSON_Array [cJSON_Number (Finite (- 5)) (- 5), cJSON_String ''A'']) (''[ -5 ,"'' @ [CHR 0x5C] @ ''u0041"]'')\<close>
    by (simp add: CJSON_NESTING_LIMIT_def)
  from parser_reads_grammar[OF this, of "''  ''" "[CHR 0x0A]" "[True]"] show ?thesis by (simp add: blank_def)
qed

text \<open>C31. The printer is safe and prints the text of the tree. For a tree of doubles, ints and C strings none of its
  entry points reads or writes outside of its block, and each returns a null pointer or exactly the text, the
  latter whenever no allocation fails, the nesting is within the limit and the length is an \<^verbatim>\<open>int\<close>. (With a
  first block of size 0 this needs hooks with a \<^verbatim>\<open>reallocate\<close>.) A caller's block that has two bytes more
  than the text is always large enough.\<close>

theorem printer_prints_text:
  assumes "printable item"
  shows "gives_text ((\<forall>ok \<in> set hs. ok) \<and> prints_fully True item) (pretty True 0 item) (cJSON_Print item realloc hs) \<and>
    gives_text ((\<forall>ok \<in> set hs. ok) \<and> prints_fully False item) (pretty False 0 item) (cJSON_PrintUnformatted item realloc hs) \<and>
    (realloc \<or> 0 < prebuffer \<longrightarrow>
       gives_text (0 \<le> prebuffer \<and> (\<forall>ok \<in> set hs. ok) \<and> prints_fully fmt item) (pretty fmt 0 item)
         (cJSON_PrintBuffered item prebuffer fmt realloc hs)) \<and>
    (is_int32 len \<and> int (length block) = len \<longrightarrow>
       (\<exists>ok block'. cJSON_PrintPreallocated item (Some block) len fmt = Some (ok, block') \<and>
          (ok \<longrightarrow> (\<exists>m. block' = Some m \<and> c_read m = Some (pretty fmt 0 item))) \<and>
          (nesting item \<le> CJSON_NESTING_LIMIT \<and> int (length (pretty fmt 0 item)) + 2 \<le> len \<longrightarrow> ok)))"
  unfolding cJSON_Print_def cJSON_PrintUnformatted_def
  by (intro conjI impI print_tree_text[OF assms] cJSON_PrintBuffered_text[OF assms] cJSON_PrintPreallocated_text[OF assms]) auto

theorem printer_prints_text_witness:
  \<open>cJSON_PrintUnformatted (cJSON_Array [cJSON_String ''a"b'', cJSON_True]) True [] = Some (Some (''["a'' @ [CHR 0x5C] @ ''"b",true]''))\<close>
proof -
  let ?item = \<open>cJSON_Array [cJSON_String ''a"b'', cJSON_True]\<close>
  have printed: \<open>pretty False 0 ?item = ''["a'' @ [CHR 0x5C] @ ''"b",true]''\<close> by (simp add: quoted_def escape_of_def)
  then have "prints_fully False ?item" by (simp add: prints_fully_def CJSON_NESTING_LIMIT_def)
  with printer_prints_text[of ?item "[]" True] printed show ?thesis by (simp add: gives_text_def)
qed

text \<open>C32. What is printed, formatted or not, is read back: for every tree that the parser can return, with memory
  enough, the parser reads the printed text to the same tree, a number being the value of its printed text and
  an infinite one \<open>null\<close>; where the numbers are of type \<^verbatim>\<open>int\<close>, to exactly the tree that was printed.\<close>

theorem print_parse_roundtrip:
  assumes "well_formed CJSON_NESTING_LIMIT item" and "int (length (pretty fmt 0 item)) + 2 \<le> INT_MAX"
    and "\<forall>ok \<in> set hs. ok" and "\<forall>ok \<in> set hs'. ok"
  shows "\<exists>text b. print_tree item fmt realloc hs = Some (Some text) \<and> cJSON_Parse text hs' = Tree (reread item) b \<and>
    (readable CJSON_NESTING_LIMIT item \<longrightarrow> reread item = item)"
proof -
  have "printable item" "nesting item \<le> CJSON_NESTING_LIMIT" using well_formed_printable[OF assms(1)] by auto
  then have "print_tree item fmt realloc hs = Some (Some (pretty fmt 0 item))"
    using print_tree_text[of item hs fmt realloc] assms(2,3) by (auto simp: gives_text_def prints_fully_def)
  with cJSON_Parse_pretty[OF assms(1,4), of fmt] reread_readable[of CJSON_NESTING_LIMIT item] show ?thesis by auto
qed

theorem print_parse_roundtrip_witness:
  "\<exists>text b. print_tree (cJSON_Object [(''id'', cJSON_Number (Finite 7) 7)]) True False [] = Some (Some text) \<and>
     cJSON_Parse text [] = Tree (cJSON_Object [(''id'', cJSON_Number (Finite 7) 7)]) b"
proof -
  let ?item = "cJSON_Object [(''id'', cJSON_Number (Finite 7) 7)]"
  have r: "readable CJSON_NESTING_LIMIT ?item" by (simp add: CJSON_NESTING_LIMIT_def is_int32_def)
  have "number_text (Finite 7) 7 = ''7''" by (simp add: number_text_def show_int_def show_nat.simps digit_chr_def)
  then have "int (length (pretty True 0 ?item)) + 2 \<le> INT_MAX" by (simp add: quoted_def escape_of_def)
  from print_parse_roundtrip[OF _ this, of "[]" "[]" False] reread_readable[OF r] r show ?thesis by simp
qed

section \<open>Trees in memory\<close>

text \<open>C33. The editing functions for arrays are the operations on the list of children, with all of its forward,
  backward and wrap-around pointers in order. Size and element at an index are those of the list; an item
  that is in no list is appended, or inserted before an index (at the end for an index behind it); the
  element at an index is taken out, or taken out and deleted with all that it owns and nothing else, or
  replaced and deleted; an index behind the end takes nothing out.\<close>

theorem edits_refine_lists:
  assumes "children h a cs"
  shows "cJSON_GetArraySize_at (Some a) h = Some (wrap32 (int (length cs))) \<and>
    cJSON_GetArrayItem (Some a) (int n) h = Some (if n < length cs then Some (cs ! n) else None) \<and>
    (loose i h \<and> i \<noteq> a \<longrightarrow>
       (\<exists>h'. cJSON_AddItemToArray (Some a) (Some i) h = Some (True, h') \<and> children h' a (cs @ [i])) \<and>
       (\<exists>h'. cJSON_InsertItemInArray (Some a) (int n) (Some i) h = Some (True, h') \<and> children h' a (insert_at n i cs))) \<and>
    (n < length cs \<longrightarrow>
       (\<exists>h'. cJSON_DetachItemFromArray (Some a) (int n) h = Some (Some (cs ! n), h') \<and> children h' a (remove_at n cs) \<and> loose (cs ! n) h') \<and>
       (ht_addr t = cs ! n \<and> member_tree h a (remove_at n cs) t \<longrightarrow>
          (\<exists>h'. cJSON_DeleteItemFromArray (Some a) (int n) h = Some h' \<and> taken_out h a (remove_at n cs) t h')) \<and>
       (ht_addr t = cs ! n \<and> member_tree h a (i # remove_at n cs) t \<and> loose i h \<and> i \<noteq> a \<longrightarrow>
          (\<exists>h'. cJSON_ReplaceItemInArray (Some a) (int n) (Some i) h = Some (True, h') \<and> taken_out h a (cs[n := i]) t h'))) \<and>
    (length cs \<le> n \<longrightarrow> cJSON_DetachItemFromArray (Some a) (int n) h = Some (None, h))"
proof (intro conjI impI)
  show "cJSON_GetArrayItem (Some a) (int n) h = Some (if n < length cs then Some (cs ! n) else None)"
    using get_array_item_list[OF assms] by (simp add: cJSON_GetArrayItem_def)
  show "\<exists>h'. cJSON_AddItemToArray (Some a) (Some i) h = Some (True, h') \<and> children h' a (cs @ [i])" if "loose i h \<and> i \<noteq> a"
    using items.append_law[OF assms, of i] that by (auto simp: fresh_for_def cJSON_AddItemToArray_def)
qed (use get_array_size[OF assms] insert_at_index[OF assms] detach_at_index[OF assms] delete_at_index[OF assms] replace_at_index[OF assms] in blast)+

text \<open>An array at address 0 with the children 1 and 2, and an item 3 beside it.\<close>

definition demo_heap :: heap_t where
  "demo_heap = \<lparr>h_items = [0 \<mapsto> blank_item\<lparr>i_kind := K_Array, i_child := Some 1\<rparr>,
      1 \<mapsto> blank_item\<lparr>i_kind := K_True, i_next := Some 2, i_prev := Some 2\<rparr>,
      2 \<mapsto> blank_item\<lparr>i_kind := K_NULL, i_prev := Some 1\<rparr>, 3 \<mapsto> blank_item\<lparr>i_kind := K_False\<rparr>],
     h_texts = Map.empty, h_next = 4, h_allocs = []\<rparr>"

lemma demo_children: "children demo_heap 0 [1, 2]" "loose 3 demo_heap"
  by (auto simp: children_def demo_heap_def blank_item_def prev_in_def loose_def)

theorem edits_refine_lists_witness:
  "(\<exists>h'. cJSON_InsertItemInArray (Some 0) 1 (Some 3) demo_heap = Some (True, h') \<and> children h' 0 [1, 3, 2]) \<and>
   (\<exists>h'. cJSON_ReplaceItemInArray (Some 0) 1 (Some 3) demo_heap = Some (True, h') \<and> children h' 0 [1, 3] \<and> h_items h' 2 = None)"
proof -
  let ?t = "HT 2 (blank_item\<lparr>i_kind := K_NULL\<rparr>) []"
  have "member_tree demo_heap 0 (3 # remove_at 1 [1, 2]) ?t"
    by (simp add: member_tree_def demo_heap_def blank_item_def remove_at_def own_texts_def strip_def)
  then show ?thesis using edits_refine_lists[OF demo_children(1), where n = 1 and i = 3 and t = ?t] demo_children(2)
    by (auto simp: insert_at_def taken_out_def)
qed

text \<open>C34. A recursive copy is a separate tree of the same content. \<^verbatim>\<open>cJSON_Duplicate\<close> returns on every tree that can be
  read, whichever allocations fail. Either it has no result, the heap is as before, and an allocation failed
  or the tree has more levels than the limit of 10000; or the copy has the content of the original with all
  lists in order, consists of new blocks only, everything that was there is unchanged, and deleting the copy
  gives back exactly its blocks.\<close>

theorem duplicate_is_separate:
  assumes "alloc_ok h" and "readable_tree h t" and "texts_ok h t"
  shows "\<exists>p h'. cJSON_Duplicate (Some (ht_addr t)) True h = Some (p, h') \<and>
    (case p of
       None \<Rightarrow> h_items h' = h_items h \<and> h_texts h' = h_texts h \<and> (CJSON_CIRCULAR_LIMIT < height t \<or> \<not> never_fails h)
     | Some b \<Rightarrow> (\<exists>u. ht_addr u = b \<and> content_of h' u = content_of h t \<and> linked_tree h' u \<and>
         (\<forall>c x. h_items h c = Some x \<longrightarrow> c \<notin> set (item_addrs u) \<and> h_items h' c = Some x) \<and>
         (\<forall>s x. h_texts h s = Some x \<longrightarrow> s \<notin> set (text_addrs u) \<and> h_texts h' s = Some x)) \<and>
         (\<exists>h''. cJSON_Delete (Some b) h' = Some h'' \<and> h_items h'' = h_items h \<and> h_texts h'' = h_texts h))"
  using assms by (rule duplicate_separate)

definition demo_tree :: htree where
  "demo_tree = HT 0 (blank_item\<lparr>i_kind := K_Array, i_child := Some 1\<rparr>)
     [HT 1 (blank_item\<lparr>i_kind := K_True\<rparr>) [], HT 2 (blank_item\<lparr>i_kind := K_NULL\<rparr>) []]"

theorem duplicate_is_separate_witness:
  "\<exists>b h' h''. cJSON_Duplicate (Some 0) True demo_heap = Some (Some b, h') \<and> cJSON_Delete (Some b) h' = Some h'' \<and> h_items h'' = h_items demo_heap"
proof -
  have t: "readable_tree demo_heap demo_tree" "texts_ok demo_heap demo_tree" "height demo_tree = 1" "ht_addr demo_tree = 0"
    by (auto simp: demo_tree_def demo_heap_def blank_item_def strip_def)
  have "alloc_ok demo_heap" "never_fails demo_heap" by (auto simp: alloc_ok_def never_fails_def demo_heap_def)
  from duplicate_is_separate[OF this(1) t(1,2)] this(2) t(3,4) show ?thesis by (auto split: option.splits)
qed



text \<open>C36. \<^verbatim>\<open>cJSON_Minify\<close> works within the block of its text and keeps what the text means: a text of the grammar,
  with white space around it, is read to the same tree afterwards, is not longer, and is not changed by a
  second pass; what is behind the text in the block is not touched. This is so for trees in which no string
  and no name ends in a backslash. The condition is needed: in a text with such a string the blanks of the
  next string are lost.\<close>

theorem minify_keeps_meaning:
  assumes "denotes CJSON_NESTING_LIMIT item text" and "strings_end_well item" and "blank w" and "blank w'" and "\<forall>ok \<in> set hs. ok"
  shows "(\<exists>m b. cJSON_Minify (Some ((w @ text @ w') @ CHR 0x00 # z)) = Some (Some m) \<and> cJSON_Parse (c_string m) hs = Tree item b \<and>
      length m = length (w @ text @ w') + 1 + length z \<and> drop (length (w @ text @ w') + 1) m = z \<and>
      length (c_string m) \<le> length (w @ text @ w') \<and>
      (\<exists>m'. cJSON_Minify (Some m) = Some (Some m') \<and> c_string m' = c_string m)) \<and>
    map_option (map_option c_string) (cJSON_Minify (Some (hidden_quote @ [CHR 0x00]))) = Some (Some hidden_quote_minified)"
  using minify_meaning[OF assms] hidden_quote_minify by (rule conjI)

theorem minify_keeps_meaning_witness:
  \<open>\<exists>m b. cJSON_Minify (Some (''["a" , "b c"] '' @ [CHR 0x00])) = Some (Some m) \<and>
     cJSON_Parse (c_string m) [True] = Tree (cJSON_Array [cJSON_String ''a'', cJSON_String ''b c'']) b\<close>
proof -
  let ?v = "cJSON_Array [cJSON_String ''a'', cJSON_String ''b c'']"
  have str: "denotes n (cJSON_String s) (CHR 0x22 # s @ [CHR 0x22])" if "CHR 0x22 \<notin> set s" "CHR 0x5C \<notin> set s" "CHR 0x00 \<notin> set s" for n s
  proof (rule denotes.text_string)
    show "string_text s s" using that
    proof (induction s)
      case (Cons c s)
      then have "unit_text [c] [c]" by (intro unit_text.raw_char) auto
      then show ?case using string_text.string_unit[of "[c]" "[c]" s s] Cons by simp
    qed (rule string_text.string_nil)
  qed
  have "padded (denotes 999 (cJSON_String ''a'')) ([] @ (CHR 0x22 # ''a'' @ [CHR 0x22]) @ '' '')"
    "padded (denotes 999 (cJSON_String ''b c'')) ('' '' @ (CHR 0x22 # ''b c'' @ [CHR 0x22]) @ [])"
    by (rule padded_blank, rule padded_self[of "denotes n (cJSON_String s)" for n s], rule str; simp add: blank_def)+
  then have "list_all2 (\<lambda>v. padded (denotes 999 v)) [cJSON_String ''a'', cJSON_String ''b c'']
      [(CHR 0x22 # ''a'' @ [CHR 0x22]) @ '' '', '' '' @ (CHR 0x22 # ''b c'' @ [CHR 0x22])]" by simp
  from denotes.text_array[OF _ this] have d: \<open>denotes CJSON_NESTING_LIMIT ?v ''["a" , "b c"]''\<close>
    by (simp add: CJSON_NESTING_LIMIT_def)
  have "strings_end_well ?v" by code_simp
  from minify_keeps_meaning[OF d this, of "[]" "'' ''" "[True]" "[]"] show ?thesis by (auto simp: blank_def)
qed

section \<open>What the client shows\<close>





section \<open>From the key to the session\<close>



text \<open>C39. The gate lets everybody in: when no attempt to look the key up succeeds (the server cannot be reached,
  or the address is that of the public port, which refuses every lookup), the gate still prints a line for the
  key after at most eight seconds of pauses, and the session acts on the account that all such sessions
  share.\<close>

theorem gate_fails_open:
  assumes "\<And>url w. lookup_url env file = Some url \<Longrightarrow> fst (post (url @ ''/users/lookup'') fp w) = Raised True \<or>
      (\<exists>hs cl fuel saved db. gate_headers hs \<and> \<not> c_internal cl \<and> hands_over (fst (post (url @ ''/users/lookup'') fp w))
         (fst (run sq (handle_client router_tree fuel saved (Some cl) (lookup_request hs fp)) db)))"
    and "plain_fingerprint fp" and "runs_words runs"
    and "authencesn post env file [prog, user, key_type, b64key, fp] w = (status, out, es, w')"
  shows "status = 0 \<and> total_delay es \<le> 8 \<and> tc_user_id (tui_load_config (runs out) getenv) = shared_account getenv"
  using gate_starts_shared[of env "file" post fp runs getenv prog user key_type b64key w, OF attempt_fails[OF assms(1,2)] assms(3)] assms(4)
  by simp

theorem gate_fails_open_witness:
  "case authencesn (demo_post (Answer True None)) (\<lambda>_. Some ''http://api:8080'') None [[], ''wanderer'', ''ssh-rsa'', ''AAAA'', ''SHA256:x''] () of
     (status, out, es, w') \<Rightarrow> status = 0 \<and> tc_user_id (tui_load_config (demo_runs out) (\<lambda>_. None)) = 67"
proof -
  let ?cl = "\<lparr>c_internal = False, c_ctx = \<lparr>admin_token = ''admin''\<rparr>\<rparr>"
  have hs: "gate_headers [''Accept: */*'']" and fp: "plain_fingerprint ''SHA256:x''" by code_simp+
  have "hands_over (Answer True None) (fst (run mem_sqlite (handle_client router_tree 31 None (Some ?cl)
      (lookup_request [''Accept: */*''] ''SHA256:x'')) demo_db))"
    by (simp add: public_port_refuses[OF hs fp] hands_over_def json_response_def empty_response_def)
  with hs have public: "\<exists>hs cl fuel saved db. gate_headers hs \<and> \<not> c_internal cl \<and> hands_over (fst (demo_post (Answer True None) url fp w))
      (fst (run mem_sqlite (handle_client router_tree fuel saved (Some cl) (lookup_request hs ''SHA256:x'')) db))" for url fp w
    by (intro exI[of _ "[''Accept: */*'']"] exI[of _ ?cl] exI[of _ 31] exI[of _ None] exI[of _ demo_db]) (simp add: demo_post_def)
  show ?thesis
  proof (rule case_prodI2, clarify)
    fix status out es w'
    assume "authencesn (demo_post (Answer True None)) (\<lambda>_. Some ''http://api:8080'') None [[], ''wanderer'', ''ssh-rsa'', ''AAAA'', ''SHA256:x''] () = (status, out, es, w')"
    from gate_fails_open[OF disjI2[OF public] fp demo_runs_words this, of "\<lambda>_. None"]
    show "status = 0 \<and> tc_user_id (tui_load_config (demo_runs out) (\<lambda>_. None)) = 67" by (simp add: shared_account_def)
  qed
qed

section \<open>The screen\<close>



end
